(* ===== verification/Fabric_Prelude.thy ===== *)
theory Fabric_Prelude
  imports Main "HOL-Library.Word" "HOL-Library.AList" "HOL-Library.Char_ord"
    "HOL-Library.List_Lexorder" "HOL-Library.Sublist"
begin

text \<open>
  Shared vocabulary of the development: the Go types and the error convention every
  component uses, and the generic facts on association lists, sorted lists and byte
  strings that the component proofs rest on.

  \<^item> A Go \<^verbatim>\<open>string\<close> is a \<^typ>\<open>string\<close> (a list of 8-bit characters); a Go
    \<^verbatim>\<open>[]byte\<close> is a list of 8-bit words, wrapped in \<^typ>\<open>'a option\<close> where the code
    tells \<^verbatim>\<open>nil\<close> from an empty slice. Both are compared byte by byte by the
    lexicographic order of \<open>HOL-Library.List_Lexorder\<close>, which is what
    \<^verbatim>\<open>bytes.Compare\<close> and \<^verbatim>\<open>strings.Compare\<close> do.
  \<^item> A Go \<^verbatim>\<open>map\<close> is an association list with distinct keys. Its order stands for the
    order in which \<^verbatim>\<open>range\<close> happens to visit the map, so a statement over all
    association lists covers every iteration order.
  \<^item> A function that returns an error or panics has a result of type \<open>'a res\<close>:
    \<open>Inl (GoErr m)\<close> is a returned error, \<open>Inl (GoPanic m)\<close> a panic and
    \<open>Inl GoDiverge\<close> a call that does not return.
\<close>

section \<open>Types\<close>

type_synonym byte = "8 word"
type_synonym bytes = "8 word list"
type_synonym uint32 = "32 word"
type_synonym uint64 = "64 word"

datatype go_err = GoErr string | GoPanic string | GoDiverge

type_synonym 'a res = "go_err + 'a"

type_synonym ('k, 'v) gomap = "('k \<times> 'v) list"

definition res_bind :: "'a res \<Rightarrow> ('a \<Rightarrow> 'b res) \<Rightarrow> 'b res" where
  "res_bind r f = (case r of Inl e \<Rightarrow> Inl e | Inr a \<Rightarrow> f a)"

named_theorems res_simps \<open>equations that run a computation returning \<open>'a res\<close>\<close>

lemma res_bind_Inl [simp, res_simps]: "res_bind (Inl e) f = Inl e"
  by (simp add: res_bind_def)

lemma res_bind_Inr [simp, res_simps]: "res_bind (Inr a) f = f a"
  by (simp add: res_bind_def)

lemma res_bind_eq_Inr [res_simps]:
  "res_bind r f = Inr b \<longleftrightarrow> (\<exists>a. r = Inr a \<and> f a = Inr b)"
  by (cases r) auto

lemma res_bind_eq_Inl:
  "res_bind r f = Inl e \<longleftrightarrow> r = Inl e \<or> (\<exists>a. r = Inr a \<and> f a = Inl e)"
  by (cases r) auto

lemma res_bind_cong [fundef_cong]:
  "r = r' \<Longrightarrow> (\<And>a. r' = Inr a \<Longrightarrow> f a = g a) \<Longrightarrow> res_bind r f = res_bind r' g"
  by (cases r') auto

text \<open>Whether a computation panicked, as opposed to returning a value or an error.\<close>

fun panics :: "'a res \<Rightarrow> bool" where
  "panics (Inl (GoPanic m)) = True"
| "panics _ = False"

text \<open>A Go type assertion or an index expression: the value, or a panic.\<close>

definition index_slice :: "'a list \<Rightarrow> int \<Rightarrow> 'a res" where
  "index_slice xs i = (if 0 \<le> i \<and> i < int (length xs) then Inr (xs ! nat i)
     else Inl (GoPanic ''index out of range''))"

lemma index_slice_ok [res_simps]:
  "0 \<le> i \<Longrightarrow> i < int (length xs) \<Longrightarrow> index_slice xs i = Inr (xs ! nat i)"
  by (simp add: index_slice_def)

lemma index_slice_panics: "int (length xs) \<le> i \<Longrightarrow> panics (index_slice xs i)"
  by (simp add: index_slice_def)

section \<open>Loops that stop at the first error\<close>

fun res_map :: "('a \<Rightarrow> 'b res) \<Rightarrow> 'a list \<Rightarrow> 'b list res" where
  "res_map f [] = Inr []"
| "res_map f (x # xs) = res_bind (f x) (\<lambda>y. res_bind (res_map f xs) (\<lambda>ys. Inr (y # ys)))"

fun res_fold :: "('a \<Rightarrow> 's \<Rightarrow> 's res) \<Rightarrow> 'a list \<Rightarrow> 's \<Rightarrow> 's res" where
  "res_fold f [] s = Inr s"
| "res_fold f (x # xs) s = res_bind (f x s) (res_fold f xs)"

lemma res_map_cong [fundef_cong]:
  assumes "xs = ys" "\<And>x. x \<in> set ys \<Longrightarrow> f x = g x"
  shows "res_map f xs = res_map g ys"
proof -
  have "\<forall>x \<in> set ys. f x = g x \<Longrightarrow> res_map f ys = res_map g ys" by (induction ys) simp_all
  then show ?thesis using assms by blast
qed

lemma res_fold_cong [fundef_cong]:
  assumes "xs = ys" "s = t" "\<And>x u. x \<in> set ys \<Longrightarrow> f x u = g x u"
  shows "res_fold f xs s = res_fold g ys t"
proof -
  have "\<forall>x \<in> set ys. f x = g x \<Longrightarrow> res_fold f ys = res_fold g ys"
  proof (induction ys)
    case (Cons x xs)
    then have "f x = g x" "res_fold f xs = res_fold g xs" by auto
    then show ?case by (intro ext) simp
  qed auto
  moreover have "\<forall>x \<in> set ys. f x = g x" using assms(3) by blast
  ultimately show ?thesis using assms(1, 2) by simp
qed

section \<open>Go maps as association lists\<close>

abbreviation map_get :: "('k, 'v) gomap \<Rightarrow> 'k \<Rightarrow> 'v option" where
  "map_get \<equiv> map_of"

abbreviation map_put :: "'k \<Rightarrow> 'v \<Rightarrow> ('k, 'v) gomap \<Rightarrow> ('k, 'v) gomap" where
  "map_put \<equiv> AList.update"

abbreviation map_del :: "'k \<Rightarrow> ('k, 'v) gomap \<Rightarrow> ('k, 'v) gomap" where
  "map_del \<equiv> AList.delete"

abbreviation map_wf :: "('k, 'v) gomap \<Rightarrow> bool" where
  "map_wf m \<equiv> distinct (map fst m)"

declare update_conv' [simp] delete_conv' [simp]

lemma map_wf_put [simp, intro]: "map_wf m \<Longrightarrow> map_wf (map_put k v m)"
  by (rule distinct_update)

lemma map_wf_del [simp, intro]: "map_wf m \<Longrightarrow> map_wf (map_del k m)"
  by (rule distinct_delete)

lemma keys_map_put [simp]: "fst ` set (map_put k v m) = insert k (fst ` set m)"
  by (induction m) auto

lemma map_get_in_set: "map_wf m \<Longrightarrow> (map_get m k = Some v) = ((k, v) \<in> set m)"
  by simp

lemma keys_eq_dom: "set (map fst m) = dom (map_get m)"
  by (simp add: dom_map_of_conv_image_fst)

section \<open>Sorted key lists\<close>

text \<open>A strictly sorted list of keys is determined by its set of elements.\<close>

lemma sorted_list_filter_eq:
  fixes xs ys :: "'a::linorder list"
  assumes "sorted xs" "distinct xs" "sorted ys" "distinct ys" "set xs = set ys"
  shows "xs = ys"
  using assms by (rule sorted_distinct_set_unique)

lemma takeWhile_less_sorted:
  fixes xs :: "'a::linorder list"
  assumes "sorted xs"
  shows "takeWhile (\<lambda>x. x < a) xs = filter (\<lambda>x. x < a) xs"
  using assms
proof (induction xs)
  case (Cons x xs)
  show ?case
  proof (cases "x < a")
    case True
    with Cons show ?thesis by simp
  next
    case False
    then have "\<forall>y \<in> set xs. \<not> y < a" using Cons.prems by fastforce
    then show ?thesis using False by (simp add: filter_empty_conv)
  qed
qed simp

lemma dropWhile_less_sorted:
  fixes xs :: "'a::linorder list"
  assumes "sorted xs"
  shows "dropWhile (\<lambda>x. x < a) xs = filter (\<lambda>x. a \<le> x) xs"
  using assms
proof (induction xs)
  case (Cons x xs)
  show ?case
  proof (cases "x < a")
    case True
    with Cons show ?thesis by (simp add: leD)
  next
    case False
    then have "\<forall>y \<in> set xs. a \<le> y" using Cons.prems by fastforce
    then show ?thesis using False by simp
  qed
qed simp

section \<open>Bytes of a string\<close>

definition byte_of_char :: "char \<Rightarrow> byte" where
  "byte_of_char c = word_of_nat (of_char c)"

definition char_of_byte :: "byte \<Rightarrow> char" where
  "char_of_byte b = char_of (unat b)"

definition string_bytes :: "string \<Rightarrow> bytes" where
  "string_bytes s = map byte_of_char s"

definition bytes_string :: "bytes \<Rightarrow> string" where
  "bytes_string b = map char_of_byte b"

lemma unat_byte_of_char: "unat (byte_of_char c) = of_char c"
proof -
  have "(of_char c :: nat) < 256" by simp
  then show ?thesis by (simp add: byte_of_char_def unat_of_nat)
qed

lemma char_of_byte_of_char [simp]: "char_of_byte (byte_of_char c) = c"
  by (simp add: char_of_byte_def unat_byte_of_char)

lemma byte_of_char_inj [simp]: "byte_of_char c = byte_of_char d \<longleftrightarrow> c = d"
  by (metis char_of_byte_of_char)

lemma byte_of_char_less [simp]: "byte_of_char c < byte_of_char d \<longleftrightarrow> c < d"
  by (simp add: word_less_nat_alt unat_byte_of_char less_char_def)

lemma bytes_string_bytes [simp]: "bytes_string (string_bytes s) = s"
  by (induction s) (simp_all add: bytes_string_def string_bytes_def)

lemma byte_of_char_of_byte [simp]: "byte_of_char (char_of_byte b) = b"
proof -
  have "unat b < 256" using unsigned_less[of b] by simp
  then have "unat (byte_of_char (char_of_byte b)) = unat b"
    by (simp add: unat_byte_of_char char_of_byte_def)
  then have "word_of_nat (unat (byte_of_char (char_of_byte b))) = (word_of_nat (unat b) :: byte)"
    by (simp only:)
  then show ?thesis by simp
qed

lemma string_bytes_string [simp]: "string_bytes (bytes_string b) = b"
  by (induction b) (simp_all add: bytes_string_def string_bytes_def)

lemma string_bytes_inj [simp]: "string_bytes s = string_bytes t \<longleftrightarrow> s = t"
  by (metis bytes_string_bytes)

lemma string_bytes_Nil [simp]: "string_bytes [] = []"
  by (simp add: string_bytes_def)

lemma string_bytes_Cons [simp]: "string_bytes (c # s) = byte_of_char c # string_bytes s"
  by (simp add: string_bytes_def)

lemma string_bytes_append [simp]: "string_bytes (s @ t) = string_bytes s @ string_bytes t"
  by (simp add: string_bytes_def)

lemma string_bytes_less [simp]: "string_bytes s < string_bytes t \<longleftrightarrow> s < t"
proof (induction s arbitrary: t)
  case Nil
  then show ?case by (cases t) simp_all
next
  case (Cons c s)
  then show ?case by (cases t) simp_all
qed

lemma string_bytes_le [simp]: "string_bytes s \<le> string_bytes t \<longleftrightarrow> s \<le> t"
  by (simp add: le_less)

text \<open>The lexicographic order on lists and common prefixes.\<close>

lemma append_less_same_prefix [simp]:
  fixes p :: "'a::linorder list"
  shows "p @ x < p @ y \<longleftrightarrow> x < y"
  by (induction p) simp_all

lemma append_le_same_prefix [simp]:
  fixes p :: "'a::linorder list"
  shows "p @ x \<le> p @ y \<longleftrightarrow> x \<le> y"
  by (induction p) simp_all

end
