(* ===== verification/Order_Varint.thy ===== *)
theory Order_Varint
  imports Fabric_Prelude
begin

unbundle bit_operations_syntax

text \<open>
  Integer encodings of the ledger. The protobuf varint (\<^verbatim>\<open>EncodeVarint\<close>,
  \<^verbatim>\<open>DecodeVarint\<close>, \<^verbatim>\<open>SizeVarint\<close> of the vendored golang/protobuf package) and the
  order-preserving variable-length encoding of a \<^verbatim>\<open>uint64\<close> of
  \<^verbatim>\<open>common/ledger/util/util.go\<close>, which prefixes the big-endian bytes of a number,
  leading zero bytes trimmed, with their count.

  Shown here: both encodings round-trip in front of any suffix; the order-preserving
  one never panics and compares bytewise, whatever follows, as the numbers compare.
\<close>

section \<open>Protobuf varints\<close>

lemma unat_drop7 [simp]: "unat (drop_bit 7 (x::uint64)) = unat x div 128"
  by (simp add: unat_div drop_bit_eq_div)

lemma unat_div_128_less [simp]: "127 < x \<Longrightarrow> unat x div 128 < unat (x::uint64)"
  by (auto simp: word_less_nat_alt intro: div_less_dividend)

function EncodeVarint :: "uint64 \<Rightarrow> bytes" where
  "EncodeVarint x =
     (if x > 127 then (0x80 OR ucast (x AND 0x7F)) # EncodeVarint (drop_bit 7 x)
      else [ucast x])"
  by pat_completeness auto
termination by (relation "measure unat") auto

fun DecodeVarint_loop :: "nat \<Rightarrow> uint64 \<Rightarrow> nat \<Rightarrow> bytes \<Rightarrow> uint64 \<times> nat" where
  "DecodeVarint_loop shift x n [] = (0, 0)"
| "DecodeVarint_loop shift x n (b # buf) =
     (if shift < 64 then
        (let x' = x OR push_bit shift (ucast b AND 0x7F)
         in if b AND 0x80 = 0 then (x', n + 1)
            else DecodeVarint_loop (shift + 7) x' (n + 1) buf)
      else (0, 0))"

definition DecodeVarint :: "bytes \<Rightarrow> uint64 \<times> nat" where
  "DecodeVarint buf = DecodeVarint_loop 0 0 0 buf"

function sizeVarint :: "uint64 \<Rightarrow> nat" where
  "sizeVarint x = (let x' = drop_bit 7 x in if x' = 0 then 1 else Suc (sizeVarint x'))"
  by pat_completeness auto
termination
proof (relation "measure unat", simp)
  fix x x' :: uint64
  assume x': "x' = drop_bit 7 x" "x' \<noteq> 0"
  then have "unat x \<noteq> 0" by (auto simp: unat_eq_0)
  then show "(x', x) \<in> measure unat" using x' by simp
qed

declare EncodeVarint.simps [simp del] sizeVarint.simps [simp del]

lemma EncodeVarint_small: "\<not> 127 < x \<Longrightarrow> EncodeVarint x = [ucast x]"
  by (subst EncodeVarint.simps) simp

lemma EncodeVarint_large:
  "127 < x \<Longrightarrow> EncodeVarint x = (0x80 OR ucast (x AND 0x7F)) # EncodeVarint (drop_bit 7 x)"
  by (subst EncodeVarint.simps) simp

lemma and_7F_take_bit: "(x::uint64) AND 0x7F = take_bit 7 x" "(b::byte) AND 0x7F = take_bit 7 b"
  by (simp_all add: take_bit_eq_mask mask_eq_exp_minus_1)

lemma bit_80 [simp]: "bit (0x80::byte) n \<longleftrightarrow> n = 7" "bit (0x80::uint64) n \<longleftrightarrow> n = 7"
proof -
  have e: "(0x80::byte) = 2 ^ 7" "(0x80::uint64) = 2 ^ 7" by simp_all
  show "bit (0x80::byte) n \<longleftrightarrow> n = 7" "bit (0x80::uint64) n \<longleftrightarrow> n = 7"
    by (simp_all only: e bit_exp_iff possible_bit_word) auto
qed

lemma and_80_eq_0: "(b::byte) AND 0x80 = 0 \<longleftrightarrow> \<not> bit b 7"
proof
  assume "b AND 0x80 = 0"
  then have "\<not> bit (b AND 0x80) 7" by simp
  then show "\<not> bit b 7" by (simp add: bit_and_iff)
next
  assume "\<not> bit b 7"
  then have "\<not> bit (b AND 0x80) n" for n
    unfolding bit_and_iff bit_80 by auto
  then show "b AND 0x80 = 0" by (auto intro: bit_word_eqI)
qed

lemma small_bits: "\<not> 127 < (x::uint64) \<Longrightarrow> bit x n \<Longrightarrow> n < 7"
proof (rule ccontr)
  assume x: "\<not> 127 < x" "bit x n" "\<not> n < 7"
  then have "drop_bit 7 x = 0"
    by (simp add: drop_bit_eq_div word_less_nat_alt not_less div_less unat_div flip: unat_eq_0)
  then have "\<not> bit (drop_bit 7 x) (n - 7)" by simp
  then show False using x by (simp add: bit_drop_bit_eq)
qed

lemma byte_bits: "bit (b::byte) n \<Longrightarrow> n < 8"
  by (drule bit_imp_le_length) simp

text \<open>The loop reads back what the encoder wrote, in front of any suffix.\<close>

lemma DecodeVarint_loop_EncodeVarint:
  assumes "unat y * 2 ^ shift < 2 ^ 64" "shift < 64"
  shows "DecodeVarint_loop shift acc n (EncodeVarint y @ rest) =
    (acc OR push_bit shift y, n + length (EncodeVarint y))"
  using assms
proof (induction y arbitrary: shift acc n rule: EncodeVarint.induct)
  case (1 y)
  show ?case
  proof (cases "127 < y")
    case False
    have "ucast (ucast y :: byte) AND 0x7F = y"
    proof (rule bit_word_eqI)
      fix n
      show "bit (ucast (ucast y :: byte) AND 0x7F :: uint64) n = bit y n"
        using small_bits[OF False, of n]
        by (auto simp: and_7F_take_bit bit_take_bit_iff bit_unsigned_iff)
    qed
    moreover have "(ucast y :: byte) AND 0x80 = 0"
      using small_bits[OF False, of 7] by (auto simp: and_80_eq_0 bit_unsigned_iff)
    ultimately show ?thesis using False "1.prems" by (simp add: EncodeVarint_small)
  next
    case True
    let ?b = "0x80 OR ucast (y AND 0x7F) :: byte"
    have b: "ucast ?b AND 0x7F = take_bit 7 y"
    proof (rule bit_word_eqI)
      fix n
      have "bit ?b n \<longleftrightarrow> n = 7 \<or> n < 7 \<and> bit y n" if "n < 8"
        using that unfolding bit_or_iff bit_80 and_7F_take_bit bit_unsigned_iff bit_take_bit_iff
        by auto
      then show "bit (ucast ?b AND 0x7F :: uint64) n = bit (take_bit 7 y) n"
        unfolding and_7F_take_bit bit_take_bit_iff bit_unsigned_iff by (auto simp: and_7F_take_bit)
    qed
    have h: "?b AND 0x80 \<noteq> 0" by (simp add: and_80_eq_0 bit_or_iff)
    have "128 \<le> unat y" using True by (simp add: word_less_nat_alt)
    then have "2 ^ (shift + 7) \<le> unat y * 2 ^ shift" by (simp add: power_add)
    also have "\<dots> < 2 ^ 64" by (rule "1.prems"(1))
    finally have s: "shift + 7 < 64" by (metis nat_power_less_imp_less zero_less_numeral)
    have "unat y div 128 * 128 * 2 ^ shift \<le> unat y * 2 ^ shift"
      by (rule mult_le_mono1) (rule div_times_less_eq_dividend)
    then have "unat y div 128 * 2 ^ (shift + 7) \<le> unat y * 2 ^ shift"
      by (simp add: power_add mult_ac)
    then have "unat (drop_bit 7 y) * 2 ^ (shift + 7) < 2 ^ 64" using "1.prems" by simp
    note IH = "1.IH"[OF True this s]
    have "push_bit shift (take_bit 7 y) OR push_bit (shift + 7) (drop_bit 7 y) = push_bit shift y"
    proof (rule bit_word_eqI)
      fix n
      have "7 + (n - (shift + 7)) = n - shift" if "shift + 7 \<le> n" using that by simp
      then show "bit (push_bit shift (take_bit 7 y) OR push_bit (shift + 7) (drop_bit 7 y)) n
          = bit (push_bit shift y) n"
        by (cases "shift + 7 \<le> n")
          (auto simp: bit_or_iff bit_push_bit_iff bit_take_bit_iff bit_drop_bit_eq)
    qed
    then have "(acc OR push_bit shift (take_bit 7 y)) OR push_bit (shift + 7) (drop_bit 7 y)
        = acc OR push_bit shift y"
      by (simp add: or.assoc)
    then show ?thesis using True h b "1.prems" s by (simp add: EncodeVarint_large IH)
  qed
qed

lemma DecodeVarint_EncodeVarint [simp]:
  "DecodeVarint (EncodeVarint x @ rest) = (x, length (EncodeVarint x))"
proof -
  have "unat x * 2 ^ 0 < 2 ^ 64" using unsigned_less[of x] by simp
  then show ?thesis by (simp add: DecodeVarint_def DecodeVarint_loop_EncodeVarint)
qed

lemma length_EncodeVarint: "length (EncodeVarint x) = sizeVarint x"
proof (induction x rule: EncodeVarint.induct)
  case (1 x)
  have "127 < x \<longleftrightarrow> drop_bit 7 x \<noteq> 0"
    by (auto simp: word_less_nat_alt div_eq_0_iff simp flip: unat_eq_0)
  then show ?case using 1
    by (subst sizeVarint.simps) (auto simp: EncodeVarint_small EncodeVarint_large Let_def)
qed

section \<open>Order-preserving encoding of uint64\<close>

text \<open>\<^verbatim>\<open>binary.BigEndian.PutUint64\<close> and \<^verbatim>\<open>binary.BigEndian.Uint64\<close> of the standard library.\<close>

definition BigEndian_PutUint64 :: "uint64 \<Rightarrow> bytes" where
  "BigEndian_PutUint64 v = map (\<lambda>i. ucast (drop_bit (8 * (7 - i)) v)) [0..<8]"

definition BigEndian_Uint64 :: "bytes \<Rightarrow> uint64" where
  "BigEndian_Uint64 b = foldl (\<lambda>x c. push_bit 8 x OR ucast c) 0 b"

text \<open>The loop of the encoder that looks for the first non-zero byte.\<close>

fun starting_index_size :: "nat \<Rightarrow> bytes \<Rightarrow> nat \<times> nat" where
  "starting_index_size i [] = (0, 0)"
| "starting_index_size i (b # bs) =
     (if b \<noteq> 0 then (i, 8 - i) else starting_index_size (i + 1) bs)"

definition EncodeOrderPreservingVarUint64 :: "uint64 \<Rightarrow> bytes res" where
  "EncodeOrderPreservingVarUint64 number =
     (let bs = BigEndian_PutUint64 number;
          (startingIndex, size) = starting_index_size 0 bs;
          sizeBytes = EncodeVarint (word_of_nat size)
      in if 1 < length sizeBytes then Inl (GoPanic ''[]sizeBytes should not be more than one byte'')
         else Inr (hd sizeBytes # take size (drop startingIndex bs)))"

text \<open>The slice is taken to have no capacity beyond its length, so that bytes that are missing are a panic; a slice
  into a larger buffer would read on there. The results below are about complete encodings, on which this makes
  no difference.\<close>

definition DecodeOrderPreservingVarUint64 :: "bytes \<Rightarrow> (uint64 \<times> nat) res" where
  "DecodeOrderPreservingVarUint64 bs =
     (let size = unat (fst (DecodeVarint bs))
      in if 8 < size \<or> length bs < size + 1 then Inl (GoPanic ''slice bounds out of range'')
         else Inr (BigEndian_Uint64 (replicate (8 - size) 0 @ take size (drop 1 bs)), size + 1))"

text \<open>The value of a byte string read as a big-endian number.\<close>

definition be_val :: "bytes \<Rightarrow> nat" where
  "be_val bs = foldl (\<lambda>x b. x * 256 + unat b) 0 bs"

lemma be_val_Nil [simp]: "be_val [] = 0"
  by (simp add: be_val_def)

lemma be_val_snoc [simp]: "be_val (bs @ [b]) = be_val bs * 256 + unat b"
  by (simp add: be_val_def)

lemma be_val_less: "be_val bs < 256 ^ length bs"
proof (induction bs rule: rev_induct)
  case (snoc b bs)
  have "unat b < 256" using unsigned_less[of b] by simp
  then show ?case using snoc by simp
qed simp

lemma be_val_append: "be_val (xs @ ys) = be_val xs * 256 ^ length ys + be_val ys"
proof (induction ys rule: rev_induct)
  case (snoc y ys)
  then show ?case by (simp add: algebra_simps flip: append_assoc)
qed simp

lemma be_val_Cons: "be_val (b # bs) = unat b * 256 ^ length bs + be_val bs"
  using be_val_append[of "[b]" bs] by (simp add: be_val_def)

lemma be_val_zeros [simp]: "be_val (replicate n 0 @ bs) = be_val bs"
  by (induction n) (simp_all add: be_val_Cons)

text \<open>Bytewise comparison of equally long strings is comparison of their values.\<close>

lemma be_val_less_iff:
  "length xs = length ys \<Longrightarrow> be_val xs < be_val ys \<longleftrightarrow> xs < ys"
proof (induction xs arbitrary: ys)
  case Nil
  then show ?case by simp
next
  case (Cons x xs)
  then obtain y ys' where ys: "ys = y # ys'" by (cases ys) auto
  with Cons have len: "length xs = length ys'" by simp
  note lt = be_val_less[of xs] be_val_less[of ys']
  show ?case
  proof (cases x y rule: linorder_cases)
    case less
    then have "unat x + 1 \<le> unat y" by (simp add: word_less_nat_alt)
    then have "(unat x + 1) * 256 ^ length xs \<le> unat y * 256 ^ length xs"
      by (rule mult_le_mono1)
    then show ?thesis using less lt by (simp add: ys be_val_Cons flip: len)
  next
    case equal
    then show ?thesis using Cons.IH[OF len] by (simp add: ys be_val_Cons len)
  next
    case greater
    then have "unat y + 1 \<le> unat x" by (simp add: word_less_nat_alt)
    then have "(unat y + 1) * 256 ^ length xs \<le> unat x * 256 ^ length xs"
      by (rule mult_le_mono1)
    then show ?thesis using greater lt by (auto simp: ys be_val_Cons simp flip: len)
  qed
qed

lemma BigEndian_Uint64_be_val: "BigEndian_Uint64 bs = word_of_nat (be_val bs)"
proof (induction bs rule: rev_induct)
  case Nil
  then show ?case by (simp add: BigEndian_Uint64_def)
next
  case (snoc b bs)
  have dis: "push_bit 8 w OR ucast b = w * 256 + ucast b" for w :: uint64
  proof -
    have "push_bit 8 w + ucast b = push_bit 8 w OR ucast b"
      by (rule disjunctive_add) (auto simp: bit_push_bit_iff bit_unsigned_iff dest: byte_bits)
    then show ?thesis by (simp add: push_bit_eq_mult)
  qed
  have "(ucast b :: uint64) = word_of_nat (unat b)" by simp
  then show ?case using snoc by (simp add: BigEndian_Uint64_def dis)
qed

lemma be_val_digits:
  "be_val (map (\<lambda>i. word_of_nat (m div 256 ^ i)) (rev [0..<k])) = m mod 256 ^ k"
proof (induction k)
  case (Suc k)
  have "unat (word_of_nat (m div 256 ^ k) :: byte) = m div 256 ^ k mod 256"
    by (simp add: unat_of_nat)
  moreover have "m mod 256 ^ Suc k = 256 ^ k * (m div 256 ^ k mod 256) + m mod 256 ^ k"
    by (simp only: power_Suc2 mod_mult2_eq)
  ultimately show ?case using Suc by (simp add: be_val_Cons)
qed simp

lemma be_val_PutUint64: "be_val (BigEndian_PutUint64 v) = unat v"
proof -
  have d: "(ucast (drop_bit (8 * k) v) :: byte) = word_of_nat (unat v div 256 ^ k)" for k
  proof -
    have "unat (drop_bit (8 * k) v) = unat v div 256 ^ k"
      by (simp only: unat_drop_bit_eq) (simp add: drop_bit_eq_div power_mult)
    moreover have "(ucast (drop_bit (8 * k) v) :: byte) = word_of_nat (unat (drop_bit (8 * k) v))"
      by simp
    ultimately show ?thesis by (simp only:)
  qed
  have "[0..<8] = [0, 1, 2, 3, 4, 5, 6, 7::nat]" by (simp add: upt_rec)
  then have upt: "rev [0..<8] = map (\<lambda>i. 7 - i) [0..<8]" by simp
  have "BigEndian_PutUint64 v = map (\<lambda>i. word_of_nat (unat v div 256 ^ i)) (rev [0..<8])"
    unfolding BigEndian_PutUint64_def upt by (simp add: d comp_def)
  then have "be_val (BigEndian_PutUint64 v) = unat v mod 256 ^ 8" by (simp only: be_val_digits)
  also have "\<dots> = unat v"
    by (rule mod_less, rule order_less_le_trans[OF unsigned_less]) simp
  finally show ?thesis .
qed

lemma length_PutUint64 [simp]: "length (BigEndian_PutUint64 v) = 8"
  by (simp add: BigEndian_PutUint64_def)

text \<open>What the encoder computes: the count of the significant bytes and these bytes.\<close>

definition sig_bytes :: "uint64 \<Rightarrow> bytes" where
  "sig_bytes v = dropWhile (\<lambda>b. b = 0) (BigEndian_PutUint64 v)"

definition opv :: "uint64 \<Rightarrow> bytes" where
  "opv v = word_of_nat (length (sig_bytes v)) # sig_bytes v"

lemma length_sig_bytes: "length (sig_bytes v) \<le> 8"
  unfolding sig_bytes_def using length_dropWhile_le[of "\<lambda>b. b = 0" "BigEndian_PutUint64 v"] by simp

lemma starting_index_size_eq:
  assumes "starting_index_size i bs = (st, sz)" "i + length bs = 8"
  shows "take sz (drop (st - i) bs) = dropWhile (\<lambda>b. b = 0) bs \<and> sz = length (dropWhile (\<lambda>b. b = 0) bs)
    \<and> (sz \<noteq> 0 \<longrightarrow> i \<le> st)"
  using assms
proof (induction i bs rule: starting_index_size.induct)
  case (2 i b bs)
  show ?case
  proof (cases "b = 0")
    case True
    with 2 have IH: "take sz (drop (st - (i + 1)) bs) = dropWhile (\<lambda>b. b = 0) bs"
      "sz = length (dropWhile (\<lambda>b. b = 0) bs)" "sz \<noteq> 0 \<longrightarrow> i + 1 \<le> st" by auto
    show ?thesis
    proof (cases "sz = 0")
      case True
      then have "dropWhile (\<lambda>b. b = 0) bs = []" using IH(2) by simp
      then show ?thesis using True \<open>b = 0\<close> by (simp del: dropWhile_eq_Nil_conv)
    next
      case False
      then have "st - i = Suc (st - (i + 1))" using IH(3) by simp
      then show ?thesis using IH False \<open>b = 0\<close> by simp
    qed
  next
    case False
    with 2 show ?thesis by auto
  qed
qed simp

lemma Encode_eq_opv [simp, res_simps]: "EncodeOrderPreservingVarUint64 v = Inr (opv v)"
proof -
  obtain st sz where e: "starting_index_size 0 (BigEndian_PutUint64 v) = (st, sz)"
    by fastforce
  from starting_index_size_eq[OF e] have s: "take sz (drop st (BigEndian_PutUint64 v)) = sig_bytes v"
    "sz = length (sig_bytes v)" by (auto simp: sig_bytes_def)
  then have "sz \<le> 8" using length_sig_bytes[of v] by simp
  then have u: "unat (word_of_nat sz :: uint64) = sz" by (simp add: unat_of_nat)
  then have "\<not> 127 < (word_of_nat sz :: uint64)"
    using \<open>sz \<le> 8\<close> by (simp add: word_less_nat_alt)
  moreover have "(ucast (word_of_nat sz :: uint64) :: byte) = word_of_nat (unat (word_of_nat sz :: uint64))"
    by simp
  then have "(ucast (word_of_nat sz :: uint64) :: byte) = word_of_nat sz" by (simp only: u)
  ultimately show ?thesis
    using e s by (simp add: EncodeOrderPreservingVarUint64_def EncodeVarint_small opv_def)
qed

lemma be_val_dropWhile: "be_val (dropWhile (\<lambda>b. b = 0) bs) = be_val bs"
  by (induction bs) (simp_all add: be_val_Cons)

lemma be_val_sig_bytes: "be_val (sig_bytes v) = unat v"
  by (simp add: sig_bytes_def be_val_dropWhile be_val_PutUint64)

lemma sig_bytes_lower: "sig_bytes v \<noteq> [] \<Longrightarrow> 256 ^ (length (sig_bytes v) - 1) \<le> unat v"
proof (cases "sig_bytes v")
  case (Cons b bs)
  then have "b \<noteq> 0" unfolding sig_bytes_def by (simp add: dropWhile_eq_Cons_conv)
  then have "1 \<le> unat b" by (simp add: Suc_le_eq unat_gt_0)
  then have "1 * 256 ^ length bs \<le> unat b * 256 ^ length bs" by (rule mult_le_mono1)
  moreover have "unat b * 256 ^ length bs + be_val bs = unat v"
    using be_val_sig_bytes[of v] Cons by (simp add: be_val_Cons)
  ultimately have "256 ^ length bs \<le> unat v" by linarith
  then show ?thesis using Cons by simp
qed simp

lemma size_word: "n \<le> 8 \<Longrightarrow> unat (word_of_nat n :: byte) = n \<and> unat (word_of_nat n :: uint64) = n"
  by (simp add: unat_of_nat)

lemma opv_EncodeVarint: "opv v = EncodeVarint (word_of_nat (length (sig_bytes v))) @ sig_bytes v"
proof -
  let ?n = "length (sig_bytes v)"
  have n: "?n \<le> 8" by (rule length_sig_bytes)
  then have "\<not> 127 < (word_of_nat ?n :: uint64)" by (simp add: word_less_nat_alt size_word)
  moreover have "(ucast (word_of_nat ?n :: uint64) :: byte) = word_of_nat (unat (word_of_nat ?n :: uint64))"
    by simp
  then have "(ucast (word_of_nat ?n :: uint64) :: byte) = word_of_nat ?n"
    using size_word[OF n] by (simp only:)
  ultimately show ?thesis by (simp add: EncodeVarint_small opv_def)
qed

lemma length_opv [simp]: "length (opv v) = length (sig_bytes v) + 1"
  by (simp add: opv_def)

lemma Decode_opv [simp, res_simps]:
  "DecodeOrderPreservingVarUint64 (opv v @ rest) = Inr (v, length (sig_bytes v) + 1)"
proof -
  let ?n = "length (sig_bytes v)"
  have "fst (DecodeVarint (opv v @ rest)) = word_of_nat ?n" by (simp add: opv_EncodeVarint)
  then have u: "unat (fst (DecodeVarint (opv v @ rest))) = ?n"
    using size_word[OF length_sig_bytes] by simp
  have "take ?n (drop 1 (opv v @ rest)) = sig_bytes v" by (simp add: opv_def)
  then show ?thesis using length_sig_bytes[of v]
    by (simp add: DecodeOrderPreservingVarUint64_def Let_def u BigEndian_Uint64_be_val be_val_sig_bytes)
qed

lemma append_less_same_length:
  fixes xs :: "'a::linorder list"
  shows "length xs = length ys \<Longrightarrow> xs < ys \<Longrightarrow> xs @ a < ys @ b"
  by (induction xs ys rule: list_induct2) auto

lemma opv_less: "v < w \<Longrightarrow> opv v @ a < opv w @ b"
proof -
  assume "v < w"
  then have lt: "unat v < unat w" by (simp add: word_less_nat_alt)
  let ?m = "length (sig_bytes v)" and ?n = "length (sig_bytes w)"
  have "?m \<le> ?n"
  proof (rule ccontr)
    assume "\<not> ?m \<le> ?n"
    then have "sig_bytes v \<noteq> []" "?n \<le> ?m - 1" by auto
    then have "256 ^ ?n \<le> unat v"
      by (intro order_trans[OF power_increasing sig_bytes_lower]) simp_all
    then show False using lt be_val_less[of "sig_bytes w"] by (simp add: be_val_sig_bytes)
  qed
  then consider "?m < ?n" | "?m = ?n" by linarith
  then show ?thesis
  proof cases
    case 1
    then have "(word_of_nat ?m :: byte) < word_of_nat ?n"
      using size_word[OF length_sig_bytes, of v] size_word[OF length_sig_bytes, of w]
      by (simp add: word_less_nat_alt)
    then show ?thesis by (simp add: opv_def)
  next
    case 2
    then have "sig_bytes v < sig_bytes w"
      using lt be_val_less_iff[OF 2] by (simp add: be_val_sig_bytes)
    then show ?thesis using 2 by (simp add: opv_def append_less_same_length)
  qed
qed

end
