(* ===== verification/Tx_Version.thy ===== *)
theory Tx_Version
  imports Order_Varint
begin

text \<open>
  The height of a transaction, \<^verbatim>\<open>core/ledger/kvledger/txmgmt/version/version.go\<close>: the pair
  of a block number and of the position in the block that the state database keeps with
  every value, its byte representation and its comparison. A \<^verbatim>\<open>*Height\<close> that may be
  \<^verbatim>\<open>nil\<close> is a \<^typ>\<open>'a option\<close>.
\<close>

record Height =
  BlockNum :: uint64
  TxNum :: uint64

definition NewHeight :: "uint64 \<Rightarrow> uint64 \<Rightarrow> Height" where
  "NewHeight blockNum txNum = \<lparr>BlockNum = blockNum, TxNum = txNum\<rparr>"

definition NewHeightFromBytes :: "bytes \<Rightarrow> (Height \<times> nat) res" where
  "NewHeightFromBytes b =
     res_bind (DecodeOrderPreservingVarUint64 b) (\<lambda>(blockNum, n1).
     res_bind (DecodeOrderPreservingVarUint64 (drop n1 b)) (\<lambda>(txNum, n2).
       Inr (NewHeight blockNum txNum, n1 + n2)))"

definition ToBytes :: "Height \<Rightarrow> bytes res" where
  "ToBytes h =
     res_bind (EncodeOrderPreservingVarUint64 (BlockNum h)) (\<lambda>blockNumBytes.
     res_bind (EncodeOrderPreservingVarUint64 (TxNum h)) (\<lambda>txNumBytes.
       Inr (blockNumBytes @ txNumBytes)))"

text \<open>The conversion \<^verbatim>\<open>int(x)\<close> of a \<^verbatim>\<open>uint64\<close> reads the 64 bits as a signed number.\<close>

definition Compare :: "Height \<Rightarrow> Height \<Rightarrow> int" where
  "Compare h h1 =
     (if BlockNum h \<noteq> BlockNum h1 then
        (let r = sint (BlockNum h - BlockNum h1) in if r > 0 then 1 else - 1)
      else if TxNum h \<noteq> TxNum h1 then
        (let r = sint (TxNum h - TxNum h1) in if r > 0 then 1 else - 1)
      else 0)"

definition AreSame :: "Height option \<Rightarrow> Height option \<Rightarrow> bool" where
  "AreSame h1 h2 =
     (case h1 of None \<Rightarrow> h2 = None
      | Some a \<Rightarrow> (case h2 of None \<Rightarrow> False | Some b \<Rightarrow> Compare a b = 0))"

text \<open>The intended order: block numbers first, then positions.\<close>

definition height_less :: "Height \<Rightarrow> Height \<Rightarrow> bool" where
  "height_less h h1 \<longleftrightarrow> BlockNum h < BlockNum h1 \<or> BlockNum h = BlockNum h1 \<and> TxNum h < TxNum h1"

lemma ToBytes_eq [simp, res_simps]: "ToBytes h = Inr (opv (BlockNum h) @ opv (TxNum h))"
  by (simp add: ToBytes_def)

lemma NewHeightFromBytes_opv [simp, res_simps]:
  "NewHeightFromBytes (opv (BlockNum h) @ opv (TxNum h) @ rest)
     = Inr (h, length (opv (BlockNum h) @ opv (TxNum h)))"
proof -
  have "drop (length (sig_bytes (BlockNum h)) + 1) (opv (BlockNum h) @ opv (TxNum h) @ rest)
      = opv (TxNum h) @ rest"
    by (simp add: opv_def)
  then show ?thesis by (simp add: NewHeightFromBytes_def NewHeight_def)
qed

lemma height_less_linear: "height_less h h1 \<or> h = h1 \<or> height_less h1 h"
  by (cases h; cases h1) (auto simp: height_less_def)

lemma opv_height_less:
  "height_less h h1 \<Longrightarrow>
     opv (BlockNum h) @ opv (TxNum h) @ xs < opv (BlockNum h1) @ opv (TxNum h1) @ ys"
  by (auto simp: height_less_def intro: opv_less)

lemma Compare_eq_0 [simp]: "Compare h h1 = 0 \<longleftrightarrow> h = h1"
  by (cases h; cases h1) (auto simp: Compare_def Let_def)

lemma AreSame_eq [simp]: "AreSame h h1 \<longleftrightarrow> h = h1"
  by (auto simp: AreSame_def split: option.splits)

text \<open>The sign of a wrapped difference is right as long as the numbers are closer than \<open>2^63\<close>.\<close>

lemma sint_diff_pos:
  fixes a b :: uint64
  assumes "\<bar>uint a - uint b\<bar> < 2 ^ 63"
  shows "sint (a - b) > 0 \<longleftrightarrow> b < a"
proof -
  have ab: "a - b = word_of_int (uint a - uint b)" by simp
  have "sint (a - b) = signed_take_bit 63 (uint a - uint b)"
    unfolding ab by (subst signed_of_int) simp
  also have "\<dots> = uint a - uint b"
    using assms by (intro signed_take_bit_int_eq_self) linarith+
  finally show ?thesis by (simp add: word_less_def)
qed

lemma Compare_sign:
  assumes "\<bar>uint (BlockNum h) - uint (BlockNum h1)\<bar> < 2 ^ 63"
    and "\<bar>uint (TxNum h) - uint (TxNum h1)\<bar> < 2 ^ 63"
  shows "Compare h h1 = (if height_less h h1 then - 1 else if h = h1 then 0 else 1)"
  using sint_diff_pos[OF assms(1)] sint_diff_pos[OF assms(2)]
  by (cases h; cases h1) (auto simp: Compare_def height_less_def Let_def)

end
