(* ===== verification/State_Batch.thy ===== *)
theory State_Batch
  imports Tx_Version
begin

text \<open>
  The vocabulary of the state database, \<^verbatim>\<open>core/ledger/kvledger/txmgmt/statedb\<close>: versioned
  values, the update batch that collects the writes of a block, the iterator over a
  namespace of a batch (\<^verbatim>\<open>statedb.go\<close>), and the encoding of a value together with its
  version (\<^verbatim>\<open>util.go\<close>). \<^verbatim>\<open>GetSortedKeys\<close> is \<^verbatim>\<open>core/ledger/util/util.go\<close>. A deletion is a value
  \<^verbatim>\<open>nil\<close>, here \<^const>\<open>None\<close>; the version of an update is never \<^verbatim>\<open>nil\<close> in the code (it
  is always the result of \<^verbatim>\<open>NewHeight\<close>), so it is a plain \<open>Height\<close>.
\<close>

section \<open>Data\<close>

record CompositeKey =
  Namespace :: string
  Key :: string

record VersionedValue =
  Value :: "bytes option"
  Version :: Height

record VersionedKV =
  kv_CompositeKey :: CompositeKey
  kv_VersionedValue :: VersionedValue

definition mkVersionedKV :: "string \<Rightarrow> string \<Rightarrow> VersionedValue \<Rightarrow> VersionedKV" where
  "mkVersionedKV ns key vv =
     \<lparr>kv_CompositeKey = \<lparr>Namespace = ns, Key = key\<rparr>, kv_VersionedValue = vv\<rparr>"

abbreviation kv_Key :: "VersionedKV \<Rightarrow> string" where
  "kv_Key kv \<equiv> Key (kv_CompositeKey kv)"

lemma mkVersionedKV_sel [simp]:
  "kv_Key (mkVersionedKV ns k vv) = k" "Namespace (kv_CompositeKey (mkVersionedKV ns k vv)) = ns"
  "kv_VersionedValue (mkVersionedKV ns k vv) = vv"
  by (simp_all add: mkVersionedKV_def)

lemma mkVersionedKV_inj [simp]:
  "mkVersionedKV ns k vv = mkVersionedKV ns' k' vv' \<longleftrightarrow> ns = ns' \<and> k = k' \<and> vv = vv'"
  by (auto simp: mkVersionedKV_def)

section \<open>The update batch\<close>

type_synonym nsUpdates = "(string, VersionedValue) gomap"

definition newNsUpdates :: nsUpdates where
  "newNsUpdates = []"

record UpdateBatch =
  updates :: "(string, nsUpdates) gomap"

definition NewUpdateBatch :: UpdateBatch where
  "NewUpdateBatch = \<lparr>updates = []\<rparr>"

definition batch_Get :: "UpdateBatch \<Rightarrow> string \<Rightarrow> string \<Rightarrow> VersionedValue option" where
  "batch_Get batch ns key =
     (case map_get (updates batch) ns of
        None \<Rightarrow> None
      | Some m \<Rightarrow> (case map_get m key of None \<Rightarrow> None | Some vv \<Rightarrow> Some vv))"

definition getOrCreateNsUpdates :: "UpdateBatch \<Rightarrow> string \<Rightarrow> nsUpdates \<times> UpdateBatch" where
  "getOrCreateNsUpdates batch ns =
     (case map_get (updates batch) ns of
        None \<Rightarrow> (newNsUpdates, batch\<lparr>updates := map_put ns newNsUpdates (updates batch)\<rparr>)
      | Some m \<Rightarrow> (m, batch))"

text \<open>The pointer returned by \<^const>\<open>getOrCreateNsUpdates\<close> aliases the entry of the batch, so
  the assignment to \<^verbatim>\<open>nsUpdates.m[key]\<close> is an update of that entry.\<close>

definition batch_Put ::
  "UpdateBatch \<Rightarrow> string \<Rightarrow> string \<Rightarrow> bytes option \<Rightarrow> Height \<Rightarrow> UpdateBatch res" where
  "batch_Put batch ns key value ver =
     (if value = None then Inl (GoPanic ''Nil value not allowed'')
      else case getOrCreateNsUpdates batch ns of (m, batch') \<Rightarrow>
        Inr (batch'\<lparr>updates :=
          map_put ns (map_put key \<lparr>Value = value, Version = ver\<rparr> m) (updates batch')\<rparr>))"

definition batch_Delete :: "UpdateBatch \<Rightarrow> string \<Rightarrow> string \<Rightarrow> Height \<Rightarrow> UpdateBatch" where
  "batch_Delete batch ns key ver =
     (case getOrCreateNsUpdates batch ns of (m, batch') \<Rightarrow>
        batch'\<lparr>updates :=
          map_put ns (map_put key \<lparr>Value = None, Version = ver\<rparr> m) (updates batch')\<rparr>)"

definition batch_Exists :: "UpdateBatch \<Rightarrow> string \<Rightarrow> string \<Rightarrow> bool" where
  "batch_Exists batch ns key =
     (case map_get (updates batch) ns of
        None \<Rightarrow> False
      | Some m \<Rightarrow> map_get m key \<noteq> None)"

definition GetUpdatedNamespaces :: "UpdateBatch \<Rightarrow> string list" where
  "GetUpdatedNamespaces batch = map fst (updates batch)"

definition GetUpdates :: "UpdateBatch \<Rightarrow> string \<Rightarrow> nsUpdates" where
  "GetUpdates batch ns = (case map_get (updates batch) ns of None \<Rightarrow> [] | Some m \<Rightarrow> m)"

section \<open>The iterator over a namespace of a batch\<close>

definition GetSortedKeys :: "(string, 'v) gomap \<Rightarrow> string list" where
  "GetSortedKeys m = sort (map fst m)"

text \<open>\<^verbatim>\<open>sort.SearchStrings\<close> of the standard library: binary search for the first index whose
  entry is not below the key.\<close>

function search_loop :: "string list \<Rightarrow> string \<Rightarrow> nat \<Rightarrow> nat \<Rightarrow> nat" where
  "search_loop a x i j =
     (if i < j then
        (let h = (i + j) div 2
         in if \<not> x \<le> a ! h then search_loop a x (h + 1) j else search_loop a x i h)
      else i)"
  by auto
termination by (relation "measure (\<lambda>(a, x, i, j). j - i)") auto

declare search_loop.simps [simp del]

definition SearchStrings :: "string list \<Rightarrow> string \<Rightarrow> nat" where
  "SearchStrings a x = search_loop a x 0 (length a)"

record nsIterator =
  itr_ns :: string
  itr_nsUpdates :: nsUpdates
  sortedKeys :: "string list"
  nextIndex :: nat
  lastIndex :: nat

definition newNsIterator :: "string \<Rightarrow> string \<Rightarrow> string \<Rightarrow> UpdateBatch \<Rightarrow> nsIterator" where
  "newNsIterator ns startKey endKey batch =
     (case map_get (updates batch) ns of
        None \<Rightarrow> \<lparr>itr_ns = '''', itr_nsUpdates = [], sortedKeys = [], nextIndex = 0, lastIndex = 0\<rparr>
      | Some m \<Rightarrow>
          let sk = GetSortedKeys m;
              next = (if startKey = '''' then 0 else SearchStrings sk startKey);
              last = (if endKey = '''' then length sk else SearchStrings sk endKey)
          in \<lparr>itr_ns = ns, itr_nsUpdates = m, sortedKeys = sk, nextIndex = next, lastIndex = last\<rparr>)"

definition batch_GetRangeScanIterator ::
  "UpdateBatch \<Rightarrow> string \<Rightarrow> string \<Rightarrow> string \<Rightarrow> nsIterator" where
  "batch_GetRangeScanIterator batch ns startKey endKey = newNsIterator ns startKey endKey batch"

definition nsIterator_Next :: "nsIterator \<Rightarrow> (VersionedKV option \<times> nsIterator) res" where
  "nsIterator_Next itr =
     (if nextIndex itr \<ge> lastIndex itr then Inr (None, itr)
      else res_bind (index_slice (sortedKeys itr) (int (nextIndex itr))) (\<lambda>key.
        case map_get (itr_nsUpdates itr) key of
          None \<Rightarrow> Inl (GoPanic ''nil pointer dereference'')
        | Some vv \<Rightarrow> Inr (Some (mkVersionedKV (itr_ns itr) key vv),
                           itr\<lparr>nextIndex := nextIndex itr + 1\<rparr>)))"

section \<open>Values with their version\<close>

definition EncodeValue :: "bytes option \<Rightarrow> Height \<Rightarrow> bytes res" where
  "EncodeValue val ver =
     res_bind (ToBytes ver) (\<lambda>encodedValue.
       case val of None \<Rightarrow> Inr encodedValue | Some v \<Rightarrow> Inr (encodedValue @ v))"

definition DecodeValue :: "bytes \<Rightarrow> (bytes \<times> Height) res" where
  "DecodeValue encodedValue =
     res_bind (NewHeightFromBytes encodedValue) (\<lambda>(ver, n). Inr (drop n encodedValue, ver))"

section \<open>The batch as a partial function\<close>

definition batch_wf :: "UpdateBatch \<Rightarrow> bool" where
  "batch_wf b \<longleftrightarrow> map_wf (updates b) \<and> (\<forall>m \<in> snd ` set (updates b). map_wf m)"

lemma batch_wf_get: "batch_wf b \<Longrightarrow> map_get (updates b) ns = Some m \<Longrightarrow> map_wf m"
  by (fastforce simp: batch_wf_def dest: map_of_SomeD)

lemma batch_Get_eq: "batch_Get b ns k = Option.bind (map_get (updates b) ns) (\<lambda>m. map_get m k)"
  by (simp add: batch_Get_def split: option.splits)

lemma batch_Get_New [simp]: "batch_Get NewUpdateBatch ns k = None"
  by (simp add: batch_Get_eq NewUpdateBatch_def)

lemma batch_wf_New [simp]: "batch_wf NewUpdateBatch"
  by (simp add: batch_wf_def NewUpdateBatch_def)

lemma batch_Exists_iff [simp]: "batch_Exists b ns k \<longleftrightarrow> batch_Get b ns k \<noteq> None"
  by (simp add: batch_Exists_def batch_Get_eq split: option.splits)

text \<open>Both writers store an entry; \<open>batch_set\<close> is what they have in common.\<close>

definition batch_set :: "UpdateBatch \<Rightarrow> string \<Rightarrow> string \<Rightarrow> VersionedValue \<Rightarrow> UpdateBatch" where
  "batch_set b ns k vv = (case getOrCreateNsUpdates b ns of (m, b') \<Rightarrow>
     b'\<lparr>updates := map_put ns (map_put k vv m) (updates b')\<rparr>)"

lemma batch_Put_set:
  "batch_Put b ns k (Some v) ver = Inr (batch_set b ns k \<lparr>Value = Some v, Version = ver\<rparr>)"
  by (simp add: batch_Put_def batch_set_def split: prod.splits)

lemma batch_Put_None: "batch_Put b ns k None ver = Inl (GoPanic ''Nil value not allowed'')"
  by (simp add: batch_Put_def)

lemma batch_Delete_set: "batch_Delete b ns k ver = batch_set b ns k \<lparr>Value = None, Version = ver\<rparr>"
  by (simp add: batch_Delete_def batch_set_def)

lemma batch_Get_set [simp]:
  "batch_Get (batch_set b ns k vv) ns' k' = (if ns = ns' \<and> k = k' then Some vv else batch_Get b ns' k')"
  by (auto simp: batch_set_def batch_Get_eq getOrCreateNsUpdates_def newNsUpdates_def
      split: option.splits)

lemma snd_set_map_put: "(a, x) \<in> set (map_put k v m) \<Longrightarrow> x = v \<or> (a, x) \<in> set m"
  by (induction m) (auto split: if_splits)

lemma batch_wf_set [simp, intro]: "batch_wf b \<Longrightarrow> batch_wf (batch_set b ns k vv)"
  by (fastforce simp: batch_set_def batch_wf_def getOrCreateNsUpdates_def newNsUpdates_def
      split: option.splits dest!: snd_set_map_put dest: map_of_SomeD)

lemma DecodeValue_EncodeValue [simp, res_simps]:
  "res_bind (EncodeValue (Some v) ver) DecodeValue = Inr (v, ver)"
  by (simp add: EncodeValue_def DecodeValue_def)

lemma EncodeValue_eq [res_simps]:
  "EncodeValue (Some v) ver = Inr (opv (BlockNum ver) @ opv (TxNum ver) @ v)"
  by (simp add: EncodeValue_def)

section \<open>Range scans\<close>

definition key_in_range :: "string \<Rightarrow> string \<Rightarrow> string \<Rightarrow> bool" where
  "key_in_range s e k \<longleftrightarrow> s \<le> k \<and> (e = '''' \<or> k < e)"

definition scan_keys :: "string \<Rightarrow> string \<Rightarrow> (string \<rightharpoonup> VersionedValue) \<Rightarrow> string list" where
  "scan_keys s e m = sorted_list_of_set {k \<in> dom m. key_in_range s e k}"

text \<open>What a range scan over the contents \<open>m\<close> of a namespace has to deliver: the entries
  with a key in \<open>[s, e)\<close> in the order of the keys, \<open>e = ""\<close> meaning no upper bound.\<close>

definition scan_view :: "string \<Rightarrow> string \<Rightarrow> string \<Rightarrow> (string \<rightharpoonup> VersionedValue) \<Rightarrow> VersionedKV list" where
  "scan_view ns s e m = map (\<lambda>k. mkVersionedKV ns k (the (m k))) (scan_keys s e m)"

lemma sorted_nth_less_takeWhile:
  fixes a :: "'a::linorder list"
  assumes "sorted a" "i < length a"
  shows "i < length (takeWhile (\<lambda>y. y < x) a) \<longleftrightarrow> a ! i < x"
proof
  assume "i < length (takeWhile (\<lambda>y. y < x) a)"
  then show "a ! i < x" using nth_mem set_takeWhileD takeWhile_nth by metis
next
  assume "a ! i < x"
  show "i < length (takeWhile (\<lambda>y. y < x) a)"
  proof (rule ccontr)
    assume "\<not> ?thesis"
    then have l: "length (takeWhile (\<lambda>y. y < x) a) \<le> i" by simp
    then have "\<not> a ! length (takeWhile (\<lambda>y. y < x) a) < x"
      using assms(2) by (intro nth_length_takeWhile) simp
    moreover have "a ! length (takeWhile (\<lambda>y. y < x) a) \<le> a ! i"
      using assms l by (simp add: sorted_nth_mono)
    ultimately show False using \<open>a ! i < x\<close> by simp
  qed
qed

lemma search_loop_spec:
  assumes "sorted a" "i \<le> p" "p \<le> j" "j \<le> length a" "p = length (takeWhile (\<lambda>y. y < x) a)"
  shows "search_loop a x i j = p"
  using assms
proof (induction a x i j rule: search_loop.induct)
  case (1 a x i j)
  show ?case
  proof (cases "i < j")
    case True
    let ?h = "(i + j) div 2"
    have h: "?h < length a" using True 1 by simp
    have "?h < p \<longleftrightarrow> \<not> x \<le> a ! ?h"
      using sorted_nth_less_takeWhile[OF \<open>sorted a\<close> h, of x] 1 by (simp add: not_le)
    then show ?thesis using True 1 by (subst search_loop.simps) (auto simp: Let_def)
  next
    case False
    then show ?thesis using 1 by (subst search_loop.simps) simp
  qed
qed

lemma SearchStrings_sorted:
  "sorted a \<Longrightarrow> SearchStrings a x = length (takeWhile (\<lambda>y. y < x) a)"
  unfolding SearchStrings_def by (rule search_loop_spec) (auto simp: length_takeWhile_le)

section \<open>The iterator delivers the scan of the batch\<close>

lemma GetSortedKeys_props:
  "sorted (GetSortedKeys m)" "map_wf m \<Longrightarrow> distinct (GetSortedKeys m)"
  "set (GetSortedKeys m) = dom (map_get m)"
  by (simp_all add: GetSortedKeys_def dom_map_of_conv_image_fst)

text \<open>What is left to deliver, and the condition under which no index is out of range.\<close>

definition nsIterator_rest :: "nsIterator \<Rightarrow> VersionedKV list" where
  "nsIterator_rest itr =
     map (\<lambda>k. mkVersionedKV (itr_ns itr) k (the (map_get (itr_nsUpdates itr) k)))
       (take (lastIndex itr - nextIndex itr) (drop (nextIndex itr) (sortedKeys itr)))"

definition nsIterator_ok :: "nsIterator \<Rightarrow> bool" where
  "nsIterator_ok itr \<longleftrightarrow> lastIndex itr \<le> length (sortedKeys itr)
     \<and> set (sortedKeys itr) \<subseteq> dom (map_get (itr_nsUpdates itr))"

lemma nsIterator_Next_Nil [res_simps]:
  "nsIterator_ok itr \<Longrightarrow> nsIterator_rest itr = [] \<Longrightarrow> nsIterator_Next itr = Inr (None, itr)"
  by (auto simp: nsIterator_ok_def nsIterator_rest_def nsIterator_Next_def)

lemma nsIterator_Next_Cons:
  assumes "nsIterator_ok itr" "nsIterator_rest itr = kv # kvs"
  shows "\<exists>itr'. nsIterator_Next itr = Inr (Some kv, itr') \<and> nsIterator_ok itr'
    \<and> nsIterator_rest itr' = kvs"
proof -
  let ?n = "nextIndex itr" and ?ks = "sortedKeys itr"
  have lt: "?n < lastIndex itr"
    by (rule ccontr) (use assms(2) in \<open>simp add: nsIterator_rest_def\<close>)
  then have n: "?n < length ?ks" using assms(1) by (simp add: nsIterator_ok_def)
  then obtain vv where vv: "map_get (itr_nsUpdates itr) (?ks ! ?n) = Some vv"
    using assms(1) nth_mem[OF n] unfolding nsIterator_ok_def by (blast dest: domD)
  have "lastIndex itr - ?n = Suc (lastIndex itr - Suc ?n)" using lt by simp
  then have "take (lastIndex itr - ?n) (drop ?n ?ks)
      = ?ks ! ?n # take (lastIndex itr - Suc ?n) (drop (Suc ?n) ?ks)"
    using Cons_nth_drop_Suc[OF n] by (metis take_Suc_Cons)
  then have "kv = mkVersionedKV (itr_ns itr) (?ks ! ?n) vv"
    "kvs = nsIterator_rest (itr\<lparr>nextIndex := ?n + 1\<rparr>)"
    using assms(2) vv by (auto simp: nsIterator_rest_def)
  then show ?thesis using assms(1) lt n vv
    by (simp add: nsIterator_Next_def nsIterator_ok_def index_slice_ok)
qed

lemma set_drop_nth: "set (drop n ys) = {ys ! i |i. n \<le> i \<and> i < length ys}"
proof -
  have "\<exists>j. ys ! i = drop n ys ! j \<and> j < length (drop n ys)" if "n \<le> i" "i < length ys" for i
    using that by (intro exI[of _ "i - n"]) simp
  then show ?thesis by (auto simp: set_conv_nth)
qed

lemma take_drop_sorted_range:
  fixes ks :: "string list" and s e :: string
  assumes "sorted ks" "distinct ks"
  defines "n \<equiv> if s = '''' then 0 else SearchStrings ks s"
    and "l \<equiv> if e = '''' then length ks else SearchStrings ks e"
  shows "take (l - n) (drop n ks) = sorted_list_of_set {k \<in> set ks. key_in_range s e k}"
proof (rule sorted_distinct_set_unique)
  have lo: "n \<le> i \<longleftrightarrow> s \<le> ks ! i" if "i < length ks" for i
    using sorted_nth_less_takeWhile[OF assms(1) that, of s]
    by (auto simp: n_def SearchStrings_sorted[OF assms(1)] not_less[symmetric])
  have hi: "i < l \<longleftrightarrow> e = '''' \<or> ks ! i < e" if "i < length ks" for i
    using sorted_nth_less_takeWhile[OF assms(1) that, of e] that
    by (auto simp: l_def SearchStrings_sorted[OF assms(1)])
  have l: "l \<le> length ks" by (simp add: l_def SearchStrings_sorted[OF assms(1)] length_takeWhile_le)
  have "set (drop n (take l ks)) = {ks ! i |i. i < length ks \<and> n \<le> i \<and> i < l}"
    using l by (auto simp: set_drop_nth) (metis nth_take)
  also have "\<dots> = {ks ! i |i. i < length ks \<and> key_in_range s e (ks ! i)}"
    unfolding key_in_range_def using lo hi by metis
  also have "\<dots> = {k \<in> set ks. key_in_range s e k}" by (auto simp: in_set_conv_nth)
  finally show "set (take (l - n) (drop n ks))
      = set (sorted_list_of_set {k \<in> set ks. key_in_range s e k})"
    by (simp add: drop_take)
qed (use assms in \<open>simp_all add: sorted_wrt_take sorted_wrt_drop\<close>)

lemma newNsIterator_ok: "nsIterator_ok (newNsIterator ns s e b)"
  by (auto simp: newNsIterator_def nsIterator_ok_def Let_def GetSortedKeys_props
      SearchStrings_sorted length_takeWhile_le split: option.splits)

lemma newNsIterator_rest:
  assumes "batch_wf b"
  shows "nsIterator_rest (newNsIterator ns s e b) = scan_view ns s e (batch_Get b ns)"
proof (cases "map_get (updates b) ns")
  case None
  then have "batch_Get b ns = Map.empty" by (auto simp: batch_Get_eq)
  then show ?thesis using None
    by (simp add: newNsIterator_def nsIterator_rest_def scan_view_def scan_keys_def)
next
  case (Some m)
  have "batch_Get b ns = map_get m" using Some by (auto simp: batch_Get_eq)
  then show ?thesis using Some batch_wf_get[OF assms Some]
    by (simp add: newNsIterator_def nsIterator_rest_def scan_view_def scan_keys_def Let_def
        take_drop_sorted_range GetSortedKeys_props)
qed

end
