(* ===== verification/Versioned_DB.thy ===== *)
theory Versioned_DB
  imports State_Batch
begin

text \<open>
  The interface of the state database, \<^verbatim>\<open>VersionedDB\<close> of
  \<^verbatim>\<open>core/ledger/kvledger/txmgmt/statedb/statedb.go\<close>. The operations are a record over a
  state of any type; the locale \<open>versioned_db\<close> is the contract every implementation
  promises (its laws are the comments of the Go interface) and the validator and the
  transaction manager rely on. A law speaks of successful calls only: any read may fail
  with an I/O error. The locale \<open>versioned_db_ok\<close> adds that no call fails.
\<close>

section \<open>Operations\<close>

text \<open>An iterator is the sequence of the outcomes of its coming calls of \<^verbatim>\<open>Next\<close>, before it
  is exhausted.\<close>

type_synonym ResultsIterator = "VersionedKV res list"

fun ResultsIterator_Next :: "ResultsIterator \<Rightarrow> (VersionedKV option \<times> ResultsIterator) res" where
  "ResultsIterator_Next [] = Inr (None, [])"
| "ResultsIterator_Next (Inl e # rest) = Inl e"
| "ResultsIterator_Next (Inr kv # rest) = Inr (Some kv, rest)"

record 's VersionedDB =
  vdb_GetState :: "'s \<Rightarrow> string \<Rightarrow> string \<Rightarrow> VersionedValue option res"
  vdb_GetStateMultipleKeys :: "'s \<Rightarrow> string \<Rightarrow> string list \<Rightarrow> VersionedValue option list res"
  vdb_GetStateRangeScanIterator :: "'s \<Rightarrow> string \<Rightarrow> string \<Rightarrow> string \<Rightarrow> ResultsIterator res"
  vdb_ExecuteQuery :: "'s \<Rightarrow> string \<Rightarrow> string \<Rightarrow> ResultsIterator res"
  vdb_ApplyUpdates :: "'s \<Rightarrow> UpdateBatch \<Rightarrow> Height \<Rightarrow> 's \<times> go_err option"
  vdb_GetLatestSavePoint :: "'s \<Rightarrow> Height option res"
  vdb_ValidateKey :: "'s \<Rightarrow> string \<Rightarrow> go_err option"

section \<open>The contract\<close>

text \<open>The contents of a database after a batch: a deletion removes the key.\<close>

definition overlay ::
  "(string \<Rightarrow> string \<rightharpoonup> VersionedValue) \<Rightarrow> UpdateBatch \<Rightarrow> (string \<Rightarrow> string \<rightharpoonup> VersionedValue)" where
  "overlay m b = (\<lambda>ns k. case batch_Get b ns k of
     None \<Rightarrow> m ns k
   | Some vv \<Rightarrow> if Value vv = None then None else Some vv)"

definition batch_namespaces :: "UpdateBatch \<Rightarrow> string set" where
  "batch_namespaces b = set (map fst (updates b))"

locale versioned_db =
  fixes DB :: "'s VersionedDB" and inv :: "'s \<Rightarrow> bool"
    and view :: "'s \<Rightarrow> string \<Rightarrow> string \<rightharpoonup> VersionedValue" and valid_ns :: "string \<Rightarrow> bool"
  assumes GetState_view:
      "inv s \<Longrightarrow> valid_ns ns \<Longrightarrow> vdb_GetState DB s ns k = Inr v \<Longrightarrow> v = view s ns k"
    and GetStateMultipleKeys_view:
      "inv s \<Longrightarrow> valid_ns ns \<Longrightarrow> vdb_GetStateMultipleKeys DB s ns ks = Inr vs \<Longrightarrow> vs = map (view s ns) ks"
    and scan_view:
      "inv s \<Longrightarrow> valid_ns ns \<Longrightarrow> vdb_GetStateRangeScanIterator DB s ns a e = Inr itr
         \<Longrightarrow> itr = map Inr (scan_view ns a e (view s ns))"
    and ExecuteQuery_view:
      "inv s \<Longrightarrow> valid_ns ns \<Longrightarrow> vdb_ExecuteQuery DB s ns query = Inr itr \<Longrightarrow> Inr kv \<in> set itr
         \<Longrightarrow> Namespace (kv_CompositeKey kv) = ns \<and> view s ns (kv_Key kv) = Some (kv_VersionedValue kv)"
    and finite_view: "inv s \<Longrightarrow> valid_ns ns \<Longrightarrow> finite (dom (view s ns))"
    and view_not_nil: "view s ns k = Some vv \<Longrightarrow> Value vv \<noteq> None"
    and ApplyUpdates_inv:
      "inv s \<Longrightarrow> batch_wf b \<Longrightarrow> \<forall>ns \<in> batch_namespaces b. valid_ns ns
         \<Longrightarrow> vdb_ApplyUpdates DB s b h = (s', None) \<Longrightarrow> inv s'"
    and ApplyUpdates_view:
      "inv s \<Longrightarrow> batch_wf b \<Longrightarrow> \<forall>ns \<in> batch_namespaces b. valid_ns ns
         \<Longrightarrow> vdb_ApplyUpdates DB s b h = (s', None) \<Longrightarrow> valid_ns ns \<Longrightarrow> view s' ns = overlay (view s) b ns"
    and ApplyUpdates_savepoint:
      "inv s \<Longrightarrow> batch_wf b \<Longrightarrow> \<forall>ns \<in> batch_namespaces b. valid_ns ns
         \<Longrightarrow> vdb_ApplyUpdates DB s b h = (s', None) \<Longrightarrow> vdb_GetLatestSavePoint DB s' = Inr sp
         \<Longrightarrow> sp = Some h"

locale versioned_db_ok = versioned_db +
  assumes GetState_total: "inv s \<Longrightarrow> valid_ns ns \<Longrightarrow> \<exists>v. vdb_GetState DB s ns k = Inr v"
    and scan_total: "inv s \<Longrightarrow> valid_ns ns \<Longrightarrow> \<exists>itr. vdb_GetStateRangeScanIterator DB s ns a e = Inr itr"
    and ApplyUpdates_total:
      "inv s \<Longrightarrow> batch_wf b \<Longrightarrow> \<forall>ns \<in> batch_namespaces b. valid_ns ns
         \<Longrightarrow> snd (vdb_ApplyUpdates DB s b h) = None"
    and savepoint_total:
      "inv s \<Longrightarrow> batch_wf b \<Longrightarrow> \<forall>ns \<in> batch_namespaces b. valid_ns ns
         \<Longrightarrow> vdb_ApplyUpdates DB s b h = (s', None) \<Longrightarrow> \<exists>sp. vdb_GetLatestSavePoint DB s' = Inr sp"
begin

lemma GetState_eq: "inv s \<Longrightarrow> valid_ns ns \<Longrightarrow> vdb_GetState DB s ns k = Inr (view s ns k)"
  using GetState_total GetState_view by blast

lemma scan_eq:
  "inv s \<Longrightarrow> valid_ns ns \<Longrightarrow>
     vdb_GetStateRangeScanIterator DB s ns a e = Inr (map Inr (scan_view ns a e (view s ns)))"
  using scan_total scan_view by blast

end

lemma overlay_New [simp]: "overlay m NewUpdateBatch = m"
  by (simp add: overlay_def)

lemma overlay_set:
  "overlay m (batch_set b ns k vv) =
     (\<lambda>ns'. if ns' = ns then (overlay m b ns)(k := (if Value vv = None then None else Some vv))
           else overlay m b ns')"
  by (auto simp: overlay_def fun_eq_iff)

end
