(* ===== verification/Combined_Iterator.thy ===== *)
theory Combined_Iterator
  imports Versioned_DB
begin

text \<open>
  The iterator over the committed state and the updates of the preceding valid
  transactions of a block,
  \<^verbatim>\<open>core/ledger/kvledger/txmgmt/validator/statebasedval/combined_iterator.go\<close>. Both inner
  iterators are as the other components have them: the database delivers the outcomes of
  its \<^verbatim>\<open>Next\<close> calls, the batch an \<open>nsIterator\<close>.
\<close>

section \<open>Model\<close>

record 's combinedIterator =
  ci_ns :: string
  ci_db :: 's
  ci_updates :: UpdateBatch
  ci_endKey :: string
  ci_includeEndKey :: bool
  ci_dbItr :: ResultsIterator
  ci_updatesItr :: nsIterator
  ci_dbItem :: "VersionedKV option"
  ci_updatesItem :: "VersionedKV option"
  ci_endKeyServed :: bool

definition newCombinedIterator :: "'s VersionedDB \<Rightarrow> 's \<Rightarrow> UpdateBatch \<Rightarrow> string \<Rightarrow> string \<Rightarrow> string
    \<Rightarrow> bool \<Rightarrow> 's combinedIterator res" where
  "newCombinedIterator D db batch ns startKey endKey includeEndKey =
     res_bind (vdb_GetStateRangeScanIterator D db ns startKey endKey) (\<lambda>dbItr.
     let updatesItr = batch_GetRangeScanIterator batch ns startKey endKey in
     res_bind (ResultsIterator_Next dbItr) (\<lambda>(dbItem, dbItr').
     res_bind (nsIterator_Next updatesItr) (\<lambda>(updatesItem, updatesItr').
       Inr \<lparr>ci_ns = ns, ci_db = db, ci_updates = batch, ci_endKey = endKey,
            ci_includeEndKey = includeEndKey, ci_dbItr = dbItr', ci_updatesItr = updatesItr',
            ci_dbItem = dbItem, ci_updatesItem = updatesItem, ci_endKeyServed = False\<rparr>)))"

definition strings_Compare :: "string \<Rightarrow> string \<Rightarrow> int" where
  "strings_Compare a b = (if a = b then 0 else if a < b then - 1 else 1)"

definition compareKeys :: "VersionedKV option \<Rightarrow> VersionedKV option \<Rightarrow> int" where
  "compareKeys item1 item2 =
     (case item1 of
        None \<Rightarrow> (case item2 of None \<Rightarrow> 0 | Some _ \<Rightarrow> 1)
      | Some a \<Rightarrow> (case item2 of None \<Rightarrow> - 1 | Some b \<Rightarrow> strings_Compare (kv_Key a) (kv_Key b)))"

definition isDelete :: "VersionedKV \<Rightarrow> bool" where
  "isDelete item \<longleftrightarrow> Value (kv_VersionedValue item) = None"

definition serveEndKeyIfNeeded ::
  "'s VersionedDB \<Rightarrow> 's combinedIterator \<Rightarrow> (VersionedKV option \<times> 's combinedIterator) res" where
  "serveEndKeyIfNeeded D itr =
     (if \<not> ci_includeEndKey itr \<or> ci_endKeyServed itr then Inr (None, itr)
      else res_bind
        (case batch_Get (ci_updates itr) (ci_ns itr) (ci_endKey itr) of
           None \<Rightarrow> vdb_GetState D (ci_db itr) (ci_ns itr) (ci_endKey itr)
         | Some vv \<Rightarrow> Inr (Some vv))
        (\<lambda>vv.
          let itr' = itr\<lparr>ci_endKeyServed := True\<rparr>
          in case vv of
               None \<Rightarrow> Inr (None, itr')
             | Some v \<Rightarrow>
                 let vkv = mkVersionedKV (ci_ns itr) (ci_endKey itr) v
                 in if isDelete vkv then Inr (None, itr') else Inr (Some vkv, itr')))"

text \<open>The three results of one round of \<^verbatim>\<open>Next\<close> before the check for a deletion: the selected
  item and the moved iterators.\<close>

definition combined_move :: "'s combinedIterator \<Rightarrow> (VersionedKV option \<times> 's combinedIterator) res" where
  "combined_move itr =
     (let compResult = compareKeys (ci_dbItem itr) (ci_updatesItem itr);
          selectedItem = (if compResult = - 1 then ci_dbItem itr else ci_updatesItem itr);
          moveDBItr = (compResult = - 1 \<or> compResult = 0);
          moveUpdatesItr = (compResult = 0 \<or> compResult = 1)
      in res_bind (if moveDBItr then ResultsIterator_Next (ci_dbItr itr)
                   else Inr (ci_dbItem itr, ci_dbItr itr)) (\<lambda>(dbItem, dbItr).
         res_bind (if moveUpdatesItr then nsIterator_Next (ci_updatesItr itr)
                   else Inr (ci_updatesItem itr, ci_updatesItr itr)) (\<lambda>(updatesItem, updatesItr).
           Inr (selectedItem, itr\<lparr>ci_dbItem := dbItem, ci_dbItr := dbItr,
                                   ci_updatesItem := updatesItem, ci_updatesItr := updatesItr\<rparr>))))"

text \<open>The number of results still to come bounds the recursion on deleted items.\<close>

definition pending :: "'a option \<Rightarrow> nat" where
  "pending x = (if x = None then 0 else 1)"

definition ci_measure :: "'s combinedIterator \<Rightarrow> nat" where
  "ci_measure itr = length (ci_dbItr itr) + pending (ci_dbItem itr)
     + (lastIndex (ci_updatesItr itr) - nextIndex (ci_updatesItr itr)) + pending (ci_updatesItem itr)"

lemma ResultsIterator_Next_measure:
  "ResultsIterator_Next l = Inr (x, l') \<Longrightarrow> length l' + pending x \<le> length l"
  by (cases l rule: ResultsIterator_Next.cases) (auto simp: pending_def)

lemma nsIterator_Next_measure:
  "nsIterator_Next i = Inr (x, i') \<Longrightarrow>
     lastIndex i' - nextIndex i' + pending x \<le> lastIndex i - nextIndex i"
  by (auto simp: nsIterator_Next_def pending_def res_bind_eq_Inr split: if_splits option.splits)

lemma combined_move_measure:
  assumes "combined_move itr = Inr (x, itr')" "ci_dbItem itr \<noteq> None \<or> ci_updatesItem itr \<noteq> None"
  shows "ci_measure itr' < ci_measure itr"
  using assms
  by (auto simp: combined_move_def Let_def res_bind_eq_Inr ci_measure_def compareKeys_def
      strings_Compare_def pending_def
      dest!: ResultsIterator_Next_measure nsIterator_Next_measure split: if_splits option.splits)

function combined_Next ::
  "'s VersionedDB \<Rightarrow> 's combinedIterator \<Rightarrow> (VersionedKV option \<times> 's combinedIterator) res" where
  "combined_Next D itr =
     (if ci_dbItem itr = None \<and> ci_updatesItem itr = None then serveEndKeyIfNeeded D itr
      else res_bind (combined_move itr) (\<lambda>(selectedItem, itr').
        case selectedItem of
          None \<Rightarrow> Inl (GoPanic ''interface conversion'')
        | Some item \<Rightarrow> if isDelete item then combined_Next D itr' else Inr (Some item, itr')))"
  by auto
termination
  by (relation "measure (\<lambda>(D, itr). ci_measure itr)") (auto intro: combined_move_measure)

declare combined_Next.simps [simp del]

section \<open>What the iterator delivers\<close>

text \<open>The results of calling \<open>nxt\<close> until it returns no more.\<close>

inductive delivers :: "('i \<Rightarrow> (VersionedKV option \<times> 'i) res) \<Rightarrow> 'i \<Rightarrow> VersionedKV list \<Rightarrow> bool"
  for nxt where
  delivers_Nil: "nxt i = Inr (None, i') \<Longrightarrow> delivers nxt i []"
| delivers_Cons: "nxt i = Inr (Some kv, i') \<Longrightarrow> delivers nxt i' kvs \<Longrightarrow> delivers nxt i (kv # kvs)"

inductive_cases delivers_NilE: "delivers nxt i []"
inductive_cases delivers_ConsE: "delivers nxt i (kv # kvs)"

lemma delivers_same_Next: "nxt i = nxt j \<Longrightarrow> delivers nxt j kvs \<Longrightarrow> delivers nxt i kvs"
  by (cases kvs) (auto elim!: delivers_NilE delivers_ConsE intro: delivers.intros)

text \<open>The specification: the two sorted lists merged by key, an update hiding the entry of
  the database with the same key and a deletion showing nothing.\<close>

definition live :: "VersionedKV \<Rightarrow> VersionedKV list" where
  "live kv = (if isDelete kv then [] else [kv])"

fun merge_kvs :: "VersionedKV list \<Rightarrow> VersionedKV list \<Rightarrow> VersionedKV list" where
  "merge_kvs [] [] = []"
| "merge_kvs [] (u # us) = live u @ merge_kvs [] us"
| "merge_kvs (d # ds) [] = live d @ merge_kvs ds []"
| "merge_kvs (d # ds) (u # us) =
     (if kv_Key d < kv_Key u then live d @ merge_kvs ds (u # us)
      else if kv_Key d = kv_Key u then live u @ merge_kvs ds us
      else live u @ merge_kvs (d # ds) us)"

text \<open>The entries still to come from the two inner iterators.\<close>

definition ci_ok :: "'s combinedIterator \<Rightarrow> VersionedKV list \<Rightarrow> VersionedKV list \<Rightarrow> bool" where
  "ci_ok itr ds us \<longleftrightarrow>
     (case ci_dbItem itr of
        None \<Rightarrow> ds = []
      | Some d \<Rightarrow> ds \<noteq> [] \<and> hd ds = d \<and> ci_dbItr itr = map Inr (tl ds))
     \<and> nsIterator_ok (ci_updatesItr itr)
     \<and> (case ci_updatesItem itr of
        None \<Rightarrow> us = []
      | Some u \<Rightarrow> us = u # nsIterator_rest (ci_updatesItr itr))"

lemma ResultsIterator_Next_map:
  "ResultsIterator_Next (map Inr l) = Inr (if l = [] then (None, []) else (Some (hd l), map Inr (tl l)))"
  by (cases l) simp_all

lemma nsIterator_Next_rest:
  assumes "nsIterator_ok i" "nsIterator_rest i = us"
  shows "\<exists>x i'. nsIterator_Next i = Inr (x, i') \<and> nsIterator_ok i'
    \<and> (case x of None \<Rightarrow> us = [] | Some u \<Rightarrow> us = u # nsIterator_rest i')"
proof (cases us)
  case Nil
  then show ?thesis using assms nsIterator_Next_Nil by fastforce
next
  case (Cons u us')
  then show ?thesis using nsIterator_Next_Cons[OF assms(1)] assms(2) by fastforce
qed

lemma ci_ok_sel:
  "ci_ok itr (d # ds) us \<Longrightarrow> ci_dbItem itr = Some d" "ci_ok itr [] us \<Longrightarrow> ci_dbItem itr = None"
  "ci_ok itr ds (u # us) \<Longrightarrow> ci_updatesItem itr = Some u" "ci_ok itr ds [] \<Longrightarrow> ci_updatesItem itr = None"
  by (auto simp: ci_ok_def split: option.splits)

definition same_end :: "'s combinedIterator \<Rightarrow> 's combinedIterator \<Rightarrow> bool" where
  "same_end i j \<longleftrightarrow> ci_ns i = ci_ns j \<and> ci_db i = ci_db j \<and> ci_updates i = ci_updates j
     \<and> ci_endKey i = ci_endKey j \<and> ci_includeEndKey i = ci_includeEndKey j
     \<and> ci_endKeyServed i = ci_endKeyServed j"

lemma ci_ok_updates:
  assumes "ci_ok itr ds (u # us)"
  obtains x i' where "nsIterator_Next (ci_updatesItr itr) = Inr (x, i')" "nsIterator_ok i'"
    "case x of None \<Rightarrow> us = [] | Some u \<Rightarrow> us = u # nsIterator_rest i'"
proof -
  have "nsIterator_ok (ci_updatesItr itr)" "nsIterator_rest (ci_updatesItr itr) = us"
    using assms by (auto simp: ci_ok_def split: option.splits)
  from nsIterator_Next_rest[OF this] that show ?thesis by blast
qed

lemma ci_ok_db: "ci_ok itr (d # ds) us \<Longrightarrow> ResultsIterator_Next (ci_dbItr itr)
    = Inr (if ds = [] then (None, []) else (Some (hd ds), map Inr (tl ds)))"
  by (auto simp: ci_ok_def ResultsIterator_Next_map split: option.splits)

lemma combined_move_db:
  assumes "ci_ok itr (d # ds) us" "us = [] \<or> kv_Key d < kv_Key (hd us)"
  shows "\<exists>itr'. combined_move itr = Inr (Some d, itr') \<and> ci_ok itr' ds us \<and> same_end itr' itr"
proof -
  have "compareKeys (ci_dbItem itr) (ci_updatesItem itr) = - 1"
    using assms by (cases us) (auto simp: ci_ok_sel compareKeys_def strings_Compare_def)
  then have "combined_move itr = Inr (Some d,
      itr\<lparr>ci_dbItem := (if ds = [] then None else Some (hd ds)), ci_dbItr := map Inr (tl ds),
         ci_updatesItem := ci_updatesItem itr, ci_updatesItr := ci_updatesItr itr\<rparr>)"
    using ci_ok_sel(1)[OF assms(1)] ci_ok_db[OF assms(1)] by (simp add: combined_move_def)
  then show ?thesis using assms(1) by (auto simp: ci_ok_def same_end_def split: option.splits)
qed

lemma combined_move_updates:
  assumes "ci_ok itr ds (u # us)" "ds = [] \<or> kv_Key u < kv_Key (hd ds)"
  shows "\<exists>itr'. combined_move itr = Inr (Some u, itr') \<and> ci_ok itr' ds us \<and> same_end itr' itr"
proof -
  from assms(1) obtain x i' where n: "nsIterator_Next (ci_updatesItr itr) = Inr (x, i')"
    "nsIterator_ok i'" "case x of None \<Rightarrow> us = [] | Some u \<Rightarrow> us = u # nsIterator_rest i'"
    by (rule ci_ok_updates)
  have "compareKeys (ci_dbItem itr) (ci_updatesItem itr) = 1"
    using assms by (cases ds) (auto simp: ci_ok_sel compareKeys_def strings_Compare_def)
  then have "combined_move itr = Inr (Some u,
      itr\<lparr>ci_dbItem := ci_dbItem itr, ci_dbItr := ci_dbItr itr, ci_updatesItem := x, ci_updatesItr := i'\<rparr>)"
    using ci_ok_sel(3)[OF assms(1)] n by (simp add: combined_move_def)
  then show ?thesis using assms(1) n by (auto simp: ci_ok_def same_end_def split: option.splits)
qed

lemma combined_move_both:
  assumes "ci_ok itr (d # ds) (u # us)" "kv_Key d = kv_Key u"
  shows "\<exists>itr'. combined_move itr = Inr (Some u, itr') \<and> ci_ok itr' ds us \<and> same_end itr' itr"
proof -
  from assms(1) obtain x i' where n: "nsIterator_Next (ci_updatesItr itr) = Inr (x, i')"
    "nsIterator_ok i'" "case x of None \<Rightarrow> us = [] | Some u \<Rightarrow> us = u # nsIterator_rest i'"
    by (rule ci_ok_updates)
  have "compareKeys (ci_dbItem itr) (ci_updatesItem itr) = 0"
    using assms by (simp add: ci_ok_sel compareKeys_def strings_Compare_def)
  then have "combined_move itr = Inr (Some u,
      itr\<lparr>ci_dbItem := (if ds = [] then None else Some (hd ds)), ci_dbItr := map Inr (tl ds),
         ci_updatesItem := x, ci_updatesItr := i'\<rparr>)"
    using ci_ok_sel(3)[OF assms(1)] ci_ok_db[OF assms(1)] n by (simp add: combined_move_def)
  then show ?thesis using n by (auto simp: ci_ok_def same_end_def split: option.splits)
qed

text \<open>One round of \<^const>\<open>combined_Next\<close> delivers the selected item unless it is a deletion.\<close>

lemma combined_Next_round:
  assumes "combined_move itr = Inr (Some kv, itr')" "ci_dbItem itr \<noteq> None \<or> ci_updatesItem itr \<noteq> None"
    and "delivers (combined_Next D) itr' kvs"
  shows "delivers (combined_Next D) itr (live kv @ kvs)"
proof (cases "isDelete kv")
  case True
  then have "combined_Next D itr = combined_Next D itr'"
    using assms(1,2) by (subst combined_Next.simps) auto
  then show ?thesis using True assms(3) by (simp add: live_def delivers_same_Next)
next
  case False
  then have "combined_Next D itr = Inr (Some kv, itr')"
    using assms(1,2) by (subst combined_Next.simps) auto
  then show ?thesis using False assms(3) by (simp add: live_def delivers_Cons)
qed

text \<open>The entry of the end key, when it is to be served.\<close>

definition end_lookup :: "'s VersionedDB \<Rightarrow> 's combinedIterator \<Rightarrow> VersionedValue option res" where
  "end_lookup D itr = (case batch_Get (ci_updates itr) (ci_ns itr) (ci_endKey itr) of
      None \<Rightarrow> vdb_GetState D (ci_db itr) (ci_ns itr) (ci_endKey itr)
    | Some vv \<Rightarrow> Inr (Some vv))"

definition end_part :: "'s combinedIterator \<Rightarrow> VersionedValue option \<Rightarrow> VersionedKV list" where
  "end_part itr vv =
     (if \<not> ci_includeEndKey itr \<or> ci_endKeyServed itr then []
      else case vv of None \<Rightarrow> [] | Some v \<Rightarrow> live (mkVersionedKV (ci_ns itr) (ci_endKey itr) v))"

lemma same_end_lookup:
  "same_end i j \<Longrightarrow> end_lookup D i = end_lookup D j" "same_end i j \<Longrightarrow> end_part i vv = end_part j vv"
  by (simp_all add: same_end_def end_lookup_def end_part_def split: option.splits)

lemma end_lookup_same:
  assumes "same_end i j" "ci_includeEndKey j \<and> \<not> ci_endKeyServed j \<Longrightarrow> end_lookup D j = Inr vv"
    and "ci_includeEndKey i \<and> \<not> ci_endKeyServed i"
  shows "end_lookup D i = Inr vv"
  using assms(2,3) same_end_lookup(1)[OF assms(1), of D] assms(1) by (simp add: same_end_def)

lemma combined_Next_end:
  assumes "ci_ok itr [] []" "ci_includeEndKey itr \<and> \<not> ci_endKeyServed itr \<Longrightarrow> end_lookup D itr = Inr vv"
  shows "delivers (combined_Next D) itr (end_part itr vv)"
proof -
  have none: "ci_dbItem itr = None" "ci_updatesItem itr = None" using assms(1) ci_ok_sel by blast+
  then have n: "combined_Next D itr = serveEndKeyIfNeeded D itr" by (subst combined_Next.simps) simp
  show ?thesis
  proof (cases "ci_includeEndKey itr \<and> \<not> ci_endKeyServed itr")
    case False
    then show ?thesis using n
      by (auto simp: serveEndKeyIfNeeded_def end_part_def intro: delivers_Nil)
  next
    case True
    let ?i = "itr\<lparr>ci_endKeyServed := True\<rparr>"
    have "combined_Next D ?i = Inr (None, ?i)"
      using none by (subst combined_Next.simps) (simp add: serveEndKeyIfNeeded_def)
    then have stop: "delivers (combined_Next D) ?i []" by (rule delivers_Nil)
    show ?thesis using True n stop assms(2)[OF True, unfolded end_lookup_def]
      by (auto simp: serveEndKeyIfNeeded_def end_part_def live_def Let_def
          intro: delivers.intros split: option.splits)
  qed
qed

lemma combined_Next_delivers:
  assumes "ci_ok itr ds us" "ci_includeEndKey itr \<and> \<not> ci_endKeyServed itr \<Longrightarrow> end_lookup D itr = Inr vv"
  shows "delivers (combined_Next D) itr (merge_kvs ds us @ end_part itr vv)"
  using assms
proof (induction ds us arbitrary: itr rule: merge_kvs.induct)
  case 1
  then show ?case by (simp add: combined_Next_end)
next
  case (2 u us)
  from combined_move_updates[OF "2.prems"(1)] obtain i where
    i: "combined_move itr = Inr (Some u, i)" "ci_ok i [] us" "same_end i itr" by auto
  have "delivers (combined_Next D) i (merge_kvs [] us @ end_part i vv)"
    using "2.IH"[OF i(2)] end_lookup_same[OF i(3) "2.prems"(2)] by blast
  from combined_Next_round[OF i(1) _ this] show ?case
    using ci_ok_sel(3)[OF "2.prems"(1)] same_end_lookup(2)[OF i(3)] by simp
next
  case (3 d ds)
  from combined_move_db[OF "3.prems"(1)] obtain i where
    i: "combined_move itr = Inr (Some d, i)" "ci_ok i ds []" "same_end i itr" by auto
  have "delivers (combined_Next D) i (merge_kvs ds [] @ end_part i vv)"
    using "3.IH"[OF i(2)] end_lookup_same[OF i(3) "3.prems"(2)] by blast
  from combined_Next_round[OF i(1) _ this] show ?case
    using ci_ok_sel(1)[OF "3.prems"(1)] same_end_lookup(2)[OF i(3)] by simp
next
  case (4 d ds u us)
  have sel: "ci_dbItem itr \<noteq> None \<or> ci_updatesItem itr \<noteq> None" using ci_ok_sel(1)[OF "4.prems"(1)] by simp
  have go: ?case if "combined_move itr = Inr (Some kv, i)" "same_end i itr"
    "delivers (combined_Next D) i (l @ end_part i vv)" "merge_kvs (d # ds) (u # us) = live kv @ l" for kv i l
    using combined_Next_round[OF that(1) sel that(3)] that(4) same_end_lookup(2)[OF that(2)]
    by (simp del: merge_kvs.simps)
  have pre: "ci_includeEndKey i \<and> \<not> ci_endKeyServed i \<Longrightarrow> end_lookup D i = Inr vv" if "same_end i itr" for i
    by (rule end_lookup_same[OF that "4.prems"(2)])
  show ?case
  proof (cases "kv_Key d" "kv_Key u" rule: linorder_cases)
    case less
    from combined_move_db[OF "4.prems"(1)] less obtain i where
      i: "combined_move itr = Inr (Some d, i)" "ci_ok i ds (u # us)" "same_end i itr" by auto
    show ?thesis by (rule go[OF i(1,3) "4.IH"(1)[OF less i(2) pre[OF i(3)]]]) (use less in auto)
  next
    case equal
    from combined_move_both[OF "4.prems"(1) equal] obtain i where
      i: "combined_move itr = Inr (Some u, i)" "ci_ok i ds us" "same_end i itr" by auto
    have nl: "\<not> kv_Key d < kv_Key u" using equal by simp
    show ?thesis by (rule go[OF i(1,3) "4.IH"(2)[OF nl equal i(2) pre[OF i(3)]]]) (use equal in auto)
  next
    case greater
    from combined_move_updates[OF "4.prems"(1)] greater obtain i where
      i: "combined_move itr = Inr (Some u, i)" "ci_ok i (d # ds) us" "same_end i itr" by auto
    have ng: "\<not> kv_Key d < kv_Key u" "kv_Key d \<noteq> kv_Key u" using greater by auto
    show ?thesis by (rule go[OF i(1,3) "4.IH"(3)[OF ng i(2) pre[OF i(3)]]]) (use greater in auto)
  qed
qed

section \<open>The merge is the scan of the updated contents\<close>

definition key_sorted :: "VersionedKV list \<Rightarrow> bool" where
  "key_sorted kvs \<longleftrightarrow> sorted_wrt (\<lambda>a b. kv_Key a < kv_Key b) kvs"

lemma key_sorted_unique: "key_sorted xs \<Longrightarrow> key_sorted ys \<Longrightarrow> set xs = set ys \<Longrightarrow> xs = ys"
  unfolding key_sorted_def
proof (induction xs arbitrary: ys)
  case (Cons x xs)
  then obtain y ys' where ys: "ys = y # ys'" by (cases ys) auto
  have "x = y"
  proof (rule ccontr)
    assume "x \<noteq> y"
    then have "x \<in> set ys'" "y \<in> set xs" using Cons.prems(3) ys by auto
    then show False using Cons.prems(1,2) ys by fastforce
  qed
  moreover have "set xs = set ys'" using Cons.prems ys \<open>x = y\<close> by force
  ultimately show ?case using Cons ys by simp
qed simp

lemma set_live: "set (live kv) = (if isDelete kv then {} else {kv})"
  by (simp add: live_def)

lemma set_merge_kvs:
  "key_sorted ds \<Longrightarrow> key_sorted us \<Longrightarrow> set (merge_kvs ds us) =
     {u \<in> set us. \<not> isDelete u} \<union> {d \<in> set ds. \<not> isDelete d \<and> kv_Key d \<notin> kv_Key ` set us}"
proof (induction ds us rule: merge_kvs.induct)
  case (4 d ds u us)
  have s: "\<forall>x \<in> set ds. kv_Key d < kv_Key x" "\<forall>x \<in> set us. kv_Key u < kv_Key x"
    "key_sorted ds" "key_sorted us" using "4.prems" by (auto simp: key_sorted_def)
  show ?case
  proof (cases "kv_Key d" "kv_Key u" rule: linorder_cases)
    case less
    then have "kv_Key d \<notin> kv_Key ` set (u # us)" using s by fastforce
    then show ?thesis using less "4.IH"(1)[OF less s(3) "4.prems"(2)] by (auto simp: set_live)
  next
    case equal
    then have "\<forall>x \<in> set ds. kv_Key x \<noteq> kv_Key u" using s by fastforce
    then show ?thesis using equal "4.IH"(2)[OF _ equal s(3,4)] by (auto simp: set_live)
  next
    case greater
    then have "\<forall>x \<in> set (d # ds). kv_Key x \<noteq> kv_Key u" using s by fastforce
    then show ?thesis using greater "4.IH"(3)[OF _ _ "4.prems"(1) s(4)] by (auto simp: set_live)
  qed
qed (auto simp: set_live key_sorted_def)

lemma key_sorted_merge_kvs:
  "key_sorted ds \<Longrightarrow> key_sorted us \<Longrightarrow> key_sorted (merge_kvs ds us)"
proof (induction ds us rule: merge_kvs.induct)
  case (4 d ds u us)
  have s: "\<forall>x \<in> set ds. kv_Key d < kv_Key x" "\<forall>x \<in> set us. kv_Key u < kv_Key x"
    "key_sorted ds" "key_sorted us" using "4.prems" by (auto simp: key_sorted_def)
  have app: "key_sorted (live x @ l)" if "key_sorted l" "\<forall>y \<in> set l. kv_Key x < kv_Key y" for x l
    using that by (simp add: key_sorted_def live_def)
  show ?case
  proof (cases "kv_Key d" "kv_Key u" rule: linorder_cases)
    case less
    have "\<forall>y \<in> set (merge_kvs ds (u # us)). kv_Key d < kv_Key y"
      unfolding set_merge_kvs[OF s(3) "4.prems"(2)] using s less by fastforce
    then show ?thesis using less app[OF "4.IH"(1)[OF less s(3) "4.prems"(2)]] by simp
  next
    case equal
    have "\<forall>y \<in> set (merge_kvs ds us). kv_Key u < kv_Key y"
      unfolding set_merge_kvs[OF s(3,4)] using s equal by fastforce
    then show ?thesis using equal app[OF "4.IH"(2)[OF _ equal s(3,4)]] by simp
  next
    case greater
    have "\<forall>y \<in> set (merge_kvs (d # ds) us). kv_Key u < kv_Key y"
      unfolding set_merge_kvs[OF "4.prems"(1) s(4)] using s greater by fastforce
    then show ?thesis using greater app[OF "4.IH"(3)[OF _ _ "4.prems"(1) s(4)]] by auto
  qed
next
  case (2 u us)
  then show ?case using set_merge_kvs[of "[]" us] by (auto simp: key_sorted_def live_def)
next
  case (3 d ds)
  then show ?case using set_merge_kvs[of ds "[]"] by (auto simp: key_sorted_def live_def)
qed simp

lemma scan_keys_props:
  assumes "finite (dom m)"
  shows "sorted (scan_keys s e m)" "distinct (scan_keys s e m)"
    "set (scan_keys s e m) = {k \<in> dom m. key_in_range s e k}"
  using assms by (simp_all add: scan_keys_def)

lemma key_sorted_scan_view: "finite (dom m) \<Longrightarrow> key_sorted (scan_view ns s e m)"
  using scan_keys_props[of m s e]
  by (simp add: key_sorted_def scan_view_def sorted_wrt_map strict_sorted_iff)

lemma mkVersionedKV_eta: "mkVersionedKV (Namespace (kv_CompositeKey kv)) (kv_Key kv) (kv_VersionedValue kv) = kv"
  by (simp add: mkVersionedKV_def)

lemma mem_scan_view:
  assumes "finite (dom m)"
  shows "kv \<in> set (scan_view ns s e m) \<longleftrightarrow> Namespace (kv_CompositeKey kv) = ns
    \<and> m (kv_Key kv) = Some (kv_VersionedValue kv) \<and> key_in_range s e (kv_Key kv)"
proof
  assume r: "Namespace (kv_CompositeKey kv) = ns
    \<and> m (kv_Key kv) = Some (kv_VersionedValue kv) \<and> key_in_range s e (kv_Key kv)"
  then have "kv_Key kv \<in> set (scan_keys s e m)" using assms by (auto simp: scan_keys_props)
  then have "mkVersionedKV ns (kv_Key kv) (the (m (kv_Key kv))) \<in> set (scan_view ns s e m)"
    by (simp add: scan_view_def)
  then show "kv \<in> set (scan_view ns s e m)" using r by (metis mkVersionedKV_eta option.sel)
qed (auto simp: scan_view_def scan_keys_props[OF assms])

lemma keys_scan_view:
  "finite (dom m) \<Longrightarrow> kv_Key ` set (scan_view ns s e m) = {k \<in> dom m. key_in_range s e k}"
  by (simp add: scan_view_def image_image scan_keys_props)

lemma overlay_Some: "overlay m b ns k = Some vv \<longleftrightarrow>
    batch_Get b ns k = Some vv \<and> Value vv \<noteq> None \<or> batch_Get b ns k = None \<and> m ns k = Some vv"
  by (auto simp: overlay_def split: option.splits)

lemma merge_scan_view:
  assumes "finite (dom (m ns))" "finite (dom (batch_Get b ns))"
    and "\<And>k vv. m ns k = Some vv \<Longrightarrow> Value vv \<noteq> None"
  shows "merge_kvs (scan_view ns s e (m ns)) (scan_view ns s e (batch_Get b ns)) = scan_view ns s e (overlay m b ns)"
proof (rule key_sorted_unique)
  have "dom (overlay m b ns) \<subseteq> dom (m ns) \<union> dom (batch_Get b ns)"
    by (auto simp: overlay_def split: option.splits if_splits)
  then have fin: "finite (dom (overlay m b ns))" using assms finite_subset by blast
  show "key_sorted (scan_view ns s e (overlay m b ns))" using fin by (rule key_sorted_scan_view)
  note ks = key_sorted_scan_view[OF assms(1)] key_sorted_scan_view[OF assms(2)]
  show "key_sorted (merge_kvs (scan_view ns s e (m ns)) (scan_view ns s e (batch_Get b ns)))"
    by (rule key_sorted_merge_kvs[OF ks])
  show "set (merge_kvs (scan_view ns s e (m ns)) (scan_view ns s e (batch_Get b ns)))
      = set (scan_view ns s e (overlay m b ns))"
  proof (rule set_eqI)
    fix kv
    show "kv \<in> set (merge_kvs (scan_view ns s e (m ns)) (scan_view ns s e (batch_Get b ns)))
        \<longleftrightarrow> kv \<in> set (scan_view ns s e (overlay m b ns))"
      unfolding set_merge_kvs[OF ks] keys_scan_view[OF assms(2)] Un_iff mem_Collect_eq mem_scan_view[OF fin]
        mem_scan_view[OF assms(1)] mem_scan_view[OF assms(2)] overlay_Some isDelete_def domIff
      using assms(3)[of "kv_Key kv" "kv_VersionedValue kv"] by auto
  qed
qed

section \<open>The iterator over a database that keeps its contract\<close>

text \<open>What a range query over the contents \<open>m\<close> returns, with the end key when it is
  included.\<close>

definition range_spec ::
  "(string \<Rightarrow> string \<rightharpoonup> VersionedValue) \<Rightarrow> string \<Rightarrow> string \<Rightarrow> string \<Rightarrow> bool \<Rightarrow> VersionedKV list" where
  "range_spec m ns s e includeEnd = scan_view ns s e (m ns)
     @ (if includeEnd then (case m ns e of None \<Rightarrow> [] | Some vv \<Rightarrow> [mkVersionedKV ns e vv]) else [])"

lemma finite_batch_Get: "finite (dom (batch_Get b ns))"
proof (cases "map_get (updates b) ns")
  case (Some m)
  then have "batch_Get b ns = map_get m" by (auto simp: batch_Get_eq)
  then show ?thesis by (simp add: finite_dom_map_of)
next
  case None
  then have "batch_Get b ns = Map.empty" by (auto simp: batch_Get_eq)
  then show ?thesis by simp
qed

context versioned_db_ok
begin

lemma newCombinedIterator_ok:
  assumes "inv s" "valid_ns ns" "batch_wf b"
  shows "\<exists>itr. newCombinedIterator DB s b ns a e inc = Inr itr
    \<and> ci_ok itr (scan_view ns a e (view s ns)) (scan_view ns a e (batch_Get b ns))
    \<and> ci_ns itr = ns \<and> ci_db itr = s \<and> ci_updates itr = b \<and> ci_endKey itr = e
    \<and> ci_includeEndKey itr = inc \<and> \<not> ci_endKeyServed itr"
proof -
  let ?ds = "scan_view ns a e (view s ns)" and ?us = "scan_view ns a e (batch_Get b ns)"
  from nsIterator_Next_rest[OF newNsIterator_ok newNsIterator_rest[OF assms(3)], of ns a e]
  obtain x i where i: "nsIterator_Next (newNsIterator ns a e b) = Inr (x, i)" "nsIterator_ok i"
    "case x of None \<Rightarrow> ?us = [] | Some u \<Rightarrow> ?us = u # nsIterator_rest i" by blast
  then show ?thesis using scan_eq[OF assms(1,2), of a e]
    by (auto simp: newCombinedIterator_def batch_GetRangeScanIterator_def ResultsIterator_Next_map
        ci_ok_def split: option.splits)
qed

lemma combinedIterator_delivers:
  assumes "inv s" "valid_ns ns" "batch_wf b"
  shows "\<exists>itr. newCombinedIterator DB s b ns a e inc = Inr itr
    \<and> delivers (combined_Next DB) itr (range_spec (overlay (view s) b) ns a e inc)"
proof -
  from newCombinedIterator_ok[OF assms] obtain itr where itr:
    "newCombinedIterator DB s b ns a e inc = Inr itr"
    "ci_ok itr (scan_view ns a e (view s ns)) (scan_view ns a e (batch_Get b ns))"
    "ci_ns itr = ns" "ci_db itr = s" "ci_updates itr = b" "ci_endKey itr = e"
    "ci_includeEndKey itr = inc" "\<not> ci_endKeyServed itr" by blast
  let ?vv = "case batch_Get b ns e of None \<Rightarrow> view s ns e | Some vv \<Rightarrow> Some vv"
  have "end_lookup DB itr = Inr ?vv"
    using GetState_eq[OF assms(1,2)] itr by (simp add: end_lookup_def split: option.splits)
  moreover have "merge_kvs (scan_view ns a e (view s ns)) (scan_view ns a e (batch_Get b ns))
      = scan_view ns a e (overlay (view s) b ns)"
    by (rule merge_scan_view[where m = "view s"])
      (use finite_view[OF assms(1,2)] finite_batch_Get view_not_nil in auto)
  ultimately have "delivers (combined_Next DB) itr (scan_view ns a e (overlay (view s) b ns) @ end_part itr ?vv)"
    using combined_Next_delivers[OF itr(2), of DB ?vv] by simp
  moreover have "end_part itr ?vv
      = (if inc then (case overlay (view s) b ns e of None \<Rightarrow> [] | Some vv \<Rightarrow> [mkVersionedKV ns e vv]) else [])"
    using itr view_not_nil[of s ns e]
    by (auto simp: end_part_def overlay_def live_def isDelete_def split: option.splits)
  ultimately show ?thesis using itr(1) by (auto simp: range_spec_def)
qed

end

end
