(* ===== verification/RW_Set.thy ===== *)
theory RW_Set
  imports State_Batch
begin

text \<open>
  Read-write sets, \<^verbatim>\<open>core/ledger/kvledger/txmgmt/rwsetutil\<close>: the messages of
  \<^verbatim>\<open>protos/ledger/rwset/kvrwset\<close>, the builder that collects the reads, writes and range
  queries of a simulation (\<^verbatim>\<open>rwset_builder.go\<close>) and the conversion to and from bytes
  (\<^verbatim>\<open>rwset_proto_util.go\<close>). The protobuf runtime is third-party code: the marshalling of
  the two messages is a parameter.
\<close>

section \<open>Messages\<close>

record kvVersion =
  pv_BlockNum :: uint64
  pv_TxNum :: uint64

record KVRead =
  r_Key :: string
  r_Version :: "kvVersion option"

record KVWrite =
  w_Key :: string
  w_IsDelete :: bool
  w_Value :: "bytes option"

record QueryReadsMerkleSummary =
  MaxDegree :: uint32
  MaxLevel :: uint32
  MaxLevelHashes :: "bytes list"

datatype ReadsInfo = RawReads "KVRead list" | ReadsMerkleHashes QueryReadsMerkleSummary

record RangeQueryInfo =
  rq_StartKey :: string
  rq_EndKey :: string
  rq_ItrExhausted :: bool
  rq_ReadsInfo :: "ReadsInfo option"

record KVRWSet =
  Reads :: "KVRead list"
  RangeQueriesInfo :: "RangeQueryInfo list"
  Writes :: "KVWrite list"

record NsRwSet =
  NameSpace :: string
  KvRwSet :: KVRWSet

record TxRwSet =
  NsRwSets :: "NsRwSet list"

definition GetRawReads :: "RangeQueryInfo \<Rightarrow> KVRead list" where
  "GetRawReads rqi = (case rq_ReadsInfo rqi of Some (RawReads r) \<Rightarrow> r | _ \<Rightarrow> [])"

definition GetReadsMerkleHashes :: "RangeQueryInfo \<Rightarrow> QueryReadsMerkleSummary option" where
  "GetReadsMerkleHashes rqi = (case rq_ReadsInfo rqi of Some (ReadsMerkleHashes m) \<Rightarrow> Some m | _ \<Rightarrow> None)"

definition SetRawReads :: "RangeQueryInfo \<Rightarrow> KVRead list \<Rightarrow> RangeQueryInfo" where
  "SetRawReads rqi kvReads = rqi\<lparr>rq_ReadsInfo := Some (RawReads kvReads)\<rparr>"

definition SetMerkelSummary :: "RangeQueryInfo \<Rightarrow> QueryReadsMerkleSummary \<Rightarrow> RangeQueryInfo" where
  "SetMerkelSummary rqi merkleSummary = rqi\<lparr>rq_ReadsInfo := Some (ReadsMerkleHashes merkleSummary)\<rparr>"

fun hashes_equal :: "bytes list \<Rightarrow> bytes list \<Rightarrow> bool" where
  "hashes_equal (a # as) (b # bs) = (a = b \<and> hashes_equal as bs)"
| "hashes_equal _ _ = True"

definition MerkleSummary_Equal ::
  "QueryReadsMerkleSummary \<Rightarrow> QueryReadsMerkleSummary option \<Rightarrow> bool" where
  "MerkleSummary_Equal ms anotherMS =
     (case anotherMS of
        None \<Rightarrow> False
      | Some a \<Rightarrow>
          if MaxDegree ms \<noteq> MaxDegree a \<or> MaxLevel ms \<noteq> MaxLevel a
             \<or> length (MaxLevelHashes ms) \<noteq> length (MaxLevelHashes a) then False
          else hashes_equal (MaxLevelHashes ms) (MaxLevelHashes a))"

definition newProtoVersion :: "Height option \<Rightarrow> kvVersion option" where
  "newProtoVersion height =
     (case height of None \<Rightarrow> None
      | Some h \<Rightarrow> Some \<lparr>pv_BlockNum = BlockNum h, pv_TxNum = TxNum h\<rparr>)"

definition NewVersion :: "kvVersion option \<Rightarrow> Height option" where
  "NewVersion protoVersion =
     (case protoVersion of None \<Rightarrow> None | Some v \<Rightarrow> Some (NewHeight (pv_BlockNum v) (pv_TxNum v)))"

definition NewKVRead :: "string \<Rightarrow> Height option \<Rightarrow> KVRead" where
  "NewKVRead key ver = \<lparr>r_Key = key, r_Version = newProtoVersion ver\<rparr>"

definition newKVWrite :: "string \<Rightarrow> bytes option \<Rightarrow> KVWrite" where
  "newKVWrite key value = \<lparr>w_Key = key, w_IsDelete = (value = None), w_Value = value\<rparr>"

section \<open>The builder\<close>

record rangeQueryKey =
  rk_startKey :: string
  rk_endKey :: string
  rk_itrExhausted :: bool

record nsRWs =
  readMap :: "(string, KVRead) gomap"
  writeMap :: "(string, KVWrite) gomap"
  rangeQueriesMap :: "(rangeQueryKey, RangeQueryInfo) gomap"
  rangeQueriesKeys :: "rangeQueryKey list"

definition newNsRWs :: nsRWs where
  "newNsRWs = \<lparr>readMap = [], writeMap = [], rangeQueriesMap = [], rangeQueriesKeys = []\<rparr>"

record RWSetBuilder =
  rwMap :: "(string, nsRWs) gomap"

definition NewRWSetBuilder :: RWSetBuilder where
  "NewRWSetBuilder = \<lparr>rwMap = []\<rparr>"

definition getOrCreateNsRW :: "RWSetBuilder \<Rightarrow> string \<Rightarrow> nsRWs \<times> RWSetBuilder" where
  "getOrCreateNsRW rws ns =
     (case map_get (rwMap rws) ns of
        Some n \<Rightarrow> (n, rws)
      | None \<Rightarrow> (newNsRWs, rws\<lparr>rwMap := map_put ns newNsRWs (rwMap rws)\<rparr>))"

definition AddToReadSet :: "RWSetBuilder \<Rightarrow> string \<Rightarrow> string \<Rightarrow> Height option \<Rightarrow> RWSetBuilder" where
  "AddToReadSet rws ns key ver =
     (case getOrCreateNsRW rws ns of (n, rws') \<Rightarrow>
        rws'\<lparr>rwMap := map_put ns
          (n\<lparr>readMap := map_put key (NewKVRead key ver) (readMap n)\<rparr>) (rwMap rws')\<rparr>)"

definition AddToWriteSet :: "RWSetBuilder \<Rightarrow> string \<Rightarrow> string \<Rightarrow> bytes option \<Rightarrow> RWSetBuilder" where
  "AddToWriteSet rws ns key value =
     (case getOrCreateNsRW rws ns of (n, rws') \<Rightarrow>
        rws'\<lparr>rwMap := map_put ns
          (n\<lparr>writeMap := map_put key (newKVWrite key value) (writeMap n)\<rparr>) (rwMap rws')\<rparr>)"

definition AddToRangeQuerySet :: "RWSetBuilder \<Rightarrow> string \<Rightarrow> RangeQueryInfo \<Rightarrow> RWSetBuilder" where
  "AddToRangeQuerySet rws ns rqi =
     (case getOrCreateNsRW rws ns of (n, rws') \<Rightarrow>
        let key = \<lparr>rk_startKey = rq_StartKey rqi, rk_endKey = rq_EndKey rqi,
                    rk_itrExhausted = rq_ItrExhausted rqi\<rparr>
        in if map_get (rangeQueriesMap n) key = None
           then rws'\<lparr>rwMap := map_put ns
                  (n\<lparr>rangeQueriesMap := map_put key rqi (rangeQueriesMap n),
                     rangeQueriesKeys := rangeQueriesKeys n @ [key]\<rparr>) (rwMap rws')\<rparr>
           else rws')"

definition nsRWs_to_set :: "string \<Rightarrow> nsRWs \<Rightarrow> NsRwSet" where
  "nsRWs_to_set ns n =
     \<lparr>NameSpace = ns,
      KvRwSet =
        \<lparr>Reads = map (\<lambda>key. the (map_get (readMap n) key)) (GetSortedKeys (readMap n)),
         RangeQueriesInfo = map (\<lambda>key. the (map_get (rangeQueriesMap n) key)) (rangeQueriesKeys n),
         Writes = map (\<lambda>key. the (map_get (writeMap n) key)) (GetSortedKeys (writeMap n))\<rparr>\<rparr>"

definition GetTxReadWriteSet :: "RWSetBuilder \<Rightarrow> TxRwSet" where
  "GetTxReadWriteSet rws =
     \<lparr>NsRwSets = map (\<lambda>ns. nsRWs_to_set ns (the (map_get (rwMap rws) ns))) (GetSortedKeys (rwMap rws))\<rparr>"

section \<open>Bytes\<close>

text \<open>The message \<^verbatim>\<open>rwset.TxReadWriteSet\<close> with the data model \<^verbatim>\<open>KV\<close>.\<close>

record NsReadWriteSet =
  proto_Namespace :: string
  proto_Rwset :: bytes

record proto_codec =
  marshal_KVRWSet :: "KVRWSet \<Rightarrow> bytes res"
  unmarshal_KVRWSet :: "bytes \<Rightarrow> KVRWSet res"
  marshal_TxReadWriteSet :: "NsReadWriteSet list \<Rightarrow> bytes res"
  unmarshal_TxReadWriteSet :: "bytes \<Rightarrow> NsReadWriteSet list res"

fun ns_to_proto :: "proto_codec \<Rightarrow> NsRwSet list \<Rightarrow> NsReadWriteSet list res" where
  "ns_to_proto P [] = Inr []"
| "ns_to_proto P (nsRwSet # rest) =
     res_bind (marshal_KVRWSet P (KvRwSet nsRwSet)) (\<lambda>b.
     res_bind (ns_to_proto P rest) (\<lambda>l.
       Inr (\<lparr>proto_Namespace = NameSpace nsRwSet, proto_Rwset = b\<rparr> # l)))"

definition ToProtoBytes :: "proto_codec \<Rightarrow> TxRwSet \<Rightarrow> bytes res" where
  "ToProtoBytes P txRwSet =
     res_bind (ns_to_proto P (NsRwSets txRwSet)) (marshal_TxReadWriteSet P)"

fun ns_from_proto :: "proto_codec \<Rightarrow> NsReadWriteSet list \<Rightarrow> NsRwSet list res" where
  "ns_from_proto P [] = Inr []"
| "ns_from_proto P (p # rest) =
     res_bind (unmarshal_KVRWSet P (proto_Rwset p)) (\<lambda>kv.
     res_bind (ns_from_proto P rest) (\<lambda>l.
       Inr (\<lparr>NameSpace = proto_Namespace p, KvRwSet = kv\<rparr> # l)))"

definition FromProtoBytes :: "proto_codec \<Rightarrow> bytes \<Rightarrow> TxRwSet res" where
  "FromProtoBytes P protoBytes =
     res_bind (unmarshal_TxReadWriteSet P protoBytes) (\<lambda>protoNsRwSets.
     res_bind (ns_from_proto P protoNsRwSets) (\<lambda>l. Inr \<lparr>NsRwSets = l\<rparr>))"

section \<open>Versions and summaries\<close>

lemma NewVersion_newProtoVersion [simp]: "NewVersion (newProtoVersion h) = h"
  by (cases h) (simp_all add: NewVersion_def newProtoVersion_def NewHeight_def)

lemma newProtoVersion_inj [simp]: "newProtoVersion h = newProtoVersion h' \<longleftrightarrow> h = h'"
  by (metis NewVersion_newProtoVersion)

lemma hashes_equal_iff: "length as = length bs \<Longrightarrow> hashes_equal as bs \<longleftrightarrow> as = bs"
  by (induction as bs rule: list_induct2) auto

lemma MerkleSummary_Equal_iff [simp]: "MerkleSummary_Equal ms a \<longleftrightarrow> a = Some ms"
  by (cases a) (auto simp: MerkleSummary_Equal_def hashes_equal_iff)

section \<open>The serialised set does not depend on the iteration order of the maps\<close>

definition nsRWs_wf :: "nsRWs \<Rightarrow> bool" where
  "nsRWs_wf n \<longleftrightarrow> map_wf (readMap n) \<and> map_wf (writeMap n) \<and> map_wf (rangeQueriesMap n)"

definition builder_wf :: "RWSetBuilder \<Rightarrow> bool" where
  "builder_wf b \<longleftrightarrow> map_wf (rwMap b) \<and> (\<forall>(ns, n) \<in> set (rwMap b). nsRWs_wf n)"

text \<open>Two builders with the same contents, whatever the order of their maps.\<close>

definition nsRWs_same :: "nsRWs \<Rightarrow> nsRWs \<Rightarrow> bool" where
  "nsRWs_same n m \<longleftrightarrow> map_get (readMap n) = map_get (readMap m)
     \<and> map_get (writeMap n) = map_get (writeMap m)
     \<and> map_get (rangeQueriesMap n) = map_get (rangeQueriesMap m)
     \<and> rangeQueriesKeys n = rangeQueriesKeys m"

definition builder_same :: "RWSetBuilder \<Rightarrow> RWSetBuilder \<Rightarrow> bool" where
  "builder_same b c \<longleftrightarrow> (\<forall>ns. rel_option nsRWs_same (map_get (rwMap b) ns) (map_get (rwMap c) ns))"

lemma GetSortedKeys_dom: "map_wf m \<Longrightarrow> GetSortedKeys m = sorted_list_of_set (dom (map_get m))"
  by (intro sorted_distinct_set_unique)
    (simp_all add: GetSortedKeys_def finite_dom_map_of dom_map_of_conv_image_fst)

lemma set_GetSortedKeys [simp]: "set (GetSortedKeys m) = dom (map_get m)"
  by (simp add: GetSortedKeys_def dom_map_of_conv_image_fst)

lemma builder_wf_get:
  "builder_wf b \<Longrightarrow> map_get (rwMap b) ns = Some n \<Longrightarrow> nsRWs_wf n"
  by (auto simp: builder_wf_def dest: map_of_SomeD)

lemma nsRWs_to_set_same:
  assumes "nsRWs_same n m" "nsRWs_wf n" "nsRWs_wf m"
  shows "nsRWs_to_set ns n = nsRWs_to_set ns m"
  using assms by (simp add: nsRWs_to_set_def nsRWs_same_def nsRWs_wf_def GetSortedKeys_dom)

lemma GetTxReadWriteSet_same:
  assumes wf: "builder_wf b" "builder_wf c" and same: "builder_same b c"
  shows "GetTxReadWriteSet b = GetTxReadWriteSet c"
proof -
  have "dom (map_get (rwMap b)) = dom (map_get (rwMap c))"
    using same unfolding builder_same_def dom_def by (metis option.rel_distinct(1,2) option.exhaust_sel)
  then have keys: "GetSortedKeys (rwMap b) = GetSortedKeys (rwMap c)"
    using wf by (simp add: GetSortedKeys_dom builder_wf_def)
  have "nsRWs_to_set ns (the (map_get (rwMap b) ns)) = nsRWs_to_set ns (the (map_get (rwMap c) ns))"
    if d: "ns \<in> dom (map_get (rwMap b))" for ns
  proof -
    obtain n where n: "map_get (rwMap b) ns = Some n" using d by blast
    then obtain m where m: "map_get (rwMap c) ns = Some m" and s: "nsRWs_same n m"
      using same unfolding builder_same_def by (metis option_rel_Some1)
    show ?thesis using builder_wf_get[OF wf(1) n] builder_wf_get[OF wf(2) m] s
      by (simp add: n m nsRWs_to_set_same)
  qed
  then show ?thesis by (simp add: GetTxReadWriteSet_def keys[symmetric])
qed

text \<open>Every operation of the builder keeps it well-formed.\<close>

lemma builder_wf_put:
  "builder_wf b \<Longrightarrow> nsRWs_wf n \<Longrightarrow> builder_wf (b\<lparr>rwMap := map_put ns n (rwMap b)\<rparr>)"
  by (auto simp: builder_wf_def dest!: snd_set_map_put)

lemma getOrCreateNsRW_wf:
  "builder_wf b \<Longrightarrow> getOrCreateNsRW b ns = (n, b') \<Longrightarrow> nsRWs_wf n \<and> builder_wf b'"
  using builder_wf_get[of b ns]
  by (auto simp: getOrCreateNsRW_def newNsRWs_def nsRWs_wf_def builder_wf_put split: option.splits)

lemma builder_wf_New [simp]: "builder_wf NewRWSetBuilder"
  by (simp add: builder_wf_def NewRWSetBuilder_def)

lemma builder_wf_AddToReadSet [simp]: "builder_wf b \<Longrightarrow> builder_wf (AddToReadSet b ns k v)"
  using getOrCreateNsRW_wf[of b ns]
  by (cases "getOrCreateNsRW b ns") (simp add: AddToReadSet_def nsRWs_wf_def builder_wf_put)

lemma builder_wf_AddToWriteSet [simp]: "builder_wf b \<Longrightarrow> builder_wf (AddToWriteSet b ns k v)"
  using getOrCreateNsRW_wf[of b ns]
  by (cases "getOrCreateNsRW b ns") (simp add: AddToWriteSet_def nsRWs_wf_def builder_wf_put)

lemma builder_wf_AddToRangeQuerySet [simp]: "builder_wf b \<Longrightarrow> builder_wf (AddToRangeQuerySet b ns r)"
  using getOrCreateNsRW_wf[of b ns]
  by (cases "getOrCreateNsRW b ns") (simp add: AddToRangeQuerySet_def Let_def nsRWs_wf_def builder_wf_put)

section \<open>Round trip through bytes\<close>

text \<open>A \<^verbatim>\<open>proto3\<close> message does not tell an empty byte field from a missing one, so only sets
  without an empty value come back as they were.\<close>

definition kv_canonical :: "KVRWSet \<Rightarrow> bool" where
  "kv_canonical kv \<longleftrightarrow> (\<forall>w \<in> set (Writes kv). w_Value w \<noteq> Some [])"

definition codec_ok :: "proto_codec \<Rightarrow> bool" where
  "codec_ok P \<longleftrightarrow>
     (\<forall>kv b. kv_canonical kv \<longrightarrow> marshal_KVRWSet P kv = Inr b \<longrightarrow> unmarshal_KVRWSet P b = Inr kv)
     \<and> (\<forall>l b. marshal_TxReadWriteSet P l = Inr b \<longrightarrow> unmarshal_TxReadWriteSet P b = Inr l)"

lemma ns_proto_round_trip:
  "codec_ok P \<Longrightarrow> \<forall>n \<in> set l. kv_canonical (KvRwSet n) \<Longrightarrow> ns_to_proto P l = Inr l'
     \<Longrightarrow> ns_from_proto P l' = Inr l"
  by (induction l arbitrary: l') (auto simp: res_bind_eq_Inr codec_ok_def)

lemma ToProtoBytes_FromProtoBytes:
  assumes "codec_ok P" "\<forall>n \<in> set (NsRwSets t). kv_canonical (KvRwSet n)" "ToProtoBytes P t = Inr b"
  shows "FromProtoBytes P b = Inr t"
  using assms ns_proto_round_trip[OF assms(1,2)]
  by (auto simp: ToProtoBytes_def FromProtoBytes_def res_bind_eq_Inr codec_ok_def)

section \<open>What the builder has collected\<close>

definition builder_reads :: "RWSetBuilder \<Rightarrow> (string \<times> KVRead) set" where
  "builder_reads b = {(ns, r). \<exists>n k. map_get (rwMap b) ns = Some n \<and> map_get (readMap n) k = Some r}"

definition builder_ranges :: "RWSetBuilder \<Rightarrow> (string \<times> RangeQueryInfo) set" where
  "builder_ranges b = {(ns, q). \<exists>n k. map_get (rwMap b) ns = Some n \<and> map_get (rangeQueriesMap n) k = Some q}"

definition builder_keys_ok :: "RWSetBuilder \<Rightarrow> bool" where
  "builder_keys_ok b \<longleftrightarrow> (\<forall>ns n. map_get (rwMap b) ns = Some n \<longrightarrow>
     set (rangeQueriesKeys n) \<subseteq> dom (map_get (rangeQueriesMap n)))"

lemma builder_New [simp]:
  "builder_reads NewRWSetBuilder = {}" "builder_ranges NewRWSetBuilder = {}" "builder_keys_ok NewRWSetBuilder"
  by (simp_all add: builder_reads_def builder_ranges_def builder_keys_ok_def NewRWSetBuilder_def)

text \<open>Replacing the entry of one namespace by one with at most the new reads \<open>R\<close> and range
  queries \<open>Q\<close>.\<close>

definition entry_grows :: "nsRWs \<Rightarrow> nsRWs \<Rightarrow> KVRead set \<Rightarrow> RangeQueryInfo set \<Rightarrow> bool" where
  "entry_grows n n' R Q \<longleftrightarrow>
     (\<forall>k r. map_get (readMap n') k = Some r \<longrightarrow> map_get (readMap n) k = Some r \<or> r \<in> R)
     \<and> (\<forall>k q. map_get (rangeQueriesMap n') k = Some q \<longrightarrow> map_get (rangeQueriesMap n) k = Some q \<or> q \<in> Q)
     \<and> (set (rangeQueriesKeys n) \<subseteq> dom (map_get (rangeQueriesMap n))
        \<longrightarrow> set (rangeQueriesKeys n') \<subseteq> dom (map_get (rangeQueriesMap n')))"

lemma builder_put:
  assumes "getOrCreateNsRW b ns = (n, b')" "entry_grows n n' R Q"
  defines "b'' \<equiv> b'\<lparr>rwMap := map_put ns n' (rwMap b')\<rparr>"
  shows "builder_reads b'' \<subseteq> builder_reads b \<union> {ns} \<times> R"
    and "builder_ranges b'' \<subseteq> builder_ranges b \<union> {ns} \<times> Q"
    and "builder_keys_ok b \<Longrightarrow> builder_keys_ok b''"
proof -
  have get: "map_get (rwMap b'') m = (if m = ns then Some n' else map_get (rwMap b) m)" for m
    using assms(1) by (auto simp: b''_def getOrCreateNsRW_def split: option.splits)
  have old: "map_get (rwMap b) ns = Some n \<or> n = newNsRWs"
    using assms(1) by (auto simp: getOrCreateNsRW_def split: option.splits)
  show "builder_reads b'' \<subseteq> builder_reads b \<union> {ns} \<times> R"
    using old assms(2) by (fastforce simp: entry_grows_def builder_reads_def get newNsRWs_def split: if_splits)
  show "builder_ranges b'' \<subseteq> builder_ranges b \<union> {ns} \<times> Q"
    using old assms(2) by (fastforce simp: entry_grows_def builder_ranges_def get newNsRWs_def split: if_splits)
  show "builder_keys_ok b''" if "builder_keys_ok b"
  proof -
    have "set (rangeQueriesKeys n) \<subseteq> dom (map_get (rangeQueriesMap n))"
      using old that by (auto simp: builder_keys_ok_def newNsRWs_def)
    then show ?thesis using that assms(2) by (simp add: builder_keys_ok_def get entry_grows_def)
  qed
qed

lemma AddToReadSet_collects:
  "builder_reads (AddToReadSet b ns k v) \<subseteq> insert (ns, NewKVRead k v) (builder_reads b)"
  "builder_ranges (AddToReadSet b ns k v) \<subseteq> builder_ranges b"
  "builder_keys_ok b \<Longrightarrow> builder_keys_ok (AddToReadSet b ns k v)"
proof -
  obtain n b' where g: "getOrCreateNsRW b ns = (n, b')" by force
  have "entry_grows n (n\<lparr>readMap := map_put k (NewKVRead k v) (readMap n)\<rparr>) {NewKVRead k v} {}"
    by (auto simp: entry_grows_def split: if_splits)
  from builder_put[OF g this]
  show "builder_reads (AddToReadSet b ns k v) \<subseteq> insert (ns, NewKVRead k v) (builder_reads b)"
    "builder_ranges (AddToReadSet b ns k v) \<subseteq> builder_ranges b"
    "builder_keys_ok b \<Longrightarrow> builder_keys_ok (AddToReadSet b ns k v)"
    by (auto simp: AddToReadSet_def g)
qed

lemma AddToWriteSet_collects:
  "builder_reads (AddToWriteSet b ns k v) \<subseteq> builder_reads b"
  "builder_ranges (AddToWriteSet b ns k v) \<subseteq> builder_ranges b"
  "builder_keys_ok b \<Longrightarrow> builder_keys_ok (AddToWriteSet b ns k v)"
proof -
  obtain n b' where g: "getOrCreateNsRW b ns = (n, b')" by force
  have "entry_grows n (n\<lparr>writeMap := map_put k (newKVWrite k v) (writeMap n)\<rparr>) {} {}"
    by (simp add: entry_grows_def)
  from builder_put[OF g this]
  show "builder_reads (AddToWriteSet b ns k v) \<subseteq> builder_reads b"
    "builder_ranges (AddToWriteSet b ns k v) \<subseteq> builder_ranges b"
    "builder_keys_ok b \<Longrightarrow> builder_keys_ok (AddToWriteSet b ns k v)"
    by (auto simp: AddToWriteSet_def g)
qed

lemma AddToRangeQuerySet_collects:
  "builder_reads (AddToRangeQuerySet b ns q) \<subseteq> builder_reads b"
  "builder_ranges (AddToRangeQuerySet b ns q) \<subseteq> insert (ns, q) (builder_ranges b)"
  "builder_keys_ok b \<Longrightarrow> builder_keys_ok (AddToRangeQuerySet b ns q)"
proof -
  obtain n b' where g: "getOrCreateNsRW b ns = (n, b')" by force
  let ?k = "\<lparr>rk_startKey = rq_StartKey q, rk_endKey = rq_EndKey q, rk_itrExhausted = rq_ItrExhausted q\<rparr>"
  let ?n = "if map_get (rangeQueriesMap n) ?k = None
    then n\<lparr>rangeQueriesMap := map_put ?k q (rangeQueriesMap n), rangeQueriesKeys := rangeQueriesKeys n @ [?k]\<rparr> else n"
  have same: "map_put ns n (rwMap b') = rwMap b'"
    using g by (auto simp: getOrCreateNsRW_def update_triv split: option.splits)
  have e: "AddToRangeQuerySet b ns q = b'\<lparr>rwMap := map_put ns ?n (rwMap b')\<rparr>"
    by (simp add: AddToRangeQuerySet_def g Let_def same)
  have "entry_grows n ?n {} {q}" by (auto simp: entry_grows_def split: if_splits)
  from builder_put[OF g this]
  show "builder_reads (AddToRangeQuerySet b ns q) \<subseteq> builder_reads b"
    "builder_ranges (AddToRangeQuerySet b ns q) \<subseteq> insert (ns, q) (builder_ranges b)"
    "builder_keys_ok b \<Longrightarrow> builder_keys_ok (AddToRangeQuerySet b ns q)"
    unfolding e by auto
qed

lemma GetTxReadWriteSet_reads:
  assumes "n \<in> set (NsRwSets (GetTxReadWriteSet b))"
  shows "r \<in> set (Reads (KvRwSet n)) \<Longrightarrow> (NameSpace n, r) \<in> builder_reads b"
    and "builder_keys_ok b \<Longrightarrow> q \<in> set (RangeQueriesInfo (KvRwSet n)) \<Longrightarrow> (NameSpace n, q) \<in> builder_ranges b"
proof -
  from assms obtain ns m where m: "map_get (rwMap b) ns = Some m" "n = nsRWs_to_set ns m"
    by (auto simp: GetTxReadWriteSet_def)
  show "r \<in> set (Reads (KvRwSet n)) \<Longrightarrow> (NameSpace n, r) \<in> builder_reads b"
    using m by (auto simp: nsRWs_to_set_def builder_reads_def)
  show "builder_keys_ok b \<Longrightarrow> q \<in> set (RangeQueriesInfo (KvRwSet n)) \<Longrightarrow> (NameSpace n, q) \<in> builder_ranges b"
    using m by (fastforce simp: nsRWs_to_set_def builder_ranges_def builder_keys_ok_def)
qed

text \<open>The namespaces of the builder.\<close>

definition builder_nss :: "RWSetBuilder \<Rightarrow> string set" where
  "builder_nss b = dom (map_get (rwMap b))"

lemma builder_nss_simps [simp]:
  "builder_nss NewRWSetBuilder = {}"
  "builder_nss (AddToReadSet b ns k v) = insert ns (builder_nss b)"
  "builder_nss (AddToWriteSet b ns k w) = insert ns (builder_nss b)"
  "builder_nss (AddToRangeQuerySet b ns q) = insert ns (builder_nss b)"
  by (auto simp: builder_nss_def NewRWSetBuilder_def AddToReadSet_def AddToWriteSet_def AddToRangeQuerySet_def
      getOrCreateNsRW_def Let_def split: option.splits if_splits)

lemma NameSpace_GetTxReadWriteSet: "NameSpace ` set (NsRwSets (GetTxReadWriteSet b)) = builder_nss b"
  by (simp add: GetTxReadWriteSet_def nsRWs_to_set_def builder_nss_def image_image)

end
