(* ===== verification/Merkle_Results.thy ===== *)
theory Merkle_Results
  imports RW_Set
begin

text \<open>
  The Merkle summary of the results of a range query,
  \<^verbatim>\<open>core/ledger/kvledger/txmgmt/rwsetutil/query_results_helper.go\<close>. The hash of the BCCSP
  and the protobuf serialisation of a list of reads are parameters \<open>H\<close> and \<open>S\<close>, which
  may fail. The loop of \<^verbatim>\<open>update\<close> carries fuel, one unit for each level it may visit;
  \<open>update_loop_enough\<close> shows that the fuel \<^verbatim>\<open>update\<close> hands over is never used up.
\<close>

type_synonym hash_fn = "bytes \<Rightarrow> bytes res"
type_synonym serialize_fn = "KVRead list \<Rightarrow> bytes res"

section \<open>The tree\<close>

text \<open>A level that is missing from the map is an empty slice.\<close>

record merkleTree =
  tree :: "(nat, bytes list) gomap"
  maxLevel :: nat
  mt_maxDegree :: uint32

definition leafLevel :: nat where
  "leafLevel = 1"

definition level :: "merkleTree \<Rightarrow> nat \<Rightarrow> bytes list" where
  "level m l = (case map_get (tree m) l of None \<Rightarrow> [] | Some hs \<Rightarrow> hs)"

definition newMerkleTree :: "uint32 \<Rightarrow> merkleTree res" where
  "newMerkleTree maxDegree =
     (if maxDegree < 2 then Inl (GoErr ''maxDegree should not be less than 2 in the merkle tree'')
      else Inr \<lparr>tree = [], maxLevel = 1, mt_maxDegree = maxDegree\<rparr>)"

definition computeCombinedHash :: "hash_fn \<Rightarrow> bytes list \<Rightarrow> bytes res" where
  "computeCombinedHash H hashes = H (concat hashes)"

fun update_loop :: "hash_fn \<Rightarrow> nat \<Rightarrow> merkleTree \<Rightarrow> nat \<Rightarrow> (merkleTree \<times> go_err option) option" where
  "update_loop H 0 m currentLevel = None"
| "update_loop H (Suc fuel) m currentLevel =
     (let currentLevelHashes = level m currentLevel
      in if (word_of_nat (length currentLevelHashes) :: uint32) \<le> mt_maxDegree m then Some (m, None)
         else case computeCombinedHash H currentLevelHashes of
           Inl err \<Rightarrow> Some (m, Some err)
         | Inr nextLevelHash \<Rightarrow>
             let t1 = map_del currentLevel (tree m);
                 nextLevel = currentLevel + 1;
                 t2 = map_put nextLevel (level m nextLevel @ [nextLevelHash]) t1;
                 m' = m\<lparr>tree := t2, maxLevel := (if nextLevel > maxLevel m then nextLevel else maxLevel m)\<rparr>
             in update_loop H fuel m' nextLevel)"

definition mt_update :: "hash_fn \<Rightarrow> merkleTree \<Rightarrow> bytes \<Rightarrow> (merkleTree \<times> go_err option) option" where
  "mt_update H m nextLeafLevelHash =
     update_loop H (maxLevel m + 1)
       (m\<lparr>tree := map_put leafLevel (level m leafLevel @ [nextLeafLevelHash]) (tree m)\<rparr>) leafLevel"

text \<open>The first loop of \<^verbatim>\<open>done\<close>, from a level up to the maximal level.\<close>

function done_loop :: "hash_fn \<Rightarrow> merkleTree \<Rightarrow> nat \<Rightarrow> merkleTree \<times> go_err option" where
  "done_loop H m currentLevel =
     (if currentLevel < maxLevel m then
        (let hs = level m currentLevel
         in if hs = [] then done_loop H m (currentLevel + 1)
            else case (if length hs = 1 then Inr (hs ! 0) else computeCombinedHash H hs) of
              Inl err \<Rightarrow> (m, Some err)
            | Inr h \<Rightarrow>
                let t1 = map_del currentLevel (tree m);
                    t2 = map_put (currentLevel + 1) (level m (currentLevel + 1) @ [h]) t1
                in done_loop H (m\<lparr>tree := t2\<rparr>) (currentLevel + 1))
      else (m, None))"
  by auto
termination by (relation "measure (\<lambda>(H, m, l). maxLevel m - l)") auto

declare done_loop.simps [simp del]

definition mt_done :: "hash_fn \<Rightarrow> merkleTree \<Rightarrow> merkleTree \<times> go_err option" where
  "mt_done H m =
     (case done_loop H m leafLevel of
        (m1, Some err) \<Rightarrow> (m1, Some err)
      | (m1, None) \<Rightarrow>
          let finalHashes = level m1 (maxLevel m1)
          in if (word_of_nat (length finalHashes) :: uint32) > mt_maxDegree m1 then
               let t1 = map_del (maxLevel m1) (tree m1);
                   m2 = m1\<lparr>tree := t1, maxLevel := maxLevel m1 + 1\<rparr>
               in case computeCombinedHash H finalHashes of
                    Inl err \<Rightarrow> (m2, Some err)
                  | Inr combinedHash \<Rightarrow>
                      (m2\<lparr>tree := map_put (maxLevel m2) [combinedHash] (tree m2)\<rparr>, None)
             else (m1, None))"

definition getSummery :: "merkleTree \<Rightarrow> QueryReadsMerkleSummary" where
  "getSummery m = \<lparr>MaxDegree = mt_maxDegree m, MaxLevel = word_of_nat (maxLevel m),
                    MaxLevelHashes = level m (maxLevel m)\<rparr>"

definition mt_isEmpty :: "merkleTree \<Rightarrow> bool" where
  "mt_isEmpty m \<longleftrightarrow> maxLevel m = 1 \<and> level m (maxLevel m) = []"

section \<open>The helper\<close>

record RangeQueryResultsHelper =
  pendingResults :: "KVRead list"
  h_mt :: "merkleTree option"
  h_maxDegree :: uint32
  hashingEnabled :: bool

definition NewRangeQueryResultsHelper :: "bool \<Rightarrow> uint32 \<Rightarrow> RangeQueryResultsHelper res" where
  "NewRangeQueryResultsHelper enableHashing maxDegree =
     (let helper = \<lparr>pendingResults = [], h_mt = None, h_maxDegree = maxDegree,
                     hashingEnabled = enableHashing\<rparr>
      in if enableHashing
         then res_bind (newMerkleTree maxDegree) (\<lambda>m. Inr (helper\<lparr>h_mt := Some m\<rparr>))
         else Inr helper)"

text \<open>The outcome of a method that changes the helper: the helper and a returned error, or a
  loop that does not end (\<^const>\<open>None\<close>).\<close>

definition processPendingResults :: "hash_fn \<Rightarrow> serialize_fn \<Rightarrow> RangeQueryResultsHelper
    \<Rightarrow> (RangeQueryResultsHelper \<times> go_err option) option" where
  "processPendingResults H S helper =
     (case S (pendingResults helper) of
        Inl err \<Rightarrow> Some (helper, Some err)
      | Inr b \<Rightarrow>
          let helper1 = helper\<lparr>pendingResults := []\<rparr>
          in case H b of
               Inl err \<Rightarrow> Some (helper1, Some err)
             | Inr hash \<Rightarrow>
                 (case h_mt helper1 of
                    None \<Rightarrow> Some (helper1, Some (GoPanic ''nil pointer dereference''))
                  | Some m \<Rightarrow> map_option (\<lambda>(m', _). (helper1\<lparr>h_mt := Some m'\<rparr>, None)) (mt_update H m hash)))"

definition AddResult :: "hash_fn \<Rightarrow> serialize_fn \<Rightarrow> RangeQueryResultsHelper \<Rightarrow> KVRead
    \<Rightarrow> (RangeQueryResultsHelper \<times> go_err option) option" where
  "AddResult H S helper kvRead =
     (let helper1 = helper\<lparr>pendingResults := pendingResults helper @ [kvRead]\<rparr>
      in if hashingEnabled helper1
            \<and> (word_of_nat (length (pendingResults helper1)) :: uint32) > h_maxDegree helper1
         then processPendingResults H S helper1
         else Some (helper1, None))"

definition helper_Done :: "hash_fn \<Rightarrow> serialize_fn \<Rightarrow> RangeQueryResultsHelper
    \<Rightarrow> (RangeQueryResultsHelper \<times> (KVRead list \<times> QueryReadsMerkleSummary option) res) option" where
  "helper_Done H S helper =
     (if \<not> hashingEnabled helper then Some (helper, Inr (pendingResults helper, None))
      else case h_mt helper of
        None \<Rightarrow> Some (helper, Inl (GoPanic ''nil pointer dereference''))
      | Some m0 \<Rightarrow>
          if mt_isEmpty m0 then Some (helper, Inr (pendingResults helper, None))
          else case (if pendingResults helper \<noteq> [] then processPendingResults H S helper
                     else Some (helper, None)) of
            None \<Rightarrow> None
          | Some (helper1, Some err) \<Rightarrow> Some (helper1, Inl err)
          | Some (helper1, None) \<Rightarrow>
              (case h_mt helper1 of
                 None \<Rightarrow> Some (helper1, Inl (GoPanic ''nil pointer dereference''))
               | Some m \<Rightarrow>
                   let m' = fst (mt_done H m)
                   in Some (helper1\<lparr>h_mt := Some m'\<rparr>, Inr (pendingResults helper1, Some (getSummery m')))))"

definition GetMerkleSummary :: "RangeQueryResultsHelper \<Rightarrow> QueryReadsMerkleSummary option res" where
  "GetMerkleSummary helper =
     (if \<not> hashingEnabled helper then Inr None
      else case h_mt helper of
        None \<Rightarrow> Inl (GoPanic ''nil pointer dereference'')
      | Some m \<Rightarrow> Inr (Some (getSummery m)))"

section \<open>How the top level of the tree grows\<close>

text \<open>Nothing is kept above the maximal level, and the degree is one \<^const>\<open>newMerkleTree\<close>
  accepts.\<close>

definition mt_inv :: "merkleTree \<Rightarrow> bool" where
  "mt_inv m \<longleftrightarrow> 1 \<le> maxLevel m \<and> 2 \<le> mt_maxDegree m \<and> (\<forall>l > maxLevel m. level m l = [])"

definition mt_top :: "merkleTree \<Rightarrow> nat \<times> bytes list" where
  "mt_top m = (maxLevel m, level m (maxLevel m))"

text \<open>One step leaves the top level alone, adds a hash to it or starts the next level.\<close>

definition top_carry :: "nat \<times> bytes list \<Rightarrow> nat \<times> bytes list \<Rightarrow> bool" where
  "top_carry t t' \<longleftrightarrow> t' = t \<or> (\<exists>x. t' = (fst t + 1, [x]))"

definition top_step :: "nat \<times> bytes list \<Rightarrow> nat \<times> bytes list \<Rightarrow> bool" where
  "top_step t t' \<longleftrightarrow> top_carry t t' \<or> (\<exists>x. t' = (fst t, snd t @ [x]))"

text \<open>The order in which the top levels of a growing tree appear.\<close>

definition top_le :: "nat \<times> bytes list \<Rightarrow> nat \<times> bytes list \<Rightarrow> bool" where
  "top_le t t' \<longleftrightarrow> fst t < fst t' \<or> fst t = fst t' \<and> prefix (snd t) (snd t')"

lemma top_le_refl [simp]: "top_le t t"
  by (simp add: top_le_def)

lemma top_le_trans [trans]: "top_le a b \<Longrightarrow> top_le b c \<Longrightarrow> top_le a c"
  by (auto simp: top_le_def)

lemma top_step_le: "top_step a b \<Longrightarrow> top_le a b"
  by (auto simp: top_step_def top_carry_def top_le_def)

lemma level_simps [simp]:
  "level (m\<lparr>tree := map_put l hs t\<rparr>) l' = (if l' = l then hs else level (m\<lparr>tree := t\<rparr>) l')"
  "level (m\<lparr>tree := map_del l t\<rparr>) l' = (if l' = l then [] else level (m\<lparr>tree := t\<rparr>) l')"
  "level (m\<lparr>tree := tree m\<rparr>) l' = level m l'"
  "level (m\<lparr>maxLevel := k\<rparr>) l' = level m l'"
  "level (m\<lparr>tree := t, maxLevel := k\<rparr>) l' = level (m\<lparr>tree := t\<rparr>) l'"
  by (simp_all add: level_def)

lemma update_loop_stop:
  "(word_of_nat (length (level m c)) :: uint32) \<le> mt_maxDegree m \<Longrightarrow> 0 < fuel
     \<Longrightarrow> update_loop H fuel m c = Some (m, None)"
  by (cases fuel) (simp_all add: Let_def)

text \<open>The loop ends within its fuel.\<close>

lemma update_loop_enough:
  assumes "mt_inv m" "c \<le> maxLevel m" "maxLevel m + 2 - c \<le> fuel"
  shows "\<exists>m' e. update_loop H fuel m c = Some (m', e) \<and> mt_inv m' \<and> mt_maxDegree m' = mt_maxDegree m
    \<and> (if c < maxLevel m then top_step (mt_top m) (mt_top m') else top_carry (mt_top m) (mt_top m'))"
  using assms
proof (induction fuel arbitrary: m c)
  case (Suc fuel)
  let ?hs = "level m c"
  have refl: ?case if "update_loop H (Suc fuel) m c = Some (m, e)" for e
    using that Suc.prems(1) by (auto simp: top_step_def top_carry_def)
  show ?case
  proof (cases "(word_of_nat (length ?hs) :: uint32) \<le> mt_maxDegree m")
    case True
    then show ?thesis by (intro refl) (simp add: Let_def)
  next
    case big: False
    show ?thesis
    proof (cases "computeCombinedHash H ?hs")
      case (Inl err)
      then show ?thesis using big by (intro refl) (simp add: Let_def)
    next
      case (Inr h)
      define m1 where "m1 = m\<lparr>tree := map_put (c + 1) (level m (c + 1) @ [h]) (map_del c (tree m)),
                  maxLevel := max (maxLevel m) (c + 1)\<rparr>"
      have run: "update_loop H (Suc fuel) m c = update_loop H fuel m1 (c + 1)"
        using big Inr by (simp add: Let_def max_def not_less m1_def)
      have m1: "maxLevel m1 = max (maxLevel m) (c + 1)" "mt_maxDegree m1 = mt_maxDegree m"
        "level m1 l = (if l = c + 1 then level m (c + 1) @ [h] else if l = c then [] else level m l)" for l
        by (simp_all add: m1_def)
      have inv: "mt_inv m1" using Suc.prems by (auto simp: mt_inv_def m1 max_def)
      show ?thesis
      proof (cases "c < maxLevel m")
        case True
        then have M: "maxLevel m1 = maxLevel m" by (simp add: m1)
        have "maxLevel m1 + 2 - (c + 1) \<le> fuel" "c + 1 \<le> maxLevel m1"
          using M Suc.prems(3) True by simp_all
        from Suc.IH[OF inv this(2,1)] obtain m' e where
          r: "update_loop H fuel m1 (c + 1) = Some (m', e)" "mt_inv m'" "mt_maxDegree m' = mt_maxDegree m"
          "if c + 1 < maxLevel m then top_step (mt_top m1) (mt_top m') else top_carry (mt_top m1) (mt_top m')"
          unfolding M m1(2) by blast
        have "top_step (mt_top m) (mt_top m')"
          using r(4) True M
          by (cases "c + 1 = maxLevel m") (auto simp: mt_top_def m1(3) top_step_def top_carry_def)
        then show ?thesis using r run True by auto
      next
        case False
        then have c: "c = maxLevel m" using Suc.prems(2) by simp
        then have one: "level m1 (c + 1) = [h]" using Suc.prems(1) by (simp add: mt_inv_def m1)
        have "(1 :: uint32) \<le> mt_maxDegree m"
          using Suc.prems(1) by (simp add: mt_inv_def word_le_nat_alt)
        then have "update_loop H fuel m1 (c + 1) = Some (m1, None)"
          using Suc.prems(3) c one by (intro update_loop_stop) (simp_all add: m1)
        then show ?thesis using run inv c one by (simp add: top_carry_def mt_top_def m1)
      qed
    qed
  qed
qed simp

lemma mt_update_top:
  assumes "mt_inv m"
  shows "\<exists>m' e. mt_update H m x = Some (m', e) \<and> mt_inv m' \<and> mt_maxDegree m' = mt_maxDegree m
    \<and> top_step (mt_top m) (mt_top m') \<and> \<not> mt_isEmpty m'"
proof -
  define m0 where "m0 = m\<lparr>tree := map_put leafLevel (level m leafLevel @ [x]) (tree m)\<rparr>"
  have m0: "maxLevel m0 = maxLevel m" "mt_maxDegree m0 = mt_maxDegree m"
    "level m0 l = (if l = 1 then level m 1 @ [x] else level m l)" for l
    by (simp_all add: m0_def leafLevel_def)
  have M: "1 \<le> maxLevel m" using assms by (simp add: mt_inv_def)
  have "mt_inv m0" using assms by (simp add: mt_inv_def m0)
  from update_loop_enough[OF this, of 1 "maxLevel m + 1" H] M obtain m' e where
    r: "update_loop H (maxLevel m + 1) m0 1 = Some (m', e)" "mt_inv m'" "mt_maxDegree m' = mt_maxDegree m"
    "if 1 < maxLevel m then top_step (mt_top m0) (mt_top m') else top_carry (mt_top m0) (mt_top m')"
    unfolding m0(1,2) by auto
  have "top_step (mt_top m) (mt_top m')"
    using r(4) M by (cases "maxLevel m = 1") (auto simp: mt_top_def m0 top_step_def top_carry_def)
  moreover have "\<not> mt_isEmpty m'"
    using r(2,4) M by (cases "maxLevel m = 1")
      (auto simp: mt_top_def m0 top_step_def top_carry_def mt_isEmpty_def mt_inv_def)
  ultimately show ?thesis using r unfolding mt_update_def m0_def leafLevel_def by blast
qed

definition done_hash :: "hash_fn \<Rightarrow> bytes list \<Rightarrow> bytes res" where
  "done_hash H hs = (if length hs = 1 then Inr (hs ! 0) else computeCombinedHash H hs)"

lemma done_loop_unfold:
  "\<not> c < maxLevel m \<Longrightarrow> done_loop H m c = (m, None)"
  "c < maxLevel m \<Longrightarrow> level m c = [] \<Longrightarrow> done_loop H m c = done_loop H m (c + 1)"
  "c < maxLevel m \<Longrightarrow> level m c \<noteq> [] \<Longrightarrow> done_hash H (level m c) = Inl err \<Longrightarrow> done_loop H m c = (m, Some err)"
  "c < maxLevel m \<Longrightarrow> level m c \<noteq> [] \<Longrightarrow> done_hash H (level m c) = Inr h \<Longrightarrow> done_loop H m c =
     done_loop H (m\<lparr>tree := map_put (c + 1) (level m (c + 1) @ [h]) (map_del c (tree m))\<rparr>) (c + 1)"
  by (subst done_loop.simps, simp add: Let_def done_hash_def)+

lemma done_loop_top:
  assumes "mt_inv m" "c \<le> maxLevel m" "done_loop H m c = (m', e)"
  shows "mt_inv m' \<and> maxLevel m' = maxLevel m \<and> mt_maxDegree m' = mt_maxDegree m
    \<and> (level m' (maxLevel m) = level m (maxLevel m)
      \<or> c < maxLevel m \<and> (\<exists>x. level m' (maxLevel m) = level m (maxLevel m) @ [x]))"
  using assms
proof (induction "maxLevel m - c" arbitrary: m c rule: less_induct)
  case less
  show ?case
  proof (cases "c < maxLevel m")
    case False
    then show ?thesis using less.prems by (simp add: done_loop_unfold)
  next
    case lt: True
    show ?thesis
    proof (cases "level m c = []")
      case True
      with less.hyps[of m "c + 1"] less.prems lt show ?thesis by (auto simp: done_loop_unfold)
    next
      case ne: False
      show ?thesis
      proof (cases "done_hash H (level m c)")
        case (Inl err)
        then show ?thesis using lt ne less.prems by (simp add: done_loop_unfold)
      next
        case (Inr h)
        define m1 where "m1 = m\<lparr>tree := map_put (c + 1) (level m (c + 1) @ [h]) (map_del c (tree m))\<rparr>"
        have m1: "maxLevel m1 = maxLevel m" "mt_maxDegree m1 = mt_maxDegree m"
          "level m1 l = (if l = c + 1 then level m (c + 1) @ [h] else if l = c then [] else level m l)" for l
          by (simp_all add: m1_def)
        have inv: "mt_inv m1" using less.prems(1) lt by (simp add: mt_inv_def m1)
        have "done_loop H m1 (c + 1) = (m', e)"
          using done_loop_unfold(4)[OF lt ne Inr] less.prems(3) by (simp add: m1_def)
        with less.hyps[of m1 "c + 1"] inv lt show ?thesis
          by (cases "c + 1 = maxLevel m") (auto simp: m1)
      qed
    qed
  qed
qed

lemma mt_done_top:
  assumes "mt_inv m"
  shows "top_le (mt_top m) (mt_top (fst (mt_done H m)))" "mt_maxDegree (fst (mt_done H m)) = mt_maxDegree m"
    "maxLevel (fst (mt_done H m)) \<le> maxLevel m + 1"
proof -
  obtain m1 e where d: "done_loop H m leafLevel = (m1, e)" by force
  have "leafLevel \<le> maxLevel m" using assms by (simp add: mt_inv_def leafLevel_def)
  from done_loop_top[OF assms this d] have m1: "mt_inv m1" "maxLevel m1 = maxLevel m"
    "mt_maxDegree m1 = mt_maxDegree m" "prefix (level m (maxLevel m)) (level m1 (maxLevel m))" by auto
  show "top_le (mt_top m) (mt_top (fst (mt_done H m)))"
    using d m1 by (auto simp: mt_done_def Let_def mt_top_def top_le_def split: option.splits sum.splits)
  show "mt_maxDegree (fst (mt_done H m)) = mt_maxDegree m" "maxLevel (fst (mt_done H m)) \<le> maxLevel m + 1"
    using d m1 by (auto simp: mt_done_def Let_def split: option.splits sum.splits)
qed

section \<open>Feeding results to the helper\<close>

definition helper_inv :: "RangeQueryResultsHelper \<Rightarrow> bool" where
  "helper_inv h \<longleftrightarrow> hashingEnabled h \<and> (\<exists>m. h_mt h = Some m \<and> mt_inv m)"

definition helper_top :: "RangeQueryResultsHelper \<Rightarrow> nat \<times> bytes list" where
  "helper_top h = mt_top (the (h_mt h))"

abbreviation helper_degree :: "RangeQueryResultsHelper \<Rightarrow> uint32" where
  "helper_degree h \<equiv> mt_maxDegree (the (h_mt h))"

lemma processPendingResults_top:
  assumes "helper_inv h"
  shows "\<exists>h' e. processPendingResults H S h = Some (h', e) \<and> helper_inv h'
    \<and> top_step (helper_top h) (helper_top h') \<and> helper_degree h' = helper_degree h"
proof -
  obtain m where m: "hashingEnabled h" "h_mt h = Some m" "mt_inv m" using assms by (auto simp: helper_inv_def)
  have refl: "top_step t t" for t by (simp add: top_step_def top_carry_def)
  show ?thesis
  proof (cases "S (pendingResults h)")
    case (Inl e)
    then show ?thesis using assms by (simp add: processPendingResults_def refl)
  next
    case (Inr b)
    show ?thesis
    proof (cases "H b")
      case (Inl e)
      then show ?thesis using Inr m by (simp add: processPendingResults_def refl helper_inv_def helper_top_def)
    next
      case (Inr x)
      from mt_update_top[OF m(3), of H x] show ?thesis using Inr \<open>S _ = Inr b\<close> m
        by (force simp: processPendingResults_def helper_inv_def helper_top_def)
    qed
  qed
qed

lemma AddResult_top:
  assumes "helper_inv h"
  shows "\<exists>h' e. AddResult H S h r = Some (h', e) \<and> helper_inv h'
    \<and> top_step (helper_top h) (helper_top h') \<and> helper_degree h' = helper_degree h"
proof -
  let ?h = "h\<lparr>pendingResults := pendingResults h @ [r]\<rparr>"
  have h: "helper_inv ?h" "helper_top ?h = helper_top h" "helper_degree ?h = helper_degree h"
    using assms by (simp_all add: helper_inv_def helper_top_def)
  then show ?thesis using processPendingResults_top[OF h(1), of H S]
    by (simp add: AddResult_def Let_def top_step_def top_carry_def)
qed

text \<open>All results of a query fed one after the other, errors of \<^verbatim>\<open>AddResult\<close> being ignored
  as both callers do.\<close>

fun feed :: "hash_fn \<Rightarrow> serialize_fn \<Rightarrow> RangeQueryResultsHelper \<Rightarrow> KVRead list
    \<Rightarrow> RangeQueryResultsHelper option" where
  "feed H S h [] = Some h"
| "feed H S h (r # rs) = (case AddResult H S h r of None \<Rightarrow> None | Some (h', _) \<Rightarrow> feed H S h' rs)"

lemma helper_inv_New:
  assumes "NewRangeQueryResultsHelper True d = Inr h"
  shows "helper_inv h" "helper_top h = (1, [])" "helper_degree h = d"
  using assms by (auto simp: NewRangeQueryResultsHelper_def newMerkleTree_def helper_inv_def
      helper_top_def mt_inv_def mt_top_def level_def split: if_splits)

lemma feed_top:
  assumes "helper_inv h"
  shows "\<exists>h'. feed H S h rs = Some h' \<and> helper_inv h' \<and> top_le (helper_top h) (helper_top h')
    \<and> fst (helper_top h') \<le> fst (helper_top h) + length rs \<and> helper_degree h' = helper_degree h"
  using assms
proof (induction rs arbitrary: h)
  case (Cons r rs)
  from AddResult_top[OF Cons.prems, of H S r] obtain h1 e where h1: "AddResult H S h r = Some (h1, e)"
    "helper_inv h1" "top_step (helper_top h) (helper_top h1)" "helper_degree h1 = helper_degree h" by blast
  from Cons.IH[OF h1(2)] obtain h' where h': "feed H S h1 rs = Some h'" "helper_inv h'"
    "top_le (helper_top h1) (helper_top h')"
    "fst (helper_top h') \<le> fst (helper_top h1) + length rs" "helper_degree h' = helper_degree h1" by blast
  have "fst (helper_top h1) \<le> fst (helper_top h) + 1"
    using h1(3) by (auto simp: top_step_def top_carry_def)
  then show ?case using h1 h' top_le_trans[OF top_step_le[OF h1(3)] h'(3)] by simp
qed simp

lemma helper_Done_total: "helper_inv h \<Longrightarrow> \<exists>h' r. helper_Done H S h = Some (h', r)"
  using processPendingResults_top[of h H S]
  by (auto simp: helper_inv_def helper_Done_def Let_def split: option.splits)

lemma helper_Done_top:
  assumes "helper_inv h" "helper_Done H S h = Some (h', Inr (p, Some ms))"
  shows "\<exists>m. ms = getSummery m \<and> top_le (helper_top h) (mt_top m) \<and> mt_maxDegree m = helper_degree h
    \<and> maxLevel m \<le> fst (helper_top h) + 2"
proof -
  have fin: "\<exists>m. ms = getSummery m \<and> top_le (helper_top h1) (mt_top m) \<and> mt_maxDegree m = helper_degree h1
      \<and> maxLevel m \<le> fst (helper_top h1) + 1"
    if "helper_inv h1" "h_mt h1 = Some m1" "ms = getSummery (fst (mt_done H m1))" for h1 m1
    using that mt_done_top[of m1 H]
    by (intro exI[of _ "fst (mt_done H m1)"]) (auto simp: helper_inv_def helper_top_def mt_top_def)
  obtain m0 where m0: "hashingEnabled h" "h_mt h = Some m0" "mt_inv m0"
    using assms(1) by (auto simp: helper_inv_def)
  have ne: "\<not> mt_isEmpty m0" using assms(2) m0 by (auto simp: helper_Done_def split: if_splits)
  show ?thesis
  proof (cases "pendingResults h = []")
    case True
    then have "ms = getSummery (fst (mt_done H m0))"
      using assms(2) m0 ne by (auto simp: helper_Done_def Let_def)
    from fin[OF assms(1) m0(2) this] show ?thesis by fastforce
  next
    case False
    from processPendingResults_top[OF assms(1), of H S] obtain h1 e where h1:
      "processPendingResults H S h = Some (h1, e)" "helper_inv h1"
      "top_step (helper_top h) (helper_top h1)" "helper_degree h1 = helper_degree h" by blast
    obtain m1 where m1: "h_mt h1 = Some m1" using h1(2) by (auto simp: helper_inv_def)
    have "ms = getSummery (fst (mt_done H m1))"
      using assms(2) m0 ne False h1(1) m1 by (auto simp: helper_Done_def Let_def split: option.splits)
    from fin[OF h1(2) m1 this] obtain m where m: "ms = getSummery m" "top_le (helper_top h1) (mt_top m)"
      "mt_maxDegree m = helper_degree h1" "maxLevel m \<le> fst (helper_top h1) + 1" by blast
    have "fst (helper_top h1) \<le> fst (helper_top h) + 1"
      using h1(3) by (auto simp: top_step_def top_carry_def)
    then show ?thesis using m h1(4) top_le_trans[OF top_step_le[OF h1(3)] m(2)] by fastforce
  qed
qed

text \<open>The summary a query is recorded with: \<^const>\<open>None\<close> when no summary is built.\<close>

definition query_summary ::
  "hash_fn \<Rightarrow> serialize_fn \<Rightarrow> uint32 \<Rightarrow> KVRead list \<Rightarrow> QueryReadsMerkleSummary option res" where
  "query_summary H S d rs =
     res_bind (NewRangeQueryResultsHelper True d) (\<lambda>h.
       case feed H S h rs of
         None \<Rightarrow> Inl GoDiverge
       | Some h' \<Rightarrow> (case helper_Done H S h' of
           None \<Rightarrow> Inl GoDiverge
         | Some (_, r) \<Rightarrow> res_bind r (\<lambda>(_, ms). Inr ms)))"

section \<open>What is recorded\<close>

text \<open>A hash and a serialisation that do not fail.\<close>

definition total_fn :: "('a \<Rightarrow> 'b res) \<Rightarrow> bool" where
  "total_fn f \<longleftrightarrow> (\<forall>x. \<exists>y. f x = Inr y)"

abbreviation helper_empty :: "RangeQueryResultsHelper \<Rightarrow> bool" where
  "helper_empty h \<equiv> mt_isEmpty (the (h_mt h))"

lemma helper_empty_top: "helper_empty h \<longleftrightarrow> helper_top h = (1, [])"
  by (auto simp: mt_isEmpty_def helper_top_def mt_top_def)

lemma processPendingResults_total:
  assumes "helper_inv h" "total_fn H" "total_fn S"
  shows "\<exists>h'. processPendingResults H S h = Some (h', None) \<and> helper_inv h' \<and> pendingResults h' = []
    \<and> \<not> helper_empty h' \<and> h_maxDegree h' = h_maxDegree h"
proof -
  obtain m where m: "hashingEnabled h" "h_mt h = Some m" "mt_inv m" using assms(1) by (auto simp: helper_inv_def)
  obtain b x where "S (pendingResults h) = Inr b" "H b = Inr x" using assms(2,3) unfolding total_fn_def by metis
  with m mt_update_top[OF m(3), of H x] show ?thesis
    by (force simp: processPendingResults_def helper_inv_def)
qed

lemma AddResult_pending:
  assumes "helper_inv h" "total_fn H" "total_fn S" "AddResult H S h r = Some (h', e)"
  shows "helper_empty h' \<Longrightarrow> helper_empty h \<and> pendingResults h' = pendingResults h @ [r]"
proof -
  assume e: "helper_empty h'"
  let ?h = "h\<lparr>pendingResults := pendingResults h @ [r]\<rparr>"
  have inv: "helper_inv ?h" using assms(1) by (simp add: helper_inv_def)
  from processPendingResults_total[OF inv assms(2,3)] assms(4) e show ?thesis
    by (auto simp: AddResult_def Let_def split: if_splits)
qed

lemma feed_pending:
  assumes "total_fn H" "total_fn S"
  shows "helper_inv h \<Longrightarrow> feed H S h rs = Some h' \<Longrightarrow> helper_empty h'
    \<Longrightarrow> helper_empty h \<and> pendingResults h' = pendingResults h @ rs"
proof (induction rs arbitrary: h)
  case (Cons r rs)
  from AddResult_top[OF Cons.prems(1), of H S r] obtain h1 e where
    h1: "AddResult H S h r = Some (h1, e)" "helper_inv h1" by blast
  with Cons.prems(2) have "feed H S h1 rs = Some h'" by simp
  from Cons.IH[OF h1(2) this Cons.prems(3)] AddResult_pending[OF Cons.prems(1) assms h1(1)]
  show ?case by simp
qed simp

lemma feed_plain:
  "\<not> hashingEnabled h \<Longrightarrow> feed H S h rs = Some (h\<lparr>pendingResults := pendingResults h @ rs\<rparr>)"
  by (induction rs arbitrary: h) (simp_all add: AddResult_def Let_def)

text \<open>The reads are recorded as they are, or as a summary that is the summary of the reads.\<close>

lemma recorded_results:
  assumes "total_fn H" "total_fn S" "NewRangeQueryResultsHelper enable d = Inr h" "feed H S h rs = Some h'"
    and "helper_Done H S h' = Some (h'', Inr (results, hash))"
  shows "hash = None \<and> results = rs
    \<or> (\<exists>ms. hash = Some ms \<and> results = [] \<and> MaxDegree ms = d \<and> query_summary H S d rs = Inr (Some ms))"
proof (cases enable)
  case False
  then have "\<not> hashingEnabled h" "pendingResults h = []"
    using assms(3) by (auto simp: NewRangeQueryResultsHelper_def)
  with feed_plain[of h H S rs] assms(4,5) show ?thesis by (auto simp: helper_Done_def)
next
  case True
  with assms(3) have n: "NewRangeQueryResultsHelper True d = Inr h" by simp
  note inv = helper_inv_New[OF n]
  have p0: "pendingResults h = []"
    using n by (auto simp: NewRangeQueryResultsHelper_def res_bind_eq_Inr)
  from feed_top[OF inv(1), of H S rs] assms(4) inv have inv': "helper_inv h'" "helper_degree h' = d" by auto
  then obtain m where m: "hashingEnabled h'" "h_mt h' = Some m" by (auto simp: helper_inv_def)
  show ?thesis
  proof (cases "helper_empty h'")
    case True
    with feed_pending[OF assms(1,2) inv(1) assms(4)] p0 assms(5) m show ?thesis
      by (auto simp: helper_Done_def)
  next
    case ne: False
    from processPendingResults_total[OF inv'(1) assms(1,2)] obtain h1 where
      h1: "processPendingResults H S h' = Some (h1, None)" "helper_inv h1" "pendingResults h1 = []" by blast
    from assms(5) m ne h1 obtain ms where ms: "results = []" "hash = Some ms"
      by (auto simp: helper_Done_def Let_def helper_inv_def split: if_splits option.splits)
    then have "query_summary H S d rs = Inr (Some ms)"
      using assms(4,5) n by (simp add: query_summary_def)
    moreover have "MaxDegree ms = d"
      using helper_Done_top[OF inv'(1) assms(5)[unfolded ms]] inv'(2) by (auto simp: getSummery_def)
    ultimately show ?thesis using ms by blast
  qed
qed

end
