(* ===== verification/Range_Validator.thy ===== *)
theory Range_Validator
  imports Combined_Iterator Merkle_Results
begin

text \<open>
  The check for phantom reads,
  \<^verbatim>\<open>core/ledger/kvledger/txmgmt/validator/statebasedval/range_query_validator.go\<close>: the raw
  validator compares the recorded reads with what the combined iterator delivers, the hash
  validator rebuilds the Merkle summary and compares it with the recorded one.
\<close>

section \<open>Raw results\<close>

definition convertToVersionHeight :: "kvVersion option \<Rightarrow> Height res" where
  "convertToVersionHeight v =
     (case v of
        None \<Rightarrow> Inl (GoPanic ''nil pointer dereference'')
      | Some w \<Rightarrow> Inr (NewHeight (pv_BlockNum w) (pv_TxNum w)))"

fun raw_loop :: "'s VersionedDB \<Rightarrow> KVRead list \<Rightarrow> VersionedKV option \<Rightarrow> 's combinedIterator \<Rightarrow> bool res" where
  "raw_loop D [] result itr = (if result \<noteq> None then Inr False else Inr True)"
| "raw_loop D (kvRead # rest) result itr =
     (case result of
        None \<Rightarrow> Inr False
      | Some versionedKV \<Rightarrow>
          if kv_Key versionedKV \<noteq> r_Key kvRead then Inr False
          else res_bind (convertToVersionHeight (r_Version kvRead)) (\<lambda>h.
            if \<not> AreSame (Some (Version (kv_VersionedValue versionedKV))) (Some h) then Inr False
            else res_bind (combined_Next D itr) (\<lambda>(result', itr'). raw_loop D rest result' itr')))"

definition rangeQueryResultsValidator_validate ::
  "'s VersionedDB \<Rightarrow> RangeQueryInfo \<Rightarrow> 's combinedIterator \<Rightarrow> bool res" where
  "rangeQueryResultsValidator_validate D rqInfo itr =
     (let rqResults = GetRawReads rqInfo
      in res_bind (combined_Next D itr) (\<lambda>(result, itr').
           if length rqResults = 0 then Inr (result = None)
           else raw_loop D rqResults result itr'))"

section \<open>Hashes\<close>

text \<open>The results still to come, the end key included, bound the loop of the hash validator.\<close>

definition ci_measure_all :: "'s combinedIterator \<Rightarrow> nat" where
  "ci_measure_all itr = ci_measure itr + (if ci_includeEndKey itr \<and> \<not> ci_endKeyServed itr then 1 else 0)"

lemma combined_move_same_end: "combined_move itr = Inr (x, itr') \<Longrightarrow> same_end itr' itr"
  by (auto simp: combined_move_def Let_def res_bind_eq_Inr same_end_def split: if_splits)

lemma combined_Next_measure:
  "combined_Next D itr = Inr (Some kv, itr') \<Longrightarrow> ci_measure_all itr' < ci_measure_all itr"
proof (induction D itr rule: combined_Next.induct)
  case (1 D itr)
  show ?case
  proof (cases "ci_dbItem itr = None \<and> ci_updatesItem itr = None")
    case True
    then have "serveEndKeyIfNeeded D itr = Inr (Some kv, itr')"
      using "1.prems" by (subst (asm) combined_Next.simps) simp
    then show ?thesis
      by (auto simp: serveEndKeyIfNeeded_def res_bind_eq_Inr Let_def ci_measure_all_def ci_measure_def
          split: if_splits option.splits)
  next
    case False
    then obtain item i where m: "combined_move itr = Inr (Some item, i)"
      and n: "if isDelete item then combined_Next D i = Inr (Some kv, itr') else i = itr'"
      using "1.prems" by (subst (asm) combined_Next.simps) (auto simp: res_bind_eq_Inr split: option.splits if_splits)
    have lt: "ci_measure_all i < ci_measure_all itr"
      using combined_move_measure[OF m] False combined_move_same_end[OF m]
      by (auto simp: ci_measure_all_def same_end_def)
    show ?thesis
    proof (cases "isDelete item")
      case True
      with 1(1)[OF False m refl] n lt show ?thesis by auto
    next
      case False
      with n lt show ?thesis by simp
    qed
  qed
qed

function hash_loop :: "'s VersionedDB \<Rightarrow> hash_fn \<Rightarrow> serialize_fn \<Rightarrow> QueryReadsMerkleSummary
    \<Rightarrow> RangeQueryResultsHelper \<Rightarrow> int \<Rightarrow> 's combinedIterator \<Rightarrow> bool res" where
  "hash_loop D H S inMerkle helper lastMatchedIndex itr =
     res_bind (combined_Next D itr) (\<lambda>(result, itr').
       case result of
         None \<Rightarrow>
           (case helper_Done H S helper of
              None \<Rightarrow> Inl GoDiverge
            | Some (_, r) \<Rightarrow> res_bind r (\<lambda>(_, merkle). Inr (MerkleSummary_Equal inMerkle merkle)))
       | Some versionedKV \<Rightarrow>
           (case AddResult H S helper
                   (NewKVRead (kv_Key versionedKV) (Some (Version (kv_VersionedValue versionedKV)))) of
              None \<Rightarrow> Inl GoDiverge
            | Some (helper', _) \<Rightarrow>
                res_bind (GetMerkleSummary helper') (\<lambda>summary.
                  case summary of
                    None \<Rightarrow> Inl (GoPanic ''nil pointer dereference'')
                  | Some merkle \<Rightarrow>
                      if MaxLevel merkle < MaxLevel inMerkle
                      then hash_loop D H S inMerkle helper' lastMatchedIndex itr'
                      else if lastMatchedIndex = int (length (MaxLevelHashes merkle)) - 1
                      then hash_loop D H S inMerkle helper' lastMatchedIndex itr'
                      else if length (MaxLevelHashes merkle) > length (MaxLevelHashes inMerkle)
                      then Inr False
                      else res_bind (index_slice (MaxLevelHashes merkle) (lastMatchedIndex + 1)) (\<lambda>a.
                           res_bind (index_slice (MaxLevelHashes inMerkle) (lastMatchedIndex + 1)) (\<lambda>b.
                             if a \<noteq> b then Inr False
                             else hash_loop D H S inMerkle helper' (lastMatchedIndex + 1) itr')))))"
  by auto
termination
  by (relation "measure (\<lambda>(D, H, S, inMerkle, helper, l, itr). ci_measure_all itr)")
    (auto intro: combined_Next_measure)

declare hash_loop.simps [simp del]

text \<open>\<^verbatim>\<open>init\<close> leaves the helper \<^verbatim>\<open>nil\<close> when the recorded degree is too small, and its error
  is not looked at.\<close>

definition rangeQueryHashValidator_validate :: "'s VersionedDB \<Rightarrow> hash_fn \<Rightarrow> serialize_fn
    \<Rightarrow> QueryReadsMerkleSummary \<Rightarrow> 's combinedIterator \<Rightarrow> bool res" where
  "rangeQueryHashValidator_validate D H S inMerkle itr =
     (case NewRangeQueryResultsHelper True (MaxDegree inMerkle) of
        Inl _ \<Rightarrow> res_bind (combined_Next D itr) (\<lambda>_. Inl (GoPanic ''nil pointer dereference''))
      | Inr helper \<Rightarrow> hash_loop D H S inMerkle helper (- 1) itr)"

section \<open>The raw validator accepts exactly the recorded results\<close>

definition kv_read :: "VersionedKV \<Rightarrow> KVRead" where
  "kv_read kv = NewKVRead (kv_Key kv) (Some (Version (kv_VersionedValue kv)))"

definition delivers_from :: "'s VersionedDB \<Rightarrow> VersionedKV option \<Rightarrow> 's combinedIterator \<Rightarrow> VersionedKV list \<Rightarrow> bool" where
  "delivers_from D result itr kvs = (case result of
     None \<Rightarrow> kvs = []
   | Some kv \<Rightarrow> kvs \<noteq> [] \<and> hd kvs = kv \<and> delivers (combined_Next D) itr (tl kvs))"

lemma delivers_Next:
  assumes "delivers (combined_Next D) itr kvs"
  shows "\<exists>result itr'. combined_Next D itr = Inr (result, itr') \<and> delivers_from D result itr' kvs"
  using assms by cases (auto simp: delivers_from_def)

lemma convertToVersionHeight_eq:
  "convertToVersionHeight (Some w) = Inr h \<longleftrightarrow> newProtoVersion (Some h) = Some w"
  by (auto simp: convertToVersionHeight_def newProtoVersion_def NewHeight_def)

lemma raw_loop_result:
  assumes "delivers_from D result itr kvs" "raw_loop D reads result itr = Inr b"
  shows "b \<longleftrightarrow> reads = map kv_read kvs"
  using assms
proof (induction reads arbitrary: result itr kvs)
  case Nil
  then show ?case by (auto simp: delivers_from_def split: option.splits if_splits)
next
  case (Cons r reads)
  show ?case
  proof (cases result)
    case None
    then show ?thesis using Cons.prems by (auto simp: delivers_from_def)
  next
    case (Some kv)
    then obtain l where l: "kvs = kv # l" "delivers (combined_Next D) itr l"
      using Cons.prems(1) by (cases kvs) (auto simp: delivers_from_def)
    from delivers_Next[OF l(2)] obtain res itr' where
      n: "combined_Next D itr = Inr (res, itr')" "delivers_from D res itr' l" by blast
    show ?thesis
    proof (cases "r = kv_read kv")
      case True
      then have "raw_loop D reads res itr' = Inr b"
        using Cons.prems(2) Some n(1)
        by (auto simp: kv_read_def NewKVRead_def res_bind_eq_Inr convertToVersionHeight_def
            newProtoVersion_def NewHeight_def split: if_splits)
      from Cons.IH[OF n(2) this] show ?thesis using True l(1) by simp
    next
      case False
      then have "\<not> b"
        using Cons.prems(2) Some n(1)
        by (cases r; cases "r_Version r") (auto simp: kv_read_def NewKVRead_def res_bind_eq_Inr convertToVersionHeight_def
            newProtoVersion_def NewHeight_def split: if_splits)
      then show ?thesis using False l(1) by simp
    qed
  qed
qed

lemma raw_loop_total:
  assumes "delivers_from D result itr kvs" "\<forall>r \<in> set reads. r_Version r \<noteq> None"
  shows "\<exists>b. raw_loop D reads result itr = Inr b"
  using assms
proof (induction reads arbitrary: result itr kvs)
  case (Cons r reads)
  show ?case
  proof (cases result)
    case (Some kv)
    then obtain l where "delivers (combined_Next D) itr l"
      using Cons.prems(1) by (auto simp: delivers_from_def)
    from delivers_Next[OF this] obtain res itr' where
      "combined_Next D itr = Inr (res, itr')" "delivers_from D res itr' l" by blast
    with Cons Some show ?thesis by (fastforce simp: convertToVersionHeight_def)
  qed auto
qed auto

lemma raw_validate_result:
  assumes "delivers (combined_Next D) itr kvs" "rangeQueryResultsValidator_validate D rq itr = Inr b"
  shows "b \<longleftrightarrow> GetRawReads rq = map kv_read kvs"
proof -
  from delivers_Next[OF assms(1)] obtain res itr' where
    n: "combined_Next D itr = Inr (res, itr')" "delivers_from D res itr' kvs" by blast
  then show ?thesis using assms(2) raw_loop_result[OF n(2)]
    by (cases "GetRawReads rq = []")
      (auto simp: rangeQueryResultsValidator_validate_def Let_def delivers_from_def split: option.splits)
qed

lemma raw_validate_total:
  assumes "delivers (combined_Next D) itr kvs" "\<forall>r \<in> set (GetRawReads rq). r_Version r \<noteq> None"
  shows "\<exists>b. rangeQueryResultsValidator_validate D rq itr = Inr b"
proof -
  from delivers_Next[OF assms(1)] obtain res itr' where
    n: "combined_Next D itr = Inr (res, itr')" "delivers_from D res itr' kvs" by blast
  then show ?thesis using raw_loop_total[OF n(2) assms(2)]
    by (auto simp: rangeQueryResultsValidator_validate_def Let_def)
qed

section \<open>The hash validator compares the summaries\<close>

text \<open>The outcome of the helper after it is fed with the reads.\<close>

definition fed_summary :: "hash_fn \<Rightarrow> serialize_fn \<Rightarrow> RangeQueryResultsHelper \<Rightarrow> KVRead list
    \<Rightarrow> QueryReadsMerkleSummary option res" where
  "fed_summary H S h rs = (case feed H S h rs of
     None \<Rightarrow> Inl GoDiverge
   | Some h' \<Rightarrow> (case helper_Done H S h' of
       None \<Rightarrow> Inl GoDiverge
     | Some (_, r) \<Rightarrow> res_bind r (\<lambda>(_, ms). Inr ms)))"

lemma query_summary_eq:
  "NewRangeQueryResultsHelper True d = Inr h \<Longrightarrow> query_summary H S d rs = fed_summary H S h rs"
  by (simp add: query_summary_def fed_summary_def)

lemma GetMerkleSummary_helper: "helper_inv h \<Longrightarrow> GetMerkleSummary h = Inr (Some (getSummery (the (h_mt h))))"
  by (auto simp: helper_inv_def GetMerkleSummary_def)

lemma hash_loop_Nil:
  "combined_Next D itr = Inr (None, itr') \<Longrightarrow> hash_loop D H S ms h l itr
     = res_bind (fed_summary H S h []) (\<lambda>merkle. Inr (MerkleSummary_Equal ms merkle))"
  by (subst hash_loop.simps) (auto simp: fed_summary_def res_bind_def split: option.splits sum.splits)

text \<open>One round of the loop, the summary of the helper read off its tree.\<close>

lemma hash_loop_Cons:
  assumes "combined_Next D itr = Inr (Some kv, itr')" "AddResult H S h (kv_read kv) = Some (h', e)"
    and "helper_inv h'"
  defines "hs \<equiv> snd (helper_top h')" and "lv \<equiv> (word_of_nat (fst (helper_top h')) :: uint32)"
  shows "hash_loop D H S ms h l itr =
    (if lv < MaxLevel ms \<or> l = int (length hs) - 1 then hash_loop D H S ms h' l itr'
     else if length hs > length (MaxLevelHashes ms) then Inr False
     else res_bind (index_slice hs (l + 1)) (\<lambda>a. res_bind (index_slice (MaxLevelHashes ms) (l + 1)) (\<lambda>b.
       if a \<noteq> b then Inr False else hash_loop D H S ms h' (l + 1) itr')))"
  using assms GetMerkleSummary_helper[OF assms(3)]
  by (subst hash_loop.simps) (auto simp: kv_read_def helper_top_def mt_top_def getSummery_def)

lemma hash_loop_sound:
  assumes "helper_inv h" "delivers (combined_Next D) itr kvs" "hash_loop D H S ms h l itr = Inr True"
  shows "fed_summary H S h (map kv_read kvs) = Inr (Some ms)"
  using assms
proof (induction kvs arbitrary: h l itr)
  case Nil
  then obtain itr' where "combined_Next D itr = Inr (None, itr')" by (auto elim: delivers_NilE)
  then show ?case using Nil.prems(3) by (auto simp: hash_loop_Nil res_bind_eq_Inr)
next
  case (Cons kv kvs)
  from Cons.prems(2) obtain itr' where n: "combined_Next D itr = Inr (Some kv, itr')"
    "delivers (combined_Next D) itr' kvs" by (auto elim: delivers_ConsE)
  from AddResult_top[OF Cons.prems(1)] obtain h' e where
    h': "AddResult H S h (kv_read kv) = Some (h', e)" "helper_inv h'" by blast
  have "\<exists>l'. hash_loop D H S ms h' l' itr' = Inr True"
    using Cons.prems(3) unfolding hash_loop_Cons[OF n(1) h']
    by (auto simp: res_bind_eq_Inr split: if_splits)
  with Cons.IH[OF h'(2) n(2)] h'(1) show ?case by (auto simp: fed_summary_def)
qed

text \<open>The index of the last hash that was compared.\<close>

definition matched :: "nat \<Rightarrow> nat \<times> bytes list \<Rightarrow> int" where
  "matched M t = (if fst t < M then - 1 else int (length (snd t)) - 1)"

lemma prefix_index_slice:
  "prefix xs ys \<Longrightarrow> 0 \<le> i \<Longrightarrow> i < int (length xs) \<Longrightarrow>
     \<exists>a. index_slice xs i = Inr a \<and> index_slice ys i = Inr a"
  by (auto simp: index_slice_def prefix_def nth_append)

lemma hash_loop_complete:
  assumes "helper_inv h" "delivers (combined_Next D) itr kvs"
    and "fed_summary H S h (map kv_read kvs) = Inr (Some ms)"
    and "fst (helper_top h) + length kvs + 2 < 2 ^ 32"
    and "ms = getSummery m" "top_le (helper_top h) (mt_top m)" "maxLevel m < 2 ^ 32"
    and "\<And>rs h'. prefix rs (map kv_read kvs) \<Longrightarrow> feed H S h rs = Some h' \<Longrightarrow> top_le (helper_top h') (mt_top m)"
    and "l = matched (maxLevel m) (helper_top h)"
  shows "hash_loop D H S ms h l itr = Inr True"
  using assms
proof (induction kvs arbitrary: h l itr)
  case Nil
  then obtain itr' where "combined_Next D itr = Inr (None, itr')" by (auto elim: delivers_NilE)
  then show ?case using Nil.prems(3) by (auto simp: hash_loop_Nil res_bind_eq_Inr)
next
  case (Cons kv kvs)
  from Cons.prems(2) obtain itr' where n: "combined_Next D itr = Inr (Some kv, itr')"
    "delivers (combined_Next D) itr' kvs" by (auto elim: delivers_ConsE)
  from AddResult_top[OF Cons.prems(1)] obtain h' e where
    h': "AddResult H S h (kv_read kv) = Some (h', e)" "helper_inv h'"
      "top_step (helper_top h) (helper_top h')" by blast
  define t where "t = helper_top h'"
  have step: "top_step (helper_top h) t" by (simp add: t_def h'(3))
  have le: "top_le t (mt_top m)"
    using Cons.prems(8)[of "[kv_read kv]" h'] h'(1) by (simp add: t_def)
  have small: "fst t < 2 ^ 32" "maxLevel m < 2 ^ 32"
    using step Cons.prems(4,7) by (auto simp: top_step_def top_carry_def)
  have go: "hash_loop D H S ms h' l' itr' = Inr True" if "l' = matched (maxLevel m) t" for l'
  proof (rule Cons.IH[OF h'(2) n(2) _ _ Cons.prems(5) _ Cons.prems(7)])
    show "fed_summary H S h' (map kv_read kvs) = Inr (Some ms)"
      using Cons.prems(3) h'(1) by (simp add: fed_summary_def)
    show "fst (helper_top h') + length kvs + 2 < 2 ^ 32"
      using h'(3) Cons.prems(4) by (auto simp: top_step_def top_carry_def)
    show "top_le (helper_top h'') (mt_top m)" if "prefix rs (map kv_read kvs)" "feed H S h' rs = Some h''" for rs h''
      using Cons.prems(8)[of "kv_read kv # rs" h''] that h'(1) by simp
  qed (use le that in \<open>simp_all add: t_def\<close>)
  have lvl: "(word_of_nat (fst t) :: uint32) < MaxLevel ms \<longleftrightarrow> fst t < maxLevel m"
    using small Cons.prems(5) by (simp add: getSummery_def word_less_nat_alt unat_of_nat)
  have hashes: "MaxLevelHashes ms = snd (mt_top m)" "fst (mt_top m) = maxLevel m"
    using Cons.prems(5) by (simp_all add: getSummery_def mt_top_def)
  show ?case
  proof (cases "fst t < maxLevel m")
    case True
    then have "l = matched (maxLevel m) t"
      using Cons.prems(9) step by (auto simp: matched_def top_step_def top_carry_def)
    then show ?thesis using True lvl go
      by (subst hash_loop_Cons[OF n(1) h'(1,2)]) (simp add: t_def[symmetric])
  next
    case False
    then have eq: "fst t = maxLevel m" "prefix (snd t) (MaxLevelHashes ms)"
      using le hashes by (auto simp: top_le_def)
    consider "l = int (length (snd t)) - 1" | "l + 1 = int (length (snd t)) - 1"
      using step eq(1) Cons.prems(9) by (auto simp: matched_def top_step_def top_carry_def)
    then show ?thesis
    proof cases
      case 1
      then show ?thesis using go lvl eq
        by (subst hash_loop_Cons[OF n(1) h'(1,2)]) (simp add: t_def[symmetric] matched_def)
    next
      case 2
      have "0 \<le> l + 1" using Cons.prems(9) by (simp add: matched_def)
      with 2 have "0 \<le> l + 1" "l + 1 < int (length (snd t))" by simp_all
      from prefix_index_slice[OF eq(2) this] obtain a where
        "index_slice (snd t) (l + 1) = Inr a" "index_slice (MaxLevelHashes ms) (l + 1) = Inr a" by blast
      moreover have "hash_loop D H S ms h' (l + 1) itr' = Inr True"
        by (rule go) (simp add: 2 matched_def eq(1))
      moreover have "l \<noteq> int (length (snd t)) - 1" using 2 by linarith
      ultimately show ?thesis using lvl eq prefix_length_le[OF eq(2)]
        by (subst hash_loop_Cons[OF n(1) h'(1,2)]) (simp add: t_def[symmetric])
    qed
  qed
qed

lemma feed_append: "feed H S h (rs @ rs') = (case feed H S h rs of None \<Rightarrow> None | Some h' \<Rightarrow> feed H S h' rs')"
  by (induction rs arbitrary: h) (auto split: option.splits)

lemma fed_summary_Some:
  assumes "helper_inv h" "fed_summary H S h rs = Inr (Some ms)"
  shows "\<exists>m. ms = getSummery m \<and> top_le (helper_top h) (mt_top m)
    \<and> maxLevel m \<le> fst (helper_top h) + length rs + 2
    \<and> (\<forall>rs' h'. prefix rs' rs \<longrightarrow> feed H S h rs' = Some h' \<longrightarrow> top_le (helper_top h') (mt_top m))"
proof -
  from feed_top[OF assms(1), of H S rs] obtain hf where hf: "feed H S h rs = Some hf" "helper_inv hf"
    "top_le (helper_top h) (helper_top hf)" "fst (helper_top hf) \<le> fst (helper_top h) + length rs" by blast
  obtain hd p where "helper_Done H S hf = Some (hd, Inr (p, Some ms))"
    using assms(2) hf(1) by (auto simp: fed_summary_def res_bind_eq_Inr split: option.splits)
  from helper_Done_top[OF hf(2) this] obtain m where
    m: "ms = getSummery m" "top_le (helper_top hf) (mt_top m)" "maxLevel m \<le> fst (helper_top hf) + 2" by blast
  have "top_le (helper_top h') (mt_top m)" if "prefix rs' rs" "feed H S h rs' = Some h'" for rs' h'
  proof -
    from that(1) obtain l where l: "rs = rs' @ l" by (auto simp: prefix_def)
    from feed_top[OF assms(1), of H S rs'] that(2) have "helper_inv h'" by auto
    from feed_top[OF this, of H S l] l hf(1) that(2) have "top_le (helper_top h') (helper_top hf)"
      by (auto simp: feed_append)
    then show ?thesis using m(2) by (rule top_le_trans)
  qed
  moreover have "maxLevel m \<le> fst (helper_top h) + length rs + 2" using m(3) hf(4) by linarith
  ultimately show ?thesis using m(1) top_le_trans[OF hf(3) m(2)] by blast
qed

lemma hash_validate_complete:
  assumes "delivers (combined_Next D) itr kvs" "length kvs + 4 < 2 ^ 32"
    and "query_summary H S (MaxDegree ms) (map kv_read kvs) = Inr (Some ms)"
  shows "rangeQueryHashValidator_validate D H S ms itr = Inr True"
proof -
  obtain h where h: "NewRangeQueryResultsHelper True (MaxDegree ms) = Inr h"
    using assms(3) by (auto simp: query_summary_def res_bind_eq_Inr)
  note inv = helper_inv_New[OF h]
  have s: "fed_summary H S h (map kv_read kvs) = Inr (Some ms)"
    using assms(3) by (simp add: query_summary_eq[OF h])
  from fed_summary_Some[OF inv(1) s] obtain m where m: "ms = getSummery m" "top_le (helper_top h) (mt_top m)"
    "maxLevel m \<le> fst (helper_top h) + length (map kv_read kvs) + 2"
    "\<forall>rs' h'. prefix rs' (map kv_read kvs) \<longrightarrow> feed H S h rs' = Some h' \<longrightarrow> top_le (helper_top h') (mt_top m)"
    by blast
  have "hash_loop D H S ms h (- 1) itr = Inr True"
  proof (rule hash_loop_complete[OF inv(1) assms(1) s _ m(1,2) _ m(4)[rule_format]])
    show "- 1 = matched (maxLevel m) (helper_top h)"
      by (simp add: matched_def inv(2))
  qed (use m(3) assms(2) inv(2) in simp_all)
  then show ?thesis by (simp add: rangeQueryHashValidator_validate_def h)
qed

lemma hash_validate_sound:
  assumes "delivers (combined_Next D) itr kvs" "rangeQueryHashValidator_validate D H S ms itr = Inr True"
  shows "query_summary H S (MaxDegree ms) (map kv_read kvs) = Inr (Some ms)"
proof -
  obtain h where h: "NewRangeQueryResultsHelper True (MaxDegree ms) = Inr h"
    using assms(2) by (auto simp: rangeQueryHashValidator_validate_def res_bind_eq_Inr split: sum.splits)
  then have "hash_loop D H S ms h (- 1) itr = Inr True"
    using assms(2) by (simp add: rangeQueryHashValidator_validate_def)
  from hash_loop_sound[OF helper_inv_New(1)[OF h] assms(1) this] show ?thesis
    by (simp add: query_summary_eq[OF h])
qed

lemma hash_validate_result:
  assumes "delivers (combined_Next D) itr kvs" "length kvs + 4 < 2 ^ 32"
    and "rangeQueryHashValidator_validate D H S ms itr = Inr b"
  shows "b \<longleftrightarrow> query_summary H S (MaxDegree ms) (map kv_read kvs) = Inr (Some ms)"
  using hash_validate_sound[OF assms(1)] hash_validate_complete[OF assms(1,2)] assms(3) by (cases b) auto

end
