(* ===== verification/Tx_Envelope.thy ===== *)
theory Tx_Envelope
  imports Fabric_Prelude
begin

text \<open>
  The nested messages of a transaction and the accessors of \<^verbatim>\<open>protos/utils\<close>
  (\<^verbatim>\<open>txutils.go\<close>, \<^verbatim>\<open>proputils.go\<close>, \<^verbatim>\<open>commonutils.go\<close>) that unpack them, and the validation
  flags of a block, \<^verbatim>\<open>core/ledger/util/txvalidationflags.go\<close>. The protobuf runtime is
  third-party code: a record of unmarshalling functions is a parameter. A byte field that
  the code compares with \<^verbatim>\<open>nil\<close> is an option.
\<close>

section \<open>Messages\<close>

record Envelope =
  env_Payload :: bytes
  env_Signature :: bytes

record MsgHeader =
  hdr_ChannelHeader :: bytes
  hdr_SignatureHeader :: bytes

record Payload =
  pl_Header :: "MsgHeader option"
  pl_Data :: bytes

record ChannelHeader =
  ch_Type :: int
  ch_ChannelId :: string
  ch_TxId :: string
  ch_Timestamp :: "(int \<times> int) option"

record TransactionAction =
  ta_Payload :: bytes

record ChaincodeActionPayload =
  cap_Action :: "bytes option option"

record ProposalResponsePayload =
  prp_Extension :: "bytes option"

record ChaincodeAction =
  ca_Results :: bytes

record tx_codec =
  unmarshal_Envelope :: "bytes \<Rightarrow> Envelope res"
  unmarshal_Payload :: "bytes \<Rightarrow> Payload res"
  unmarshal_ChannelHeader :: "bytes \<Rightarrow> ChannelHeader res"
  unmarshal_Transaction :: "bytes \<Rightarrow> TransactionAction list res"
  unmarshal_ChaincodeActionPayload :: "bytes \<Rightarrow> ChaincodeActionPayload res"
  unmarshal_ProposalResponsePayload :: "bytes \<Rightarrow> ProposalResponsePayload res"
  unmarshal_ChaincodeAction :: "bytes \<Rightarrow> ChaincodeAction res"

section \<open>Accessors\<close>

definition GetEnvelopeFromBlock :: "tx_codec \<Rightarrow> bytes \<Rightarrow> Envelope res" where
  "GetEnvelopeFromBlock C data = unmarshal_Envelope C data"

definition GetPayload :: "tx_codec \<Rightarrow> Envelope \<Rightarrow> Payload res" where
  "GetPayload C e = unmarshal_Payload C (env_Payload e)"

definition UnmarshalChannelHeader :: "tx_codec \<Rightarrow> bytes \<Rightarrow> ChannelHeader res" where
  "UnmarshalChannelHeader C b = unmarshal_ChannelHeader C b"

definition GetTransaction :: "tx_codec \<Rightarrow> bytes \<Rightarrow> TransactionAction list res" where
  "GetTransaction C b = unmarshal_Transaction C b"

definition GetPayloads ::
  "tx_codec \<Rightarrow> TransactionAction \<Rightarrow> (ChaincodeActionPayload \<times> ChaincodeAction) res" where
  "GetPayloads C txActions =
     res_bind (unmarshal_ChaincodeActionPayload C (ta_Payload txActions)) (\<lambda>ccPayload.
       case cap_Action ccPayload of
         None \<Rightarrow> Inl (GoErr ''no payload in ChaincodeActionPayload'')
       | Some None \<Rightarrow> Inl (GoErr ''no payload in ChaincodeActionPayload'')
       | Some (Some p) \<Rightarrow>
           res_bind (unmarshal_ProposalResponsePayload C p) (\<lambda>pRespPayload.
             case prp_Extension pRespPayload of
               None \<Rightarrow> Inl (GoErr ''response payload is missing extension'')
             | Some ext \<Rightarrow>
                 res_bind (unmarshal_ChaincodeAction C ext) (\<lambda>respPayload.
                   Inr (ccPayload, respPayload))))"

definition GetActionFromEnvelope :: "tx_codec \<Rightarrow> bytes \<Rightarrow> ChaincodeAction res" where
  "GetActionFromEnvelope C envBytes =
     res_bind (GetEnvelopeFromBlock C envBytes) (\<lambda>env.
     res_bind (GetPayload C env) (\<lambda>payl.
     res_bind (GetTransaction C (pl_Data payl)) (\<lambda>actions.
       if actions = [] then Inl (GoErr ''At least one TransactionAction is required'')
       else res_bind (GetPayloads C (hd actions)) (\<lambda>(_, respPayload). Inr respPayload))))"

section \<open>Validation codes and flags\<close>

type_synonym TxValidationCode = int

definition TxValidationCode_VALID :: TxValidationCode where
  "TxValidationCode_VALID = 0"

definition TxValidationCode_MVCC_READ_CONFLICT :: TxValidationCode where
  "TxValidationCode_MVCC_READ_CONFLICT = 11"

definition TxValidationCode_PHANTOM_READ_CONFLICT :: TxValidationCode where
  "TxValidationCode_PHANTOM_READ_CONFLICT = 12"

definition TxValidationCode_NIL_TXACTION :: TxValidationCode where
  "TxValidationCode_NIL_TXACTION = 16"

definition TxValidationCode_INVALID_OTHER_REASON :: TxValidationCode where
  "TxValidationCode_INVALID_OTHER_REASON = 255"

lemmas code_defs = TxValidationCode_VALID_def TxValidationCode_MVCC_READ_CONFLICT_def
  TxValidationCode_PHANTOM_READ_CONFLICT_def TxValidationCode_NIL_TXACTION_def
  TxValidationCode_INVALID_OTHER_REASON_def

type_synonym TxValidationFlags = bytes

definition NewTxValidationFlags :: "nat \<Rightarrow> TxValidationFlags" where
  "NewTxValidationFlags n = replicate n 0"

definition SetFlag :: "TxValidationFlags \<Rightarrow> nat \<Rightarrow> TxValidationCode \<Rightarrow> TxValidationFlags res" where
  "SetFlag obj txIndex flag =
     (if txIndex < length obj then Inr (obj[txIndex := word_of_int flag])
      else Inl (GoPanic ''index out of range''))"

definition Flag :: "TxValidationFlags \<Rightarrow> nat \<Rightarrow> TxValidationCode res" where
  "Flag obj txIndex = res_bind (index_slice obj (int txIndex)) (\<lambda>b. Inr (uint b))"

definition IsSetTo :: "TxValidationFlags \<Rightarrow> nat \<Rightarrow> TxValidationCode \<Rightarrow> bool res" where
  "IsSetTo obj txIndex flag = res_bind (Flag obj txIndex) (\<lambda>f. Inr (f = flag))"

definition IsValid :: "TxValidationFlags \<Rightarrow> nat \<Rightarrow> bool res" where
  "IsValid obj txIndex = IsSetTo obj txIndex TxValidationCode_VALID"

definition IsInvalid :: "TxValidationFlags \<Rightarrow> nat \<Rightarrow> bool res" where
  "IsInvalid obj txIndex = res_bind (IsValid obj txIndex) (\<lambda>v. Inr (\<not> v))"

lemma IsValid_eq: "i < length f \<Longrightarrow> IsValid f i = Inr (f ! i = 0)"
  by (simp add: IsValid_def IsSetTo_def Flag_def index_slice_def code_defs uint_0_iff)

lemma IsInvalid_eq: "i < length f \<Longrightarrow> IsInvalid f i = Inr (f ! i \<noteq> 0)"
  by (simp add: IsInvalid_def IsValid_eq)

lemma IsInvalid_panics: "\<not> i < length f \<Longrightarrow> IsInvalid f i = Inl (GoPanic ''index out of range'')"
  by (simp add: IsInvalid_def IsValid_def IsSetTo_def Flag_def index_slice_def)

end
