(* ===== verification/MVCC_Validator.thy ===== *)
theory MVCC_Validator
  imports Range_Validator Tx_Envelope
begin

text \<open>
  The state based validator,
  \<^verbatim>\<open>core/ledger/kvledger/txmgmt/validator/statebasedval/state_based_validator.go\<close>: the
  multi-version concurrency check of the transactions of a block and the batch of the
  updates of the valid ones. The theorems relate the flags and the batch to a serial
  execution of the valid transactions in block order.
\<close>

section \<open>Blocks\<close>

text \<open>A block as the ledger handles it: the header, the data and the metadata are there, and a missing byte string
  of the header is the empty one.\<close>

record Block =
  blk_Number :: uint64
  blk_Data :: "bytes list"
  blk_Metadata :: "bytes list"
  blk_PreviousHash :: bytes
  blk_DataHash :: bytes

definition BlockMetadataIndex_TRANSACTIONS_FILTER :: nat where
  "BlockMetadataIndex_TRANSACTIONS_FILTER = 2"

definition HeaderType_ENDORSER_TRANSACTION :: int where
  "HeaderType_ENDORSER_TRANSACTION = 3"

text \<open>The environment of the validator: the hash, the serialisations and the messages.\<close>

record val_env =
  ve_hash :: hash_fn
  ve_serialize :: serialize_fn
  ve_proto :: proto_codec
  ve_tx :: tx_codec

section \<open>One transaction\<close>

definition validateKVRead :: "'s VersionedDB \<Rightarrow> 's \<Rightarrow> string \<Rightarrow> KVRead \<Rightarrow> UpdateBatch \<Rightarrow> bool res" where
  "validateKVRead D s ns kvRead upd =
     (if batch_Exists upd ns (r_Key kvRead) then Inr False
      else res_bind (vdb_GetState D s ns (r_Key kvRead)) (\<lambda>versionedValue.
        let committedVersion = (case versionedValue of None \<Rightarrow> None | Some vv \<Rightarrow> Some (Version vv))
        in if \<not> AreSame committedVersion (NewVersion (r_Version kvRead)) then Inr False else Inr True))"

fun validateReadSet :: "'s VersionedDB \<Rightarrow> 's \<Rightarrow> string \<Rightarrow> KVRead list \<Rightarrow> UpdateBatch \<Rightarrow> bool res" where
  "validateReadSet D s ns [] upd = Inr True"
| "validateReadSet D s ns (kvRead # rest) upd =
     res_bind (validateKVRead D s ns kvRead upd) (\<lambda>valid.
       if \<not> valid then Inr valid else validateReadSet D s ns rest upd)"

definition validateRangeQuery ::
  "val_env \<Rightarrow> 's VersionedDB \<Rightarrow> 's \<Rightarrow> string \<Rightarrow> RangeQueryInfo \<Rightarrow> UpdateBatch \<Rightarrow> bool res" where
  "validateRangeQuery E D s ns rangeQueryInfo upd =
     (let includeEndKey = (\<not> rq_ItrExhausted rangeQueryInfo)
      in res_bind (newCombinedIterator D s upd ns (rq_StartKey rangeQueryInfo)
                     (rq_EndKey rangeQueryInfo) includeEndKey) (\<lambda>combinedItr.
           case GetReadsMerkleHashes rangeQueryInfo of
             Some inMerkle \<Rightarrow> rangeQueryHashValidator_validate D (ve_hash E) (ve_serialize E) inMerkle combinedItr
           | None \<Rightarrow> rangeQueryResultsValidator_validate D rangeQueryInfo combinedItr))"

fun validateRangeQueries ::
  "val_env \<Rightarrow> 's VersionedDB \<Rightarrow> 's \<Rightarrow> string \<Rightarrow> RangeQueryInfo list \<Rightarrow> UpdateBatch \<Rightarrow> bool res" where
  "validateRangeQueries E D s ns [] upd = Inr True"
| "validateRangeQueries E D s ns (rqi # rest) upd =
     res_bind (validateRangeQuery E D s ns rqi upd) (\<lambda>valid.
       if \<not> valid then Inr valid else validateRangeQueries E D s ns rest upd)"

fun validateTx_loop ::
  "val_env \<Rightarrow> 's VersionedDB \<Rightarrow> 's \<Rightarrow> NsRwSet list \<Rightarrow> UpdateBatch \<Rightarrow> TxValidationCode res" where
  "validateTx_loop E D s [] upd = Inr TxValidationCode_VALID"
| "validateTx_loop E D s (nsRWSet # rest) upd =
     (let ns = NameSpace nsRWSet in
      res_bind (validateReadSet D s ns (Reads (KvRwSet nsRWSet)) upd) (\<lambda>valid.
        if \<not> valid then Inr TxValidationCode_MVCC_READ_CONFLICT
        else res_bind (validateRangeQueries E D s ns (RangeQueriesInfo (KvRwSet nsRWSet)) upd) (\<lambda>valid.
          if \<not> valid then Inr TxValidationCode_PHANTOM_READ_CONFLICT
          else validateTx_loop E D s rest upd)))"

definition validateTx ::
  "val_env \<Rightarrow> 's VersionedDB \<Rightarrow> 's \<Rightarrow> TxRwSet \<Rightarrow> UpdateBatch \<Rightarrow> TxValidationCode res" where
  "validateTx E D s txRWSet upd = validateTx_loop E D s (NsRwSets txRWSet) upd"

text \<open>The result of \<^verbatim>\<open>validateEndorserTX\<close>: the read-write set when the transaction is valid, and
  its code. A message that cannot be unpacked makes the transaction invalid; a panic while
  unpacking stays a panic.\<close>

definition validateEndorserTX :: "val_env \<Rightarrow> 's VersionedDB \<Rightarrow> 's \<Rightarrow> bytes \<Rightarrow> bool \<Rightarrow> UpdateBatch
    \<Rightarrow> (TxRwSet option \<times> TxValidationCode) res" where
  "validateEndorserTX E D s envBytes doMVCCValidation upd =
     (case GetActionFromEnvelope (ve_tx E) envBytes of
        Inl (GoErr _) \<Rightarrow> Inr (None, TxValidationCode_NIL_TXACTION)
      | Inl p \<Rightarrow> Inl p
      | Inr respPayload \<Rightarrow>
          (case FromProtoBytes (ve_proto E) (ca_Results respPayload) of
             Inl (GoErr _) \<Rightarrow> Inr (None, TxValidationCode_INVALID_OTHER_REASON)
           | Inl p \<Rightarrow> Inl p
           | Inr txRWSet \<Rightarrow>
               if doMVCCValidation
               then res_bind (validateTx E D s txRWSet upd) (\<lambda>txResult.
                      if txResult \<noteq> TxValidationCode_VALID then Inr (None, txResult)
                      else Inr (Some txRWSet, txResult))
               else Inr (Some txRWSet, TxValidationCode_VALID)))"

fun add_writes :: "string \<Rightarrow> KVWrite list \<Rightarrow> Height \<Rightarrow> UpdateBatch \<Rightarrow> UpdateBatch res" where
  "add_writes ns [] txHeight batch = Inr batch"
| "add_writes ns (kvWrite # rest) txHeight batch =
     res_bind (if w_IsDelete kvWrite then Inr (batch_Delete batch ns (w_Key kvWrite) txHeight)
               else batch_Put batch ns (w_Key kvWrite) (w_Value kvWrite) txHeight)
       (add_writes ns rest txHeight)"

fun add_ns_writes :: "NsRwSet list \<Rightarrow> Height \<Rightarrow> UpdateBatch \<Rightarrow> UpdateBatch res" where
  "add_ns_writes [] txHeight batch = Inr batch"
| "add_ns_writes (nsRWSet # rest) txHeight batch =
     res_bind (add_writes (NameSpace nsRWSet) (Writes (KvRwSet nsRWSet)) txHeight batch)
       (add_ns_writes rest txHeight)"

definition addWriteSetToBatch :: "TxRwSet \<Rightarrow> Height \<Rightarrow> UpdateBatch \<Rightarrow> UpdateBatch res" where
  "addWriteSetToBatch txRWSet txHeight batch = add_ns_writes (NsRwSets txRWSet) txHeight batch"

section \<open>The block\<close>

text \<open>The type of the transaction in an envelope.\<close>

definition env_type :: "tx_codec \<Rightarrow> bytes \<Rightarrow> int res" where
  "env_type C envBytes =
     res_bind (GetEnvelopeFromBlock C envBytes) (\<lambda>env.
     res_bind (GetPayload C env) (\<lambda>payload.
       case pl_Header payload of
         None \<Rightarrow> Inl (GoPanic ''nil pointer dereference'')
       | Some hdr \<Rightarrow> res_bind (UnmarshalChannelHeader C (hdr_ChannelHeader hdr)) (\<lambda>chdr. Inr (ch_Type chdr))))"

text \<open>The loop over the transactions. The flags are changed in place, so they are part of the
  outcome even when the loop is left with an error.\<close>

fun validate_loop :: "val_env \<Rightarrow> 's VersionedDB \<Rightarrow> 's \<Rightarrow> bool \<Rightarrow> uint64 \<Rightarrow> nat \<Rightarrow> bytes list
    \<Rightarrow> TxValidationFlags \<Rightarrow> UpdateBatch \<Rightarrow> TxValidationFlags \<times> UpdateBatch res" where
  "validate_loop E D s doMVCC number txIndex [] txsFilter upd = (txsFilter, Inr upd)"
| "validate_loop E D s doMVCC number txIndex (envBytes # rest) txsFilter upd =
     (case IsInvalid txsFilter txIndex of
        Inl e \<Rightarrow> (txsFilter, Inl e)
      | Inr True \<Rightarrow> validate_loop E D s doMVCC number (txIndex + 1) rest txsFilter upd
      | Inr False \<Rightarrow>
        (case env_type (ve_tx E) envBytes of
           Inl e \<Rightarrow> (txsFilter, Inl e)
         | Inr txType \<Rightarrow>
           if txType \<noteq> HeaderType_ENDORSER_TRANSACTION
           then validate_loop E D s doMVCC number (txIndex + 1) rest txsFilter upd
           else
             (case validateEndorserTX E D s envBytes doMVCC upd of
                Inl e \<Rightarrow> (txsFilter, Inl e)
              | Inr (txRWSet, txResult) \<Rightarrow>
                (case SetFlag txsFilter txIndex txResult of
                   Inl e \<Rightarrow> (txsFilter, Inl e)
                 | Inr txsFilter1 \<Rightarrow>
                   (case txRWSet of
                      None \<Rightarrow> validate_loop E D s doMVCC number (txIndex + 1) rest txsFilter1 upd
                    | Some t \<Rightarrow>
                      (case addWriteSetToBatch t (NewHeight number (word_of_nat txIndex)) upd of
                         Inl e \<Rightarrow> (txsFilter1, Inl e)
                       | Inr upd1 \<Rightarrow>
                         (case SetFlag txsFilter1 txIndex TxValidationCode_VALID of
                            Inl e \<Rightarrow> (txsFilter1, Inl e)
                          | Inr txsFilter2 \<Rightarrow>
                              validate_loop E D s doMVCC number (txIndex + 1) rest txsFilter2 upd1)))))))"

definition ValidateAndPrepareBatch :: "val_env \<Rightarrow> 's VersionedDB \<Rightarrow> 's \<Rightarrow> Block \<Rightarrow> bool
    \<Rightarrow> Block \<times> UpdateBatch res" where
  "ValidateAndPrepareBatch E D s block doMVCCValidation =
     (let ix = BlockMetadataIndex_TRANSACTIONS_FILTER in
      if \<not> ix < length (blk_Metadata block) then (block, Inl (GoPanic ''index out of range''))
      else
        let f0 = blk_Metadata block ! ix;
            txsFilter = (if length f0 = 0 then NewTxValidationFlags (length (blk_Data block)) else f0);
            (f, r) = validate_loop E D s doMVCCValidation (blk_Number block) 0 (blk_Data block) txsFilter
                       NewUpdateBatch
        in (block\<lparr>blk_Metadata := (blk_Metadata block)[ix := f]\<rparr>, r))"

section \<open>Serial execution\<close>

text \<open>The contents after the writes of a transaction with the given height.\<close>

type_synonym contents = "string \<Rightarrow> string \<rightharpoonup> VersionedValue"

definition write_one :: "string \<Rightarrow> Height \<Rightarrow> contents \<Rightarrow> KVWrite \<Rightarrow> contents" where
  "write_one ns h m w = m(ns := (m ns)(w_Key w :=
     (if w_IsDelete w then None else Some \<lparr>Value = w_Value w, Version = h\<rparr>)))"

definition apply_tx :: "TxRwSet \<Rightarrow> Height \<Rightarrow> contents \<Rightarrow> contents" where
  "apply_tx t h m =
     foldl (\<lambda>m n. foldl (write_one (NameSpace n) h) m (Writes (KvRwSet n))) m (NsRwSets t)"

text \<open>The reads of a transaction are what a query of the contents returns now.\<close>

definition range_current :: "val_env \<Rightarrow> contents \<Rightarrow> string \<Rightarrow> RangeQueryInfo \<Rightarrow> bool" where
  "range_current E m ns q =
     (let now = map kv_read (range_spec m ns (rq_StartKey q) (rq_EndKey q) (\<not> rq_ItrExhausted q))
      in case GetReadsMerkleHashes q of
           None \<Rightarrow> GetRawReads q = now
         | Some ms \<Rightarrow> query_summary (ve_hash E) (ve_serialize E) (MaxDegree ms) now = Inr (Some ms))"

definition reads_current :: "val_env \<Rightarrow> contents \<Rightarrow> TxRwSet \<Rightarrow> bool" where
  "reads_current E m t \<longleftrightarrow> (\<forall>n \<in> set (NsRwSets t).
     (\<forall>r \<in> set (Reads (KvRwSet n)). NewVersion (r_Version r) = map_option Version (m (NameSpace n) (r_Key r)))
     \<and> (\<forall>q \<in> set (RangeQueriesInfo (KvRwSet n)). range_current E m (NameSpace n) q))"

text \<open>The read-write set of an endorser transaction.\<close>

definition endorser_rwset :: "val_env \<Rightarrow> bytes \<Rightarrow> TxRwSet option" where
  "endorser_rwset E env =
     (if env_type (ve_tx E) env = Inr HeaderType_ENDORSER_TRANSACTION
      then case GetActionFromEnvelope (ve_tx E) env of
             Inr a \<Rightarrow> (case FromProtoBytes (ve_proto E) (ca_Results a) of Inr t \<Rightarrow> Some t | Inl _ \<Rightarrow> None)
           | Inl _ \<Rightarrow> None
      else None)"

definition committed :: "val_env \<Rightarrow> TxValidationFlags \<Rightarrow> nat \<Rightarrow> bytes \<Rightarrow> TxRwSet option" where
  "committed E f i env = (if i < length f \<and> f ! i = 0 then endorser_rwset E env else None)"

text \<open>The transactions that are flagged valid, executed one after the other.\<close>

fun replay :: "val_env \<Rightarrow> uint64 \<Rightarrow> nat \<Rightarrow> bytes list \<Rightarrow> TxValidationFlags \<Rightarrow> contents \<Rightarrow> contents" where
  "replay E num i [] f m = m"
| "replay E num i (env # envs) f m = replay E num (i + 1) envs f
     (case committed E f i env of None \<Rightarrow> m | Some t \<Rightarrow> apply_tx t (NewHeight num (word_of_nat i)) m)"

text \<open>Each of them reads what its predecessors have left.\<close>

fun serial :: "val_env \<Rightarrow> uint64 \<Rightarrow> nat \<Rightarrow> bytes list \<Rightarrow> TxValidationFlags \<Rightarrow> contents \<Rightarrow> bool" where
  "serial E num i [] f m \<longleftrightarrow> True"
| "serial E num i (env # envs) f m \<longleftrightarrow>
     (case committed E f i env of
        None \<Rightarrow> serial E num (i + 1) envs f m
      | Some t \<Rightarrow> reads_current E m t
          \<and> serial E num (i + 1) envs f (apply_tx t (NewHeight num (word_of_nat i)) m))"

section \<open>The writes of a transaction\<close>

lemma overlay_write:
  assumes "(if w_IsDelete w then Inr (batch_Delete b ns (w_Key w) h)
            else batch_Put b ns (w_Key w) (w_Value w) h) = Inr b'"
  shows "overlay m b' = write_one ns h (overlay m b) w" "batch_wf b \<Longrightarrow> batch_wf b'"
    "batch_namespaces b' \<subseteq> insert ns (batch_namespaces b)"
proof -
  obtain v where vv: "b' = batch_set b ns (w_Key w) \<lparr>Value = v, Version = h\<rparr>"
    "if w_IsDelete w then v = None else v = w_Value w \<and> v \<noteq> None"
    using assms by (cases "w_Value w") (auto simp: batch_Delete_set batch_Put_set batch_Put_None split: if_splits)
  then show "overlay m b' = write_one ns h (overlay m b) w"
    by (cases "w_IsDelete w") (auto simp: overlay_set write_one_def)
  show "batch_wf b \<Longrightarrow> batch_wf b'" by (simp add: vv)
  show "batch_namespaces b' \<subseteq> insert ns (batch_namespaces b)"
    by (simp add: vv batch_set_def batch_namespaces_def getOrCreateNsUpdates_def newNsUpdates_def
        split: option.splits prod.splits)
qed

lemma add_writes_overlay:
  "add_writes ns ws h b = Inr b' \<Longrightarrow> overlay m b' = foldl (write_one ns h) (overlay m b) ws
     \<and> (batch_wf b \<longrightarrow> batch_wf b') \<and> batch_namespaces b' \<subseteq> insert ns (batch_namespaces b)"
proof (induction ws arbitrary: b)
  case (Cons w ws)
  from Cons.prems obtain b1 where b1: "(if w_IsDelete w then Inr (batch_Delete b ns (w_Key w) h)
      else batch_Put b ns (w_Key w) (w_Value w) h) = Inr b1" "add_writes ns ws h b1 = Inr b'"
    by (auto simp: res_bind_eq_Inr)
  from Cons.IH[OF b1(2)] overlay_write[OF b1(1)] show ?case by auto
qed auto

lemma add_ns_writes_overlay:
  "add_ns_writes l h b = Inr b' \<Longrightarrow>
     overlay m b' = foldl (\<lambda>m n. foldl (write_one (NameSpace n) h) m (Writes (KvRwSet n))) (overlay m b) l
     \<and> (batch_wf b \<longrightarrow> batch_wf b') \<and> batch_namespaces b' \<subseteq> NameSpace ` set l \<union> batch_namespaces b"
proof (induction l arbitrary: b)
  case (Cons n l)
  from Cons.prems obtain b1 where b1: "add_writes (NameSpace n) (Writes (KvRwSet n)) h b = Inr b1"
    "add_ns_writes l h b1 = Inr b'" by (auto simp: res_bind_eq_Inr)
  from Cons.IH[OF b1(2)] add_writes_overlay[OF b1(1), of m] show ?case by auto
qed auto

lemma addWriteSetToBatch_overlay:
  assumes "addWriteSetToBatch t h b = Inr b'"
  shows "overlay m b' = apply_tx t h (overlay m b)" "batch_wf b \<Longrightarrow> batch_wf b'"
    "batch_namespaces b' \<subseteq> NameSpace ` set (NsRwSets t) \<union> batch_namespaces b"
  using add_ns_writes_overlay[of "NsRwSets t" h b b' m] assms
  by (auto simp: addWriteSetToBatch_def apply_tx_def)

section \<open>Validation against a database that keeps its contract\<close>

definition tx_ns_ok :: "(string \<Rightarrow> bool) \<Rightarrow> TxRwSet \<Rightarrow> bool" where
  "tx_ns_ok valid_ns t \<longleftrightarrow> (\<forall>n \<in> set (NsRwSets t). valid_ns (NameSpace n))"

lemma validateTx_loop_codes:
  "validateTx_loop E D s l u = Inr c \<Longrightarrow> c \<in> {TxValidationCode_VALID,
     TxValidationCode_MVCC_READ_CONFLICT, TxValidationCode_PHANTOM_READ_CONFLICT}"
  by (induction l) (auto simp: res_bind_eq_Inr Let_def split: if_splits)

context versioned_db_ok
begin

lemma validateKVRead_eq:
  assumes "inv s" "valid_ns ns"
  shows "validateKVRead DB s ns r u = Inr (batch_Get u ns (r_Key r) = None
    \<and> NewVersion (r_Version r) = map_option Version (view s ns (r_Key r)))"
  using GetState_eq[OF assms, of "r_Key r"]
  by (cases "view s ns (r_Key r)") (auto simp: validateKVRead_def Let_def)

lemma validateReadSet_eq:
  assumes "inv s" "valid_ns ns"
  shows "validateReadSet DB s ns rs u = Inr (\<forall>r \<in> set rs. batch_Get u ns (r_Key r) = None
    \<and> NewVersion (r_Version r) = map_option Version (view s ns (r_Key r)))"
  by (induction rs) (auto simp: validateKVRead_eq[OF assms])

lemma validateRangeQuery_sound:
  assumes "inv s" "valid_ns ns" "batch_wf u" "validateRangeQuery E DB s ns q u = Inr True"
  shows "range_current E (overlay (view s) u) ns q"
proof -
  from combinedIterator_delivers[OF assms(1-3), of "rq_StartKey q" "rq_EndKey q" "\<not> rq_ItrExhausted q"]
  obtain itr where itr: "newCombinedIterator DB s u ns (rq_StartKey q) (rq_EndKey q) (\<not> rq_ItrExhausted q) = Inr itr"
    "delivers (combined_Next DB) itr
       (range_spec (overlay (view s) u) ns (rq_StartKey q) (rq_EndKey q) (\<not> rq_ItrExhausted q))" by blast
  show ?thesis
  proof (cases "GetReadsMerkleHashes q")
    case None
    then have "rangeQueryResultsValidator_validate DB q itr = Inr True"
      using assms(4) itr(1) by (simp add: validateRangeQuery_def)
    from raw_validate_result[OF itr(2) this] None show ?thesis by (simp add: range_current_def Let_def)
  next
    case (Some ms)
    then have v: "rangeQueryHashValidator_validate DB (ve_hash E) (ve_serialize E) ms itr = Inr True"
      using assms(4) itr(1) by (simp add: validateRangeQuery_def)
    from hash_validate_sound[OF itr(2) v] Some show ?thesis by (simp add: range_current_def Let_def)
  qed
qed

lemma validateRangeQuery_complete:
  assumes "inv s" "valid_ns ns" "batch_wf u" "range_current E (overlay (view s) u) ns q"
    and "length (range_spec (overlay (view s) u) ns (rq_StartKey q) (rq_EndKey q) (\<not> rq_ItrExhausted q)) + 4 < 2 ^ 32"
  shows "validateRangeQuery E DB s ns q u = Inr True"
proof -
  let ?now = "range_spec (overlay (view s) u) ns (rq_StartKey q) (rq_EndKey q) (\<not> rq_ItrExhausted q)"
  from combinedIterator_delivers[OF assms(1-3), of "rq_StartKey q" "rq_EndKey q" "\<not> rq_ItrExhausted q"]
  obtain itr where itr: "newCombinedIterator DB s u ns (rq_StartKey q) (rq_EndKey q) (\<not> rq_ItrExhausted q) = Inr itr"
    "delivers (combined_Next DB) itr ?now" by blast
  show ?thesis
  proof (cases "GetReadsMerkleHashes q")
    case None
    then have now: "GetRawReads q = map kv_read ?now" using assms(4) by (simp add: range_current_def Let_def)
    then have "\<forall>r \<in> set (GetRawReads q). r_Version r \<noteq> None"
      by (auto simp: kv_read_def NewKVRead_def newProtoVersion_def)
    from raw_validate_total[OF itr(2) this] obtain b where
      "rangeQueryResultsValidator_validate DB q itr = Inr b" by blast
    with raw_validate_result[OF itr(2) this] now None itr(1) show ?thesis
      by (simp add: validateRangeQuery_def)
  next
    case (Some ms)
    then have "query_summary (ve_hash E) (ve_serialize E) (MaxDegree ms) (map kv_read ?now) = Inr (Some ms)"
      using assms(4) by (simp add: range_current_def Let_def)
    from hash_validate_complete[OF itr(2) assms(5) this] Some itr(1) show ?thesis
      by (simp add: validateRangeQuery_def)
  qed
qed

lemma validateRangeQueries_sound:
  assumes "inv s" "valid_ns ns" "batch_wf u"
  shows "validateRangeQueries E DB s ns qs u = Inr True \<Longrightarrow>
    \<forall>q \<in> set qs. range_current E (overlay (view s) u) ns q"
  by (induction qs) (auto simp: res_bind_eq_Inr intro: validateRangeQuery_sound[OF assms] split: if_splits)

lemma validateTx_loop_sound:
  assumes "inv s" "batch_wf u"
  shows "\<forall>n \<in> set l. valid_ns (NameSpace n) \<Longrightarrow> validateTx_loop E DB s l u = Inr TxValidationCode_VALID
    \<Longrightarrow> reads_current E (overlay (view s) u) \<lparr>NsRwSets = l\<rparr>"
proof (induction l)
  case (Cons n l)
  have ns: "valid_ns (NameSpace n)" using Cons.prems(1) by simp
  from Cons.prems(2) have v: "validateReadSet DB s (NameSpace n) (Reads (KvRwSet n)) u = Inr True"
    "validateRangeQueries E DB s (NameSpace n) (RangeQueriesInfo (KvRwSet n)) u = Inr True"
    "validateTx_loop E DB s l u = Inr TxValidationCode_VALID"
    by (auto simp: res_bind_eq_Inr Let_def code_defs split: if_splits)
  have "NewVersion (r_Version r) = map_option Version (overlay (view s) u (NameSpace n) (r_Key r))"
    if "r \<in> set (Reads (KvRwSet n))" for r
    using v(1) that by (simp add: validateReadSet_eq[OF assms(1) ns] overlay_def)
  with Cons v(3) validateRangeQueries_sound[OF assms(1) ns assms(2) v(2)]
  show ?case by (simp add: reads_current_def)
qed (simp add: reads_current_def)

lemma validateTx_sound:
  "inv s \<Longrightarrow> batch_wf u \<Longrightarrow> tx_ns_ok valid_ns t \<Longrightarrow> validateTx E DB s t u = Inr TxValidationCode_VALID
     \<Longrightarrow> reads_current E (overlay (view s) u) t"
  using validateTx_loop_sound[of s u "NsRwSets t" E] by (simp add: tx_ns_ok_def validateTx_def reads_current_def)

end

section \<open>The loop over the block\<close>

lemma validateEndorserTX_None:
  assumes "validateEndorserTX E D s env mvcc u = Inr (None, c)"
  shows "(word_of_int c :: byte) \<noteq> 0"
proof -
  from assms consider "c = TxValidationCode_NIL_TXACTION" | "c = TxValidationCode_INVALID_OTHER_REASON"
    | t where "validateTx E D s t u = Inr c" "c \<noteq> TxValidationCode_VALID"
    by (auto simp: validateEndorserTX_def res_bind_eq_Inr split: sum.splits go_err.splits if_splits)
  then show ?thesis
  proof cases
    case 3
    with validateTx_loop_codes[of E D s "NsRwSets t" u c] show ?thesis
      by (auto simp: validateTx_def code_defs)
  qed (simp_all add: code_defs)
qed

lemma validateEndorserTX_Some:
  assumes "validateEndorserTX E D s env mvcc u = Inr (Some t, c)"
    and "env_type (ve_tx E) env = Inr HeaderType_ENDORSER_TRANSACTION"
  shows "c = TxValidationCode_VALID" "endorser_rwset E env = Some t"
    "mvcc \<Longrightarrow> validateTx E D s t u = Inr TxValidationCode_VALID"
    "validateEndorserTX E D' s' env False u' = Inr (Some t, TxValidationCode_VALID)"
  using assms by (auto simp: validateEndorserTX_def endorser_rwset_def res_bind_eq_Inr
      split: sum.splits go_err.splits if_splits)

text \<open>The possible courses of one round of the loop that does not fail.\<close>

lemma validate_loop_cases:
  assumes "validate_loop E D s mvcc num i (env # envs) f u = (f', Inr u')"
  obtains (skip) "i < length f" "committed E f i env = None"
      "f ! i \<noteq> 0 \<or> (\<exists>ty. env_type (ve_tx E) env = Inr ty \<and> ty \<noteq> HeaderType_ENDORSER_TRANSACTION)"
      "validate_loop E D s mvcc num (i + 1) envs f u = (f', Inr u')"
    | (invalid) c where "i < length f" "f ! i = 0" "(word_of_int c :: byte) \<noteq> 0"
      "validate_loop E D s mvcc num (i + 1) envs (f[i := word_of_int c]) u = (f', Inr u')"
    | (valid) t u1 where "i < length f" "f ! i = 0" "endorser_rwset E env = Some t"
      "mvcc \<Longrightarrow> validateTx E D s t u = Inr TxValidationCode_VALID"
      "addWriteSetToBatch t (NewHeight num (word_of_nat i)) u = Inr u1"
      "validate_loop E D s mvcc num (i + 1) envs f u1 = (f', Inr u')"
      "env_type (ve_tx E) env = Inr HeaderType_ENDORSER_TRANSACTION"
      "validateEndorserTX E D s env mvcc u = Inr (Some t, TxValidationCode_VALID)"
proof (cases "i < length f")
  case False
  then show ?thesis using assms by (simp add: IsInvalid_panics)
next
  case i: True
  show ?thesis
  proof (cases "f ! i = 0")
    case False
    then show ?thesis using assms i skip by (simp add: IsInvalid_eq committed_def)
  next
    case v: True
    then obtain ty where ty: "env_type (ve_tx E) env = Inr ty"
      using assms i by (auto simp: IsInvalid_eq split: sum.splits)
    show ?thesis
    proof (cases "ty = HeaderType_ENDORSER_TRANSACTION")
      case False
      then show ?thesis using assms i v ty skip by (simp add: IsInvalid_eq committed_def endorser_rwset_def)
    next
      case True
      with assms i v ty obtain r c where r: "validateEndorserTX E D s env mvcc u = Inr (r, c)"
        by (auto simp: IsInvalid_eq split: sum.splits)
      show ?thesis
      proof (cases r)
        case None
        with assms i v ty True r have
          "validate_loop E D s mvcc num (i + 1) envs (f[i := word_of_int c]) u = (f', Inr u')"
          by (simp add: IsInvalid_eq SetFlag_def)
        with validateEndorserTX_None[OF r[unfolded None]] i v invalid show ?thesis by blast
      next
        case (Some t)
        note t = validateEndorserTX_Some[OF r[unfolded Some] ty[unfolded True]]
        have "f[i := 0] = f" using v i by (metis list_update_id)
        with assms i v ty True r Some t(1) obtain u1 where
          "addWriteSetToBatch t (NewHeight num (word_of_nat i)) u = Inr u1"
          "validate_loop E D s mvcc num (i + 1) envs f u1 = (f', Inr u')"
          by (auto simp: IsInvalid_eq SetFlag_def code_defs split: sum.splits)
        with t(1-3) r Some i v valid ty[unfolded True] show ?thesis by blast
      qed
    qed
  qed
qed

text \<open>Flags that were set before stay, and no flag is cleared.\<close>

lemma validate_loop_flags:
  assumes "validate_loop E D s mvcc num i envs f u = (f', Inr u')"
  shows "length f' = length f \<and> (\<forall>j < length f. j < i \<or> f ! j \<noteq> 0 \<longrightarrow> f' ! j = f ! j)"
  using assms
proof (induction envs arbitrary: i f u)
  case (Cons env envs)
  from Cons.prems show ?case
  proof (cases rule: validate_loop_cases)
    case skip
    from Cons.IH[OF this(4)] show ?thesis by auto
  next
    case (invalid c)
    from Cons.IH[OF this(4)] invalid show ?thesis by (auto simp: nth_list_update split: if_splits)
  next
    case (valid t u1)
    from Cons.IH[OF this(6)] show ?thesis by auto
  qed
qed simp

text \<open>A second run without the MVCC checks over the flags of the first one accepts the same
  transactions, whatever state the database is in.\<close>

lemma validate_loop_again:
  assumes "validate_loop E D s mvcc num i envs f u = (f', Inr u')"
  shows "validate_loop E D' s' False num i envs f' u = (f', Inr u')"
  using assms
proof (induction envs arbitrary: i f u)
  case (Cons env envs)
  from Cons.prems show ?case
  proof (cases rule: validate_loop_cases)
    case skip
    with validate_loop_flags[OF skip(4)] Cons.IH[OF skip(4)] show ?thesis
      by (cases "f ! i = 0") (auto simp: IsInvalid_eq)
  next
    case (invalid c)
    with validate_loop_flags[OF invalid(4)] Cons.IH[OF invalid(4)] show ?thesis by (simp add: IsInvalid_eq)
  next
    case (valid t u1)
    note fl = validate_loop_flags[OF valid(6)]
    with valid(1,2) have "f'[i := 0] = f'" by (metis lessI list_update_id less_add_one)
    with valid(1,2,5,7) fl Cons.IH[OF valid(6)] validateEndorserTX_Some(4)[OF valid(8,7), of D' s' u]
    show ?thesis by (simp add: IsInvalid_eq SetFlag_def code_defs)
  qed
qed simp

lemma ValidateAndPrepareBatch_again:
  assumes "ValidateAndPrepareBatch E D s block mvcc = (block', Inr u)"
  shows "ValidateAndPrepareBatch E D' s' block' False = (block', Inr u)"
proof -
  let ?ix = BlockMetadataIndex_TRANSACTIONS_FILTER
  from assms(1) obtain f f' where ix: "?ix < length (blk_Metadata block)"
    and b: "block' = block\<lparr>blk_Metadata := (blk_Metadata block)[?ix := f']\<rparr>"
    and l: "validate_loop E D s mvcc (blk_Number block) 0 (blk_Data block) f NewUpdateBatch = (f', Inr u)"
    by (auto simp: ValidateAndPrepareBatch_def Let_def split: if_splits prod.splits)
  from l validate_loop_flags[OF l] have "f' \<noteq> [] \<or> blk_Data block = []"
    by (cases "blk_Data block") (auto simp: IsInvalid_panics)
  then have "f' = [] \<Longrightarrow> NewTxValidationFlags (length (blk_Data block)) = []" by (auto simp: NewTxValidationFlags_def)
  with validate_loop_again[OF l, of D' s'] ix b show ?thesis by (auto simp: ValidateAndPrepareBatch_def Let_def)
qed

text \<open>The batch of the loop holds only keys in the namespaces of the transactions.\<close>

lemma validate_loop_batch:
  assumes "validate_loop E D s mvcc num i envs f u = (f', Inr u')" "batch_wf u"
    and "\<forall>ns \<in> batch_namespaces u. valid_ns ns"
    and "\<forall>env \<in> set envs. \<forall>t. endorser_rwset E env = Some t \<longrightarrow> tx_ns_ok valid_ns t"
  shows "batch_wf u' \<and> (\<forall>ns \<in> batch_namespaces u'. valid_ns ns)"
  using assms
proof (induction envs arbitrary: i f u)
  case (Cons env envs)
  from Cons.prems(1) show ?case
  proof (cases rule: validate_loop_cases)
    case (valid t u1)
    note u1 = addWriteSetToBatch_overlay[OF valid(5)]
    have "\<forall>ns \<in> batch_namespaces u1. valid_ns ns"
      using u1(3) Cons.prems(3,4) valid(3) by (fastforce simp: tx_ns_ok_def)
    with Cons.IH[OF valid(6) u1(2)[OF Cons.prems(2)]] Cons.prems(4) show ?thesis by simp
  qed (use Cons in auto)
qed simp

lemma ValidateAndPrepareBatch_batch:
  assumes "ValidateAndPrepareBatch E D s block mvcc = (block', Inr u)"
    and "\<forall>env \<in> set (blk_Data block). \<forall>t. endorser_rwset E env = Some t \<longrightarrow> tx_ns_ok valid_ns t"
  shows "batch_wf u" "\<forall>ns \<in> batch_namespaces u. valid_ns ns"
    "blk_Number block' = blk_Number block" "blk_Data block' = blk_Data block"
proof -
  from assms(1) obtain f f' where b: "block' = block\<lparr>blk_Metadata := f'\<rparr>"
    and l: "validate_loop E D s mvcc (blk_Number block) 0 (blk_Data block) f NewUpdateBatch = (f' ! 2, Inr u)"
    by (auto simp: ValidateAndPrepareBatch_def Let_def BlockMetadataIndex_TRANSACTIONS_FILTER_def
        split: if_splits prod.splits)
  have "\<forall>ns \<in> batch_namespaces NewUpdateBatch. valid_ns ns" by (simp add: batch_namespaces_def NewUpdateBatch_def)
  from validate_loop_batch[OF l batch_wf_New this assms(2)] b
  show "batch_wf u" "\<forall>ns \<in> batch_namespaces u. valid_ns ns"
    "blk_Number block' = blk_Number block" "blk_Data block' = blk_Data block" by simp_all
qed

lemma replay_append:
  "replay E num i (xs @ ys) f m = replay E num (i + length xs) ys f (replay E num i xs f m)"
  by (induction xs arbitrary: i m) (auto split: option.splits)

lemma serial_nth:
  "serial E num i envs f m \<Longrightarrow> j < length envs \<Longrightarrow> committed E f (i + j) (envs ! j) = Some t
     \<Longrightarrow> reads_current E (replay E num i (take j envs) f m) t"
proof (induction envs arbitrary: i m j)
  case (Cons env envs)
  then show ?case by (cases j) (auto split: option.splits)
qed simp

context versioned_db_ok
begin

lemma validate_loop_serial:
  assumes "validate_loop E DB s True num i envs f u = (f', Inr u')" "inv s" "batch_wf u"
    and "\<forall>env \<in> set envs. \<forall>t. endorser_rwset E env = Some t \<longrightarrow> tx_ns_ok valid_ns t"
  shows "batch_wf u' \<and> overlay (view s) u' = replay E num i envs f' (overlay (view s) u)
    \<and> serial E num i envs f' (overlay (view s) u)"
  using assms
proof (induction envs arbitrary: i f u)
  case (Cons env envs)
  have ok: "\<forall>env \<in> set envs. \<forall>t. endorser_rwset E env = Some t \<longrightarrow> tx_ns_ok valid_ns t"
    using Cons.prems(4) by simp
  from Cons.prems(1) show ?case
  proof (cases rule: validate_loop_cases)
    case skip
    from validate_loop_flags[OF skip(4)] skip have "committed E f' i env = None"
      by (simp add: committed_def)
    with Cons.IH[OF skip(4) Cons.prems(2,3) ok] show ?thesis by simp
  next
    case (invalid c)
    from validate_loop_flags[OF invalid(4)] invalid have "committed E f' i env = None"
      by (simp add: committed_def)
    with Cons.IH[OF invalid(4) Cons.prems(2,3) ok] show ?thesis by simp
  next
    case (valid t u1)
    let ?h = "NewHeight num (word_of_nat i)"
    note u1 = addWriteSetToBatch_overlay[OF valid(5)]
    from validate_loop_flags[OF valid(6)] valid(1-3) have "committed E f' i env = Some t"
      by (simp add: committed_def)
    moreover have "reads_current E (overlay (view s) u) t"
      using validateTx_sound[OF Cons.prems(2,3)] Cons.prems(4) valid(3,4) by simp
    ultimately show ?thesis
      using Cons.IH[OF valid(6) Cons.prems(2) u1(2)[OF Cons.prems(3)] ok] u1(1) by simp
  qed
qed simp

lemma validate_block_serial:
  assumes "ValidateAndPrepareBatch E DB s block True = (block', Inr u)" "inv s"
    and "\<forall>env \<in> set (blk_Data block). \<forall>t. endorser_rwset E env = Some t \<longrightarrow> tx_ns_ok valid_ns t"
    and "f' = blk_Metadata block' ! BlockMetadataIndex_TRANSACTIONS_FILTER"
  shows "batch_wf u \<and> overlay (view s) u = replay E (blk_Number block) 0 (blk_Data block) f' (view s)
    \<and> serial E (blk_Number block) 0 (blk_Data block) f' (view s)"
proof -
  from assms(1) obtain f where f: "validate_loop E DB s True (blk_Number block) 0 (blk_Data block) f NewUpdateBatch
      = (f', Inr u)"
    using assms(4) by (auto simp: ValidateAndPrepareBatch_def Let_def split: if_splits prod.splits)
  from validate_loop_serial[OF f assms(2) batch_wf_New assms(3)] show ?thesis by simp
qed

end

end
