(* ===== verification/Level_DB.thy ===== *)
theory Level_DB
  imports Fabric_Prelude
begin

text \<open>
  The leveldb wrapper, \<^verbatim>\<open>common/ledger/util/leveldbhelper\<close>: \<^verbatim>\<open>DB\<close> (\<^verbatim>\<open>leveldb_helper.go\<close>) turns
  the \<^verbatim>\<open>ErrNotFound\<close> of goleveldb into a \<^verbatim>\<open>nil\<close> value, and \<^verbatim>\<open>DBHandle\<close>
  (\<^verbatim>\<open>leveldb_provider.go\<close>) puts several logical databases into one physical database by
  prefixing every key with the name of the database and a zero byte.

  goleveldb is third-party code: a record of its operations over a state of any type is a
  parameter, and the locale \<open>goleveldb\<close> states what its documentation promises. The locale
  \<open>kv_store\<close> is what the clients of a handle rely on; a handle over any goleveldb
  provides it (\<open>sublocale\<close> below). \<open>memdb\<close> is a concrete database that satisfies
  the contract.
\<close>

section \<open>goleveldb as a parameter\<close>

datatype batch_op = BPut bytes bytes | BDelete bytes

definition ErrNotFound :: go_err where
  "ErrNotFound = GoErr ''leveldb: not found''"

record 's goldb =
  ldb_Get :: "'s \<Rightarrow> bytes \<Rightarrow> bytes res"
  ldb_Put :: "'s \<Rightarrow> bytes \<Rightarrow> bytes \<Rightarrow> bool \<Rightarrow> 's \<times> go_err option"
  ldb_Delete :: "'s \<Rightarrow> bytes \<Rightarrow> bool \<Rightarrow> 's \<times> go_err option"
  ldb_NewIterator :: "'s \<Rightarrow> bytes \<Rightarrow> bytes \<Rightarrow> (bytes \<times> bytes) list"
  ldb_Write :: "'s \<Rightarrow> batch_op list \<Rightarrow> bool \<Rightarrow> 's \<times> go_err option"

text \<open>The entries of a finite map with a key in a range, in the order of the keys.\<close>

definition range_entries :: "(bytes \<rightharpoonup> bytes) \<Rightarrow> (bytes \<Rightarrow> bool) \<Rightarrow> (bytes \<times> bytes) list" where
  "range_entries m P = map (\<lambda>k. (k, the (m k))) (sorted_list_of_set {k \<in> dom m. P k})"

fun apply_op :: "(bytes \<rightharpoonup> bytes) \<Rightarrow> batch_op \<Rightarrow> (bytes \<rightharpoonup> bytes)" where
  "apply_op m (BPut k v) = m(k \<mapsto> v)"
| "apply_op m (BDelete k) = m(k := None)"

locale goleveldb =
  fixes L :: "'s goldb" and lview :: "'s \<Rightarrow> bytes \<rightharpoonup> bytes"
  assumes ldb_Get_found: "ldb_Get L s k = Inr v \<Longrightarrow> lview s k = Some v"
    and ldb_Get_missing: "ldb_Get L s k = Inl ErrNotFound \<Longrightarrow> lview s k = None"
    and ldb_finite: "finite (dom (lview s))"
    and ldb_NewIterator: "ldb_NewIterator L s a e = range_entries (lview s) (\<lambda>k. a \<le> k \<and> k < e)"
    and ldb_Put: "ldb_Put L s k v sync = (s', None) \<Longrightarrow> lview s' = (lview s)(k \<mapsto> v)"
    and ldb_Delete: "ldb_Delete L s k sync = (s', None) \<Longrightarrow> lview s' = (lview s)(k := None)"
    and ldb_Write: "ldb_Write L s ops sync = (s', None) \<Longrightarrow> lview s' = foldl apply_op (lview s) ops"

section \<open>DB\<close>

definition DB_Get :: "'s goldb \<Rightarrow> 's \<Rightarrow> bytes \<Rightarrow> bytes option res" where
  "DB_Get L s key =
     (case ldb_Get L s key of
        Inr value \<Rightarrow> Inr (Some value)
      | Inl err \<Rightarrow> if err = ErrNotFound then Inr None else Inl err)"

definition DB_Put :: "'s goldb \<Rightarrow> 's \<Rightarrow> bytes \<Rightarrow> bytes \<Rightarrow> bool \<Rightarrow> 's \<times> go_err option" where
  "DB_Put L s key value sync = ldb_Put L s key value sync"

definition DB_Delete :: "'s goldb \<Rightarrow> 's \<Rightarrow> bytes \<Rightarrow> bool \<Rightarrow> 's \<times> go_err option" where
  "DB_Delete L s key sync = ldb_Delete L s key sync"

definition DB_GetIterator :: "'s goldb \<Rightarrow> 's \<Rightarrow> bytes \<Rightarrow> bytes \<Rightarrow> (bytes \<times> bytes) list" where
  "DB_GetIterator L s startKey endKey = ldb_NewIterator L s startKey endKey"

definition DB_WriteBatch :: "'s goldb \<Rightarrow> 's \<Rightarrow> batch_op list \<Rightarrow> bool \<Rightarrow> 's \<times> go_err option" where
  "DB_WriteBatch L s batch sync = ldb_Write L s batch sync"

section \<open>DBHandle\<close>

definition dbNameKeySep :: bytes where
  "dbNameKeySep = [0]"

definition lastKeyIndicator :: byte where
  "lastKeyIndicator = 1"

definition constructLevelKey :: "string \<Rightarrow> bytes \<Rightarrow> bytes" where
  "constructLevelKey dbName key = string_bytes dbName @ dbNameKeySep @ key"

text \<open>\<^verbatim>\<open>bytes.SplitN(b, []byte{0x00}, 2)\<close> of the standard library: one part when the
  separator does not occur, otherwise what is before and after its first occurrence.\<close>

definition SplitN2 :: "bytes \<Rightarrow> bytes list" where
  "SplitN2 b = (let front = takeWhile (\<lambda>x. x \<noteq> 0) b
     in if length front = length b then [b] else [front, drop (length front + 1) b])"

definition retrieveAppKey :: "bytes \<Rightarrow> bytes res" where
  "retrieveAppKey levelKey = index_slice (SplitN2 levelKey) 1"

type_synonym level_batch = "(bytes, bytes option) gomap"

definition NewLevelBatch :: level_batch where
  "NewLevelBatch = []"

definition level_batch_Put :: "level_batch \<Rightarrow> bytes \<Rightarrow> bytes option \<Rightarrow> level_batch res" where
  "level_batch_Put batch key value =
     (if value = None then Inl (GoPanic ''Nil value not allowed'')
      else Inr (map_put key value batch))"

definition level_batch_Delete :: "level_batch \<Rightarrow> bytes \<Rightarrow> level_batch" where
  "level_batch_Delete batch key = map_put key None batch"

definition DBHandle_Get :: "'s goldb \<Rightarrow> string \<Rightarrow> 's \<Rightarrow> bytes \<Rightarrow> bytes option res" where
  "DBHandle_Get L dbName s key = DB_Get L s (constructLevelKey dbName key)"

definition DBHandle_Put ::
  "'s goldb \<Rightarrow> string \<Rightarrow> 's \<Rightarrow> bytes \<Rightarrow> bytes \<Rightarrow> bool \<Rightarrow> 's \<times> go_err option" where
  "DBHandle_Put L dbName s key value sync = DB_Put L s (constructLevelKey dbName key) value sync"

definition DBHandle_Delete ::
  "'s goldb \<Rightarrow> string \<Rightarrow> 's \<Rightarrow> bytes \<Rightarrow> bool \<Rightarrow> 's \<times> go_err option" where
  "DBHandle_Delete L dbName s key sync = DB_Delete L s (constructLevelKey dbName key) sync"

fun handle_op :: "string \<Rightarrow> bytes \<times> bytes option \<Rightarrow> batch_op" where
  "handle_op dbName (k, v) =
     (let key = constructLevelKey dbName k
      in case v of None \<Rightarrow> BDelete key | Some w \<Rightarrow> BPut key w)"

definition DBHandle_WriteBatch ::
  "'s goldb \<Rightarrow> string \<Rightarrow> 's \<Rightarrow> level_batch \<Rightarrow> bool \<Rightarrow> 's \<times> go_err option" where
  "DBHandle_WriteBatch L dbName s batch sync =
     DB_WriteBatch L s (map (handle_op dbName) batch) sync"

text \<open>The iterator: the entries still to come, every key through \<^const>\<open>retrieveAppKey\<close>.\<close>

definition DBHandle_GetIterator ::
  "'s goldb \<Rightarrow> string \<Rightarrow> 's \<Rightarrow> bytes \<Rightarrow> bytes option \<Rightarrow> (bytes res \<times> bytes) list" where
  "DBHandle_GetIterator L dbName s startKey endKey =
     (let sKey = constructLevelKey dbName startKey;
          eKey = (case endKey of
                    None \<Rightarrow> (let e = constructLevelKey dbName []
                             in e[length e - 1 := lastKeyIndicator])
                  | Some e \<Rightarrow> constructLevelKey dbName e)
      in map (\<lambda>(k, v). (retrieveAppKey k, v)) (DB_GetIterator L s sKey eKey))"

section \<open>Provider\<close>

text \<open>A handle is determined by its name; the provider keeps one handle for each name.\<close>

record Provider =
  dbHandles :: "(string, string) gomap"

definition Provider_GetDBHandle :: "Provider \<Rightarrow> string \<Rightarrow> string \<times> Provider" where
  "Provider_GetDBHandle p dbName =
     (case map_get (dbHandles p) dbName of
        Some h \<Rightarrow> (h, p)
      | None \<Rightarrow> (dbName, p\<lparr>dbHandles := map_put dbName dbName (dbHandles p)\<rparr>))"

section \<open>The contract of a handle\<close>

record 's kvs =
  kvs_Get :: "'s \<Rightarrow> bytes \<Rightarrow> bytes option res"
  kvs_Put :: "'s \<Rightarrow> bytes \<Rightarrow> bytes \<Rightarrow> bool \<Rightarrow> 's \<times> go_err option"
  kvs_Delete :: "'s \<Rightarrow> bytes \<Rightarrow> bool \<Rightarrow> 's \<times> go_err option"
  kvs_WriteBatch :: "'s \<Rightarrow> level_batch \<Rightarrow> bool \<Rightarrow> 's \<times> go_err option"
  kvs_GetIterator :: "'s \<Rightarrow> bytes \<Rightarrow> bytes option \<Rightarrow> (bytes res \<times> bytes) list"

definition DBHandle :: "'s goldb \<Rightarrow> string \<Rightarrow> 's kvs" where
  "DBHandle L dbName =
     \<lparr>kvs_Get = DBHandle_Get L dbName, kvs_Put = DBHandle_Put L dbName,
      kvs_Delete = DBHandle_Delete L dbName, kvs_WriteBatch = DBHandle_WriteBatch L dbName,
      kvs_GetIterator = DBHandle_GetIterator L dbName\<rparr>"

definition kv_overlay :: "(bytes \<rightharpoonup> bytes) \<Rightarrow> level_batch \<Rightarrow> (bytes \<rightharpoonup> bytes)" where
  "kv_overlay m b = (\<lambda>k. case map_get b k of None \<Rightarrow> m k | Some v \<Rightarrow> v)"

definition below :: "'a::linorder option \<Rightarrow> 'a \<Rightarrow> bool" where
  "below e k = (case e of None \<Rightarrow> True | Some x \<Rightarrow> k < x)"

locale kv_store =
  fixes K :: "'s kvs" and kview :: "'s \<Rightarrow> bytes \<rightharpoonup> bytes"
  assumes kvs_Get: "kvs_Get K s k = Inr v \<Longrightarrow> v = kview s k"
    and kvs_finite: "finite (dom (kview s))"
    and kvs_Put: "kvs_Put K s k w sync = (s', None) \<Longrightarrow> kview s' = (kview s)(k \<mapsto> w)"
    and kvs_Delete: "kvs_Delete K s k sync = (s', None) \<Longrightarrow> kview s' = (kview s)(k := None)"
    and kvs_GetIterator: "kvs_GetIterator K s a e
          = map (\<lambda>(k, w). (Inr k, w)) (range_entries (kview s) (\<lambda>k. a \<le> k \<and> below e k))"
    and kvs_WriteBatch: "map_wf b \<Longrightarrow> kvs_WriteBatch K s b sync = (s', None)
          \<Longrightarrow> kview s' = kv_overlay (kview s) b"

section \<open>Prefixed keys\<close>

definition no_zero :: "string \<Rightarrow> bool" where
  "no_zero s \<longleftrightarrow> CHR 0x00 \<notin> set s"

lemma byte_of_char_zero [simp]: "byte_of_char c = 0 \<longleftrightarrow> c = CHR 0x00"
proof -
  have "byte_of_char (CHR 0x00) = 0" by (simp add: byte_of_char_def)
  then show ?thesis by (metis byte_of_char_inj)
qed

lemma takeWhile_no_zero:
  "no_zero n \<Longrightarrow> takeWhile (\<lambda>x. x \<noteq> 0) (string_bytes n @ 0 # k) = string_bytes n"
  by (induction n) (auto simp: no_zero_def)

lemma SplitN2_prefix: "no_zero n \<Longrightarrow> SplitN2 (string_bytes n @ 0 # k) = [string_bytes n, k]"
  by (simp add: SplitN2_def takeWhile_no_zero Let_def)

lemma prefix_inj:
  "no_zero n \<Longrightarrow> no_zero n' \<Longrightarrow>
     string_bytes n @ 0 # k = string_bytes n' @ 0 # k' \<longleftrightarrow> n = n' \<and> k = k'"
  by (metis SplitN2_prefix list.inject string_bytes_inj)

text \<open>A key between two keys with a common prefix has that prefix.\<close>

lemma between_prefix:
  fixes p :: "'a::linorder list"
  assumes "p @ a \<le> x" "x < p @ b"
  shows "\<exists>k. x = p @ k \<and> a \<le> k \<and> k < b"
  using assms
proof (induction p arbitrary: x)
  case (Cons c p)
  then obtain d y where x: "x = d # y" by (cases x) auto
  then have "d = c" using Cons.prems by auto
  then have "p @ a \<le> y" "y < p @ b" using Cons.prems x by auto
  from Cons.IH[OF this] show ?case using x \<open>d = c\<close> by auto
qed simp

lemma between_prefix_iff:
  fixes p :: "'a::linorder list"
  shows "p @ a \<le> x \<and> x < p @ b \<longleftrightarrow> (\<exists>k. x = p @ k \<and> a \<le> k \<and> k < b)"
  using between_prefix by fastforce

lemma byte_less_1 [simp]: "(b :: byte) < 1 \<longleftrightarrow> b = 0"
  by (simp add: word_less_nat_alt unat_eq_0)

lemma between_prefix_open_iff:
  fixes p :: bytes
  shows "p @ 0 # a \<le> x \<and> x < p @ [1] \<longleftrightarrow> (\<exists>k. x = p @ 0 # k \<and> a \<le> k)"
proof -
  have "0 # a \<le> k \<and> k < [1] \<longleftrightarrow> (\<exists>k'. k = 0 # k' \<and> a \<le> k')" for k :: bytes
    by (cases k) auto
  then show ?thesis unfolding between_prefix_iff by metis
qed

text \<open>Mapping the keys of a sorted range through a monotone prefix.\<close>

lemma range_entries_prefix:
  assumes fin: "finite (dom m)" and P: "\<And>x. P x \<longleftrightarrow> (\<exists>k. x = p @ k \<and> Q k)"
  shows "range_entries m P = map (\<lambda>(k, v). (p @ k, v)) (range_entries (\<lambda>k. m (p @ k)) Q)"
proof -
  let ?m = "\<lambda>k. m (p @ k)"
  have "inj_on ((@) p) (dom ?m)" by (auto simp: inj_on_def)
  moreover have "(@) p ` dom ?m \<subseteq> dom m" by auto
  ultimately have fin': "finite (dom ?m)" using fin inj_on_finite by blast
  have "{k \<in> dom m. P k} = (@) p ` {k \<in> dom ?m. Q k}" using P by auto
  also have "sorted_list_of_set \<dots> = map ((@) p) (sorted_list_of_set {k \<in> dom ?m. Q k})"
    using fin' by (intro sorted_distinct_set_unique)
      (auto simp: sorted_map distinct_map inj_on_def sorted_wrt_map)
  finally show ?thesis by (simp add: range_entries_def comp_def)
qed

section \<open>A handle provides the contract\<close>

lemma constructLevelKey_eq: "constructLevelKey n k = string_bytes n @ 0 # k"
  by (simp add: constructLevelKey_def dbNameKeySep_def)

lemma constructLevelKey_inj [simp]: "constructLevelKey n k = constructLevelKey n k' \<longleftrightarrow> k = k'"
  by (simp add: constructLevelKey_eq)

lemma constructLevelKey_neq:
  "no_zero n \<Longrightarrow> no_zero n' \<Longrightarrow> n \<noteq> n' \<Longrightarrow> constructLevelKey n k \<noteq> constructLevelKey n' k'"
  by (simp add: constructLevelKey_eq prefix_inj)

lemma retrieveAppKey_construct [simp]:
  "no_zero n \<Longrightarrow> retrieveAppKey (constructLevelKey n k) = Inr k"
  by (simp add: retrieveAppKey_def constructLevelKey_eq SplitN2_prefix index_slice_def)

lemma end_key_of_db:
  "(constructLevelKey n [])[length (constructLevelKey n []) - 1 := lastKeyIndicator] = string_bytes n @ [1]"
  by (simp add: constructLevelKey_eq lastKeyIndicator_def list_update_append)

lemma foldl_handle_op:
  assumes "map_wf b"
  shows "foldl apply_op m (map (handle_op n) b) (constructLevelKey n k)
    = (case map_get b k of None \<Rightarrow> m (constructLevelKey n k) | Some v \<Rightarrow> v)"
  using assms
proof (induction b arbitrary: m)
  case (Cons e b)
  obtain k' v where e: "e = (k', v)" by force
  have "k = k' \<Longrightarrow> map_get b k = None" using Cons.prems e by (simp add: map_of_eq_None_iff)
  then show ?case using Cons e by (auto simp: Let_def split: option.splits)
qed simp

lemma foldl_handle_op_other:
  assumes "no_zero n" "no_zero n'" "n \<noteq> n'"
  shows "foldl apply_op m (map (handle_op n) b) (constructLevelKey n' k) = m (constructLevelKey n' k)"
proof (induction b arbitrary: m)
  case (Cons e b)
  obtain k' v where e: "e = (k', v)" by force
  show ?case using constructLevelKey_neq[OF assms, of k' k]
    by (simp add: e Cons.IH Let_def split: option.splits)
qed simp

definition handle_view :: "('s \<Rightarrow> bytes \<rightharpoonup> bytes) \<Rightarrow> string \<Rightarrow> 's \<Rightarrow> bytes \<rightharpoonup> bytes" where
  "handle_view lview n s = (\<lambda>k. lview s (constructLevelKey n k))"

locale level_handle = goleveldb L lview for L :: "'s goldb" and lview +
  fixes n :: string
  assumes name_ok: "no_zero n"
begin

lemma handle_Get: "DBHandle_Get L n s k = Inr v \<Longrightarrow> v = handle_view lview n s k"
  by (auto simp: DBHandle_Get_def DB_Get_def handle_view_def ldb_Get_found ldb_Get_missing
      split: sum.splits if_splits)

lemma handle_finite: "finite (dom (handle_view lview n s))"
proof -
  have "inj_on (constructLevelKey n) (dom (handle_view lview n s))" by (auto simp: inj_on_def)
  moreover have "constructLevelKey n ` dom (handle_view lview n s) \<subseteq> dom (lview s)"
    by (auto simp: handle_view_def)
  ultimately show ?thesis using ldb_finite inj_on_finite by blast
qed

lemma handle_range:
  "a' = constructLevelKey n a \<Longrightarrow> e' = (case e of None \<Rightarrow> string_bytes n @ [1] | Some x \<Rightarrow> constructLevelKey n x)
   \<Longrightarrow> range_entries (lview s) (\<lambda>k. a' \<le> k \<and> k < e')
     = map (\<lambda>(k, v). (constructLevelKey n k, v)) (range_entries (handle_view lview n s) (\<lambda>k. a \<le> k \<and> below e k))"
proof -
  assume a': "a' = constructLevelKey n a"
    and e': "e' = (case e of None \<Rightarrow> string_bytes n @ [1] | Some x \<Rightarrow> constructLevelKey n x)"
  have ck: "constructLevelKey n k = (string_bytes n @ [0]) @ k" for k
    by (simp add: constructLevelKey_eq)
  have "a' \<le> x \<and> x < e' \<longleftrightarrow> (\<exists>k. x = (string_bytes n @ [0]) @ k \<and> a \<le> k \<and> below e k)" for x
  proof (cases e)
    case None
    then show ?thesis
      using between_prefix_open_iff[of "string_bytes n" a x] by (simp add: a' e' below_def ck)
  next
    case (Some y)
    then show ?thesis
      using between_prefix_iff[of "string_bytes n @ [0]" a x y] by (simp add: a' e' below_def ck)
  qed
  from range_entries_prefix[OF ldb_finite this] show ?thesis
    by (simp add: handle_view_def ck)
qed

lemma handle_GetIterator:
  "DBHandle_GetIterator L n s a e
     = map (\<lambda>(k, v). (Inr k, v)) (range_entries (handle_view lview n s) (\<lambda>k. a \<le> k \<and> below e k))"
  using name_ok unfolding DBHandle_GetIterator_def Let_def end_key_of_db DB_GetIterator_def ldb_NewIterator
  by (subst handle_range[OF refl refl]) (auto simp: comp_def case_prod_unfold)

lemma handle_WriteBatch:
  "map_wf b \<Longrightarrow> DBHandle_WriteBatch L n s b sync = (s', None)
     \<Longrightarrow> handle_view lview n s' = kv_overlay (handle_view lview n s) b"
  unfolding DBHandle_WriteBatch_def DB_WriteBatch_def
  by (auto simp: handle_view_def kv_overlay_def foldl_handle_op dest!: ldb_Write)

lemma handle_isolated:
  assumes "DBHandle_WriteBatch L n s b sync = (s', None)" "no_zero n'" "n' \<noteq> n"
  shows "handle_view lview n' s' = handle_view lview n' s"
proof -
  have "lview s' = foldl apply_op (lview s) (map (handle_op n) b)"
    using assms(1) ldb_Write by (simp add: DBHandle_WriteBatch_def DB_WriteBatch_def)
  then show ?thesis using foldl_handle_op_other[OF name_ok assms(2)] assms(3)
    by (simp add: handle_view_def)
qed

end

sublocale level_handle \<subseteq> kv_store "DBHandle L n" "handle_view lview n"
proof unfold_locales
  show "kvs_Put (DBHandle L n) s k w sync = (s', None) \<Longrightarrow>
      handle_view lview n s' = (handle_view lview n s)(k \<mapsto> w)" for s k w sync s'
    by (auto simp: DBHandle_def DBHandle_Put_def DB_Put_def handle_view_def dest!: ldb_Put)
  show "kvs_Delete (DBHandle L n) s k sync = (s', None) \<Longrightarrow>
      handle_view lview n s' = (handle_view lview n s)(k := None)" for s k sync s'
    by (auto simp: DBHandle_def DBHandle_Delete_def DB_Delete_def handle_view_def dest!: ldb_Delete)
qed (auto simp: DBHandle_def handle_Get handle_finite handle_GetIterator dest: handle_WriteBatch)

section \<open>Databases without I/O errors\<close>

locale goleveldb_ok = goleveldb +
  assumes ldb_Get_total: "lview s k = None \<Longrightarrow> ldb_Get L s k = Inl ErrNotFound"
      "lview s k = Some v \<Longrightarrow> ldb_Get L s k = Inr v"
    and ldb_Put_total: "snd (ldb_Put L s k v sync) = None"
    and ldb_Write_total: "snd (ldb_Write L s ops sync) = None"

locale kv_store_ok = kv_store +
  assumes kvs_Get_total: "\<exists>v. kvs_Get K s k = Inr v"
    and kvs_Put_total: "snd (kvs_Put K s k w sync) = None"
    and kvs_WriteBatch_total: "snd (kvs_WriteBatch K s b sync) = None"

locale level_handle_ok = level_handle L lview n + goleveldb_ok L lview
  for L :: "'s goldb" and lview and n

sublocale level_handle_ok \<subseteq> kv_store_ok "DBHandle L n" "handle_view lview n"
proof unfold_locales
  show "\<exists>v. kvs_Get (DBHandle L n) s k = Inr v" for s k
    by (cases "lview s (constructLevelKey n k)")
      (simp_all add: DBHandle_def DBHandle_Get_def DB_Get_def ldb_Get_total)
qed (simp_all add: DBHandle_def DBHandle_Put_def DB_Put_def DBHandle_WriteBatch_def DB_WriteBatch_def
    ldb_Put_total ldb_Write_total)

context level_handle_ok
begin

lemma handle_kv_store: "kv_store_ok (DBHandle L n) (handle_view lview n)"
  ..

end

section \<open>An in-memory database\<close>

type_synonym memdb_state = "(bytes, bytes) gomap"

fun mem_op :: "memdb_state \<Rightarrow> batch_op \<Rightarrow> memdb_state" where
  "mem_op s (BPut k v) = map_put k v s"
| "mem_op s (BDelete k) = map_del k s"

definition memdb :: "memdb_state goldb" where
  "memdb =
     \<lparr>ldb_Get = (\<lambda>s k. case map_get s k of None \<Rightarrow> Inl ErrNotFound | Some v \<Rightarrow> Inr v),
      ldb_Put = (\<lambda>s k v sync. (map_put k v s, None)),
      ldb_Delete = (\<lambda>s k sync. (map_del k s, None)),
      ldb_NewIterator = (\<lambda>s a e. map (\<lambda>k. (k, the (map_get s k)))
        (sort (remdups (filter (\<lambda>k. a \<le> k \<and> k < e) (map fst s))))),
      ldb_Write = (\<lambda>s ops sync. (foldl mem_op s ops, None))\<rparr>"

lemma map_get_foldl_mem_op: "map_get (foldl mem_op s ops) = foldl apply_op (map_get s) ops"
proof (induction ops arbitrary: s)
  case (Cons op ops)
  then show ?case by (cases op) (simp_all add: fun_upd_def)
qed simp

lemma mem_range: "sort (remdups (filter P (map fst s))) = sorted_list_of_set {k \<in> dom (map_get s). P k}"
  by (intro sorted_distinct_set_unique) (auto simp: finite_dom_map_of dom_map_of_conv_image_fst)

interpretation mem: goleveldb_ok memdb map_of
proof unfold_locales
  show "ldb_NewIterator memdb s a e = range_entries (map_get s) (\<lambda>k. a \<le> k \<and> k < e)" for s a e
    by (simp add: memdb_def range_entries_def mem_range)
qed (auto simp: memdb_def ErrNotFound_def finite_dom_map_of map_get_foldl_mem_op split: option.splits)

lemma mem_handle_ok: "no_zero n \<Longrightarrow> level_handle_ok memdb map_of n"
  by unfold_locales

interpretation mem_ch: level_handle_ok memdb map_of "''mychannel''"
  by (rule mem_handle_ok) (simp add: no_zero_def)

end
