(* ===== verification/State_LevelDB.thy ===== *)
theory State_LevelDB
  imports Versioned_DB Level_DB
begin

text \<open>
  The leveldb implementation of the state database,
  \<^verbatim>\<open>core/ledger/kvledger/txmgmt/statedb/stateleveldb/stateleveldb.go\<close>, over any store that
  satisfies \<open>kv_store\<close> (the handle of the component \<open>Level_DB\<close>). The sublocale at
  the end shows that it implements the contract \<open>versioned_db\<close> for the namespaces that
  are not empty and hold no zero byte; the last section shows why the empty namespace is
  excluded.
\<close>

section \<open>Keys\<close>

definition compositeKeySep :: bytes where
  "compositeKeySep = [0]"

definition savePointKey :: bytes where
  "savePointKey = [0]"

definition constructCompositeKey :: "string \<Rightarrow> string \<Rightarrow> bytes" where
  "constructCompositeKey ns key = string_bytes ns @ compositeKeySep @ string_bytes key"

definition splitCompositeKey :: "bytes \<Rightarrow> (string \<times> string) res" where
  "splitCompositeKey compositeKey =
     (let split = SplitN2 compositeKey
      in res_bind (index_slice split 0) (\<lambda>a. res_bind (index_slice split 1) (\<lambda>b.
           Inr (bytes_string a, bytes_string b))))"

section \<open>Operations\<close>

definition sldb_GetState :: "'s kvs \<Rightarrow> 's \<Rightarrow> string \<Rightarrow> string \<Rightarrow> VersionedValue option res" where
  "sldb_GetState K s namespace key =
     res_bind (kvs_Get K s (constructCompositeKey namespace key)) (\<lambda>dbVal.
       case dbVal of
         None \<Rightarrow> Inr None
       | Some d \<Rightarrow> res_bind (DecodeValue d) (\<lambda>(val, ver).
           Inr (Some \<lparr>Value = Some val, Version = ver\<rparr>)))"

fun sldb_GetStateMultipleKeys ::
  "'s kvs \<Rightarrow> 's \<Rightarrow> string \<Rightarrow> string list \<Rightarrow> VersionedValue option list res" where
  "sldb_GetStateMultipleKeys K s namespace [] = Inr []"
| "sldb_GetStateMultipleKeys K s namespace (key # keys) =
     res_bind (sldb_GetState K s namespace key) (\<lambda>val.
     res_bind (sldb_GetStateMultipleKeys K s namespace keys) (\<lambda>vals. Inr (val # vals)))"

definition kvScanner_Next :: "string \<Rightarrow> bytes res \<times> bytes \<Rightarrow> VersionedKV res" where
  "kvScanner_Next namespace entry =
     (case entry of (dbKey, dbVal) \<Rightarrow>
        res_bind dbKey (\<lambda>dk.
        res_bind (splitCompositeKey dk) (\<lambda>(_, key).
        res_bind (DecodeValue dbVal) (\<lambda>(value, ver).
          Inr (mkVersionedKV namespace key \<lparr>Value = Some value, Version = ver\<rparr>)))))"

definition sldb_GetStateRangeScanIterator ::
  "'s kvs \<Rightarrow> 's \<Rightarrow> string \<Rightarrow> string \<Rightarrow> string \<Rightarrow> ResultsIterator res" where
  "sldb_GetStateRangeScanIterator K s namespace startKey endKey =
     (let compositeStartKey = constructCompositeKey namespace startKey;
          ek = constructCompositeKey namespace endKey;
          compositeEndKey = (if endKey = '''' then ek[length ek - 1 := lastKeyIndicator] else ek);
          dbItr = kvs_GetIterator K s compositeStartKey (Some compositeEndKey)
      in Inr (map (kvScanner_Next namespace) dbItr))"

definition sldb_ExecuteQuery :: "'s \<Rightarrow> string \<Rightarrow> string \<Rightarrow> ResultsIterator res" where
  "sldb_ExecuteQuery s namespace query = Inl (GoErr ''ExecuteQuery not supported for leveldb'')"

fun apply_ns_updates :: "string \<Rightarrow> (string \<times> VersionedValue) list \<Rightarrow> level_batch \<Rightarrow> level_batch res" where
  "apply_ns_updates ns [] dbBatch = Inr dbBatch"
| "apply_ns_updates ns ((k, vv) # rest) dbBatch =
     (let compositeKey = constructCompositeKey ns k
      in res_bind
           (if Value vv = None then Inr (level_batch_Delete dbBatch compositeKey)
            else res_bind (EncodeValue (Value vv) (Version vv)) (\<lambda>enc.
              level_batch_Put dbBatch compositeKey (Some enc)))
           (apply_ns_updates ns rest))"

fun apply_all_updates :: "UpdateBatch \<Rightarrow> string list \<Rightarrow> level_batch \<Rightarrow> level_batch res" where
  "apply_all_updates batch [] dbBatch = Inr dbBatch"
| "apply_all_updates batch (ns # nss) dbBatch =
     res_bind (apply_ns_updates ns (GetUpdates batch ns) dbBatch) (apply_all_updates batch nss)"

definition sldb_batch :: "UpdateBatch \<Rightarrow> Height \<Rightarrow> level_batch res" where
  "sldb_batch batch height =
     res_bind (apply_all_updates batch (GetUpdatedNamespaces batch) NewLevelBatch) (\<lambda>dbBatch.
     res_bind (ToBytes height) (\<lambda>h. level_batch_Put dbBatch savePointKey (Some h)))"

definition sldb_ApplyUpdates ::
  "'s kvs \<Rightarrow> 's \<Rightarrow> UpdateBatch \<Rightarrow> Height \<Rightarrow> 's \<times> go_err option" where
  "sldb_ApplyUpdates K s batch height =
     (case sldb_batch batch height of
        Inl e \<Rightarrow> (s, Some e)
      | Inr dbBatch \<Rightarrow> kvs_WriteBatch K s dbBatch True)"

definition sldb_GetLatestSavePoint :: "'s kvs \<Rightarrow> 's \<Rightarrow> Height option res" where
  "sldb_GetLatestSavePoint K s =
     res_bind (kvs_Get K s savePointKey) (\<lambda>versionBytes.
       case versionBytes of
         None \<Rightarrow> Inr None
       | Some b \<Rightarrow> res_bind (NewHeightFromBytes b) (\<lambda>(ver, _). Inr (Some ver)))"

definition sldb_ValidateKey :: "'s \<Rightarrow> string \<Rightarrow> go_err option" where
  "sldb_ValidateKey s key = None"

definition stateleveldb :: "'s kvs \<Rightarrow> 's VersionedDB" where
  "stateleveldb K =
     \<lparr>vdb_GetState = sldb_GetState K,
      vdb_GetStateMultipleKeys = sldb_GetStateMultipleKeys K,
      vdb_GetStateRangeScanIterator = sldb_GetStateRangeScanIterator K,
      vdb_ExecuteQuery = sldb_ExecuteQuery,
      vdb_ApplyUpdates = sldb_ApplyUpdates K,
      vdb_GetLatestSavePoint = sldb_GetLatestSavePoint K,
      vdb_ValidateKey = sldb_ValidateKey\<rparr>"

section \<open>Composite keys\<close>

definition sldb_valid_ns :: "string \<Rightarrow> bool" where
  "sldb_valid_ns ns \<longleftrightarrow> ns \<noteq> '''' \<and> no_zero ns"

lemma constructCompositeKey_eq: "constructCompositeKey ns k = string_bytes ns @ 0 # string_bytes k"
  by (simp add: constructCompositeKey_def compositeKeySep_def)

lemma constructCompositeKey_inj:
  "sldb_valid_ns ns \<Longrightarrow> sldb_valid_ns ns' \<Longrightarrow>
     constructCompositeKey ns k = constructCompositeKey ns' k' \<longleftrightarrow> ns = ns' \<and> k = k'"
  by (simp add: constructCompositeKey_eq prefix_inj sldb_valid_ns_def)

lemma constructCompositeKey_same [simp]:
  "constructCompositeKey ns k = constructCompositeKey ns k' \<longleftrightarrow> k = k'"
  by (simp add: constructCompositeKey_eq)

lemma savePointKey_neq: "sldb_valid_ns ns \<Longrightarrow> constructCompositeKey ns k \<noteq> savePointKey"
  by (cases ns) (auto simp: constructCompositeKey_eq savePointKey_def sldb_valid_ns_def)

lemma splitCompositeKey_construct:
  "no_zero ns \<Longrightarrow> splitCompositeKey (constructCompositeKey ns k) = Inr (ns, k)"
  by (simp add: splitCompositeKey_def constructCompositeKey_eq SplitN2_prefix index_slice_def)

section \<open>What a batch writes\<close>

definition enc_vv :: "VersionedValue \<Rightarrow> bytes option" where
  "enc_vv vv = map_option (\<lambda>v. opv (BlockNum (Version vv)) @ opv (TxNum (Version vv)) @ v) (Value vv)"

definition ns_put :: "string \<Rightarrow> nsUpdates \<Rightarrow> level_batch \<Rightarrow> level_batch" where
  "ns_put ns m d = foldl (\<lambda>d (k, vv). map_put (constructCompositeKey ns k) (enc_vv vv) d) d m"

lemma apply_ns_updates_eq: "apply_ns_updates ns m d = Inr (ns_put ns m d)"
proof (induction m arbitrary: d)
  case (Cons e m)
  obtain k vv where "e = (k, vv)" by force
  then show ?case using Cons
    by (cases "Value vv") (simp_all add: ns_put_def enc_vv_def Let_def level_batch_Put_def
        level_batch_Delete_def EncodeValue_eq)
qed (simp add: ns_put_def)

lemma map_get_ns_put:
  "map_wf m \<Longrightarrow> map_get (ns_put ns m d) (constructCompositeKey ns k) =
     (case map_get m k of None \<Rightarrow> map_get d (constructCompositeKey ns k) | Some vv \<Rightarrow> Some (enc_vv vv))"
proof (induction m arbitrary: d)
  case (Cons e m)
  obtain k' vv where e: "e = (k', vv)" by force
  have "k = k' \<Longrightarrow> map_get m k = None" using Cons.prems e by (simp add: map_of_eq_None_iff)
  then show ?case using Cons e by (auto simp: ns_put_def split: option.splits)
qed (simp add: ns_put_def)

lemma map_get_ns_put_other:
  "\<forall>k. x \<noteq> constructCompositeKey ns k \<Longrightarrow> map_get (ns_put ns m d) x = map_get d x"
proof (induction m arbitrary: d)
  case (Cons e m)
  then show ?case by (cases e) (simp add: ns_put_def)
qed (simp add: ns_put_def)

lemma map_wf_ns_put: "map_wf d \<Longrightarrow> map_wf (ns_put ns m d)"
proof (induction m arbitrary: d)
  case (Cons e m)
  then show ?case by (cases e) (simp add: ns_put_def)
qed (simp add: ns_put_def)

definition all_put :: "UpdateBatch \<Rightarrow> string list \<Rightarrow> level_batch \<Rightarrow> level_batch" where
  "all_put b nss d = foldl (\<lambda>d ns. ns_put ns (GetUpdates b ns) d) d nss"

lemma apply_all_updates_eq: "apply_all_updates b nss d = Inr (all_put b nss d)"
  by (induction nss arbitrary: d) (simp_all add: all_put_def apply_ns_updates_eq)

lemma map_wf_all_put: "map_wf d \<Longrightarrow> map_wf (all_put b nss d)"
  by (induction nss arbitrary: d) (simp_all add: all_put_def map_wf_ns_put)

lemma GetUpdates_wf: "batch_wf b \<Longrightarrow> map_wf (GetUpdates b ns)"
  by (auto simp: GetUpdates_def dest: batch_wf_get split: option.splits)

lemma map_get_GetUpdates: "map_get (GetUpdates b ns) k = batch_Get b ns k"
  by (simp add: GetUpdates_def batch_Get_eq split: option.splits)

lemma map_get_all_put:
  assumes "batch_wf b" "distinct nss" "\<forall>n \<in> set nss. sldb_valid_ns n" "sldb_valid_ns ns"
  shows "map_get (all_put b nss d) (constructCompositeKey ns k) =
     (if ns \<in> set nss \<and> batch_Get b ns k \<noteq> None then Some (enc_vv (the (batch_Get b ns k)))
      else map_get d (constructCompositeKey ns k))"
  using assms(2,3)
proof (induction nss arbitrary: d)
  case (Cons n nss)
  show ?case
  proof (cases "n = ns")
    case True
    have "map_get (all_put b nss (ns_put ns (GetUpdates b ns) d)) (constructCompositeKey ns k)
        = map_get (ns_put ns (GetUpdates b ns) d) (constructCompositeKey ns k)"
      using Cons True by simp
    then show ?thesis using True
      by (auto simp: all_put_def map_get_ns_put GetUpdates_wf[OF assms(1)] map_get_GetUpdates)
  next
    case False
    then have "\<forall>k'. constructCompositeKey ns k \<noteq> constructCompositeKey n k'"
      using Cons.prems assms(4) by (simp add: constructCompositeKey_inj)
    then show ?thesis using Cons False by (auto simp: all_put_def map_get_ns_put_other)
  qed
qed (simp add: all_put_def)

lemma sldb_batch_eq:
  "sldb_batch b h = Inr (map_put savePointKey (Some (opv (BlockNum h) @ opv (TxNum h)))
     (all_put b (map fst (updates b)) []))"
  by (simp add: sldb_batch_def apply_all_updates_eq GetUpdatedNamespaces_def NewLevelBatch_def
      level_batch_Put_def)

section \<open>The contract\<close>

definition sldb_view :: "('s \<Rightarrow> bytes \<rightharpoonup> bytes) \<Rightarrow> 's \<Rightarrow> string \<Rightarrow> string \<rightharpoonup> VersionedValue" where
  "sldb_view kview s ns k = (case kview s (constructCompositeKey ns k) of
     None \<Rightarrow> None
   | Some d \<Rightarrow> (case DecodeValue d of
       Inl e \<Rightarrow> None
     | Inr (val, ver) \<Rightarrow> Some \<lparr>Value = Some val, Version = ver\<rparr>))"

text \<open>Every value kept under the key of a valid namespace is an encoded versioned value.\<close>

definition sldb_inv :: "('s \<Rightarrow> bytes \<rightharpoonup> bytes) \<Rightarrow> 's \<Rightarrow> bool" where
  "sldb_inv kview s \<longleftrightarrow> (\<forall>ns k d. sldb_valid_ns ns \<longrightarrow>
     kview s (constructCompositeKey ns k) = Some d \<longrightarrow> (\<exists>vv. Some d = enc_vv vv))"

lemma DecodeValue_enc_vv: "Some d = enc_vv vv \<Longrightarrow> DecodeValue d = Inr (the (Value vv), Version vv)"
  by (cases "Value vv") (auto simp: enc_vv_def DecodeValue_def)

lemma sldb_inv_cases:
  assumes "sldb_inv kview s" "sldb_valid_ns ns"
  obtains "kview s (constructCompositeKey ns k) = None" "sldb_view kview s ns k = None"
  | d val ver where "kview s (constructCompositeKey ns k) = Some d" "DecodeValue d = Inr (val, ver)"
      "sldb_view kview s ns k = Some \<lparr>Value = Some val, Version = ver\<rparr>"
  using assms unfolding sldb_inv_def sldb_view_def
  by (cases "kview s (constructCompositeKey ns k)") (fastforce dest: DecodeValue_enc_vv)+

context kv_store
begin

lemma sldb_GetState_view:
  assumes "sldb_inv kview s" "sldb_valid_ns ns" "sldb_GetState K s ns k = Inr v"
  shows "v = sldb_view kview s ns k"
  using assms(1,2)
  by (cases rule: sldb_inv_cases[where k = k])
    (use assms(3) in \<open>auto simp: sldb_GetState_def res_bind_eq_Inr dest!: kvs_Get\<close>)

lemma sldb_GetStateMultipleKeys_view:
  "sldb_inv kview s \<Longrightarrow> sldb_valid_ns ns \<Longrightarrow> sldb_GetStateMultipleKeys K s ns ks = Inr vs
     \<Longrightarrow> vs = map (sldb_view kview s ns) ks"
  by (induction ks arbitrary: vs) (auto simp: res_bind_eq_Inr sldb_GetState_view)

lemma sldb_end_key:
  "(constructCompositeKey ns [])[length (constructCompositeKey ns []) - 1 := lastKeyIndicator]
     = string_bytes ns @ [1]"
  by (simp add: constructCompositeKey_eq lastKeyIndicator_def list_update_append)

lemma sldb_range:
  "e' = (if e = [] then string_bytes ns @ [1] else constructCompositeKey ns e) \<Longrightarrow>
     constructCompositeKey ns a \<le> x \<and> below (Some e') x
       \<longleftrightarrow> (\<exists>kb. x = (string_bytes ns @ [0]) @ kb \<and> key_in_range a e (bytes_string kb))"
proof -
  have le: "a \<le> bytes_string kb \<longleftrightarrow> string_bytes a \<le> kb" for kb
    using string_bytes_le[of a "bytes_string kb"] by simp
  have lt: "bytes_string kb < e \<longleftrightarrow> kb < string_bytes e" for kb
    using string_bytes_less[of "bytes_string kb" e] by simp
  assume "e' = (if e = [] then string_bytes ns @ [1] else constructCompositeKey ns e)"
  then show ?thesis
    using between_prefix_open_iff[of "string_bytes ns" "string_bytes a" x]
      between_prefix_iff[of "string_bytes ns @ [0]" "string_bytes a" x "string_bytes e"]
    by (auto simp: below_def key_in_range_def le lt constructCompositeKey_eq)
qed

lemma sldb_scan_keys:
  assumes "finite (dom m)"
  shows "sorted_list_of_set {kb \<in> dom m. key_in_range a e (bytes_string kb)}
    = map string_bytes (sorted_list_of_set {k. m (string_bytes k) \<noteq> None \<and> key_in_range a e k})"
proof -
  let ?A = "{k. m (string_bytes k) \<noteq> None \<and> key_in_range a e k}"
  have im: "string_bytes ` ?A = {kb \<in> dom m. key_in_range a e (bytes_string kb)}"
    by (auto simp: dom_def image_iff) (metis string_bytes_string bytes_string_bytes)
  then have "finite (string_bytes ` ?A)" using assms by simp
  then have "finite ?A" by (rule finite_imageD) (simp add: inj_on_def)
  then show ?thesis unfolding im[symmetric]
    by (intro sorted_distinct_set_unique) (auto simp: sorted_map distinct_map inj_on_def)
qed

lemma kvScanner_Next_view:
  assumes "sldb_inv kview s" "sldb_valid_ns ns" "k \<in> dom (sldb_view kview s ns)"
  shows "kvScanner_Next ns (Inr (constructCompositeKey ns k), the (kview s (constructCompositeKey ns k)))
    = Inr (mkVersionedKV ns k (the (sldb_view kview s ns k)))"
proof -
  have "splitCompositeKey (constructCompositeKey ns k) = Inr (ns, k)"
    using assms(2) by (simp add: splitCompositeKey_construct sldb_valid_ns_def)
  with assms(1,2) show ?thesis
    by (cases rule: sldb_inv_cases[where k = k]) (use assms(3) in \<open>auto simp: kvScanner_Next_def\<close>)
qed

lemma sldb_scan:
  assumes inv: "sldb_inv kview s" and ns: "sldb_valid_ns ns"
  shows "sldb_GetStateRangeScanIterator K s ns a e
    = Inr (map Inr (scan_view ns a e (sldb_view kview s ns)))"
proof -
  let ?p = "string_bytes ns @ [0]" and ?e = "if e = [] then string_bytes ns @ [1] else constructCompositeKey ns e"
  let ?P = "\<lambda>k. constructCompositeKey ns a \<le> k \<and> below (Some ?e) k"
  let ?m = "\<lambda>kb. kview s (?p @ kb)" and ?Q = "\<lambda>kb. key_in_range a e (bytes_string kb)"
  have m: "?m (string_bytes k) = kview s (constructCompositeKey ns k)" for k
    by (simp add: constructCompositeKey_eq)
  have fin: "finite (dom ?m)"
  proof -
    have "inj_on ((@) ?p) (dom ?m)" by (auto simp: inj_on_def)
    moreover have "(@) ?p ` dom ?m \<subseteq> dom (kview s)" by auto
    ultimately show ?thesis using kvs_finite inj_on_finite by blast
  qed
  have ks: "{k. ?m (string_bytes k) \<noteq> None \<and> key_in_range a e k}
      = {k \<in> dom (sldb_view kview s ns). key_in_range a e k}"
    unfolding m by (rule Collect_cong) (metis assms domIff option.distinct(1) sldb_inv_cases)
  have "range_entries (kview s) ?P = map (\<lambda>(k, v). (?p @ k, v)) (range_entries ?m ?Q)"
    by (rule range_entries_prefix[OF kvs_finite]) (rule sldb_range[OF refl])
  also have "\<dots> = map (\<lambda>k. (constructCompositeKey ns k, the (kview s (constructCompositeKey ns k))))
      (scan_keys a e (sldb_view kview s ns))"
    unfolding range_entries_def sldb_scan_keys[OF fin] ks scan_keys_def
    by (simp add: constructCompositeKey_eq comp_def)
  finally have "range_entries (kview s) ?P
      = map (\<lambda>k. (constructCompositeKey ns k, the (kview s (constructCompositeKey ns k))))
          (scan_keys a e (sldb_view kview s ns))" .
  moreover note kvScanner_Next_view[OF assms]
  moreover have "set (scan_keys a e (sldb_view kview s ns)) \<subseteq> dom (sldb_view kview s ns)"
    unfolding scan_keys_def by (cases "finite {k \<in> dom (sldb_view kview s ns). key_in_range a e k}") auto
  then have "\<forall>k \<in> set (scan_keys a e (sldb_view kview s ns)). k \<in> dom (sldb_view kview s ns)" by blast
  ultimately have "map (\<lambda>(k, v). kvScanner_Next ns (Inr k, v)) (range_entries (kview s) ?P)
      = map Inr (scan_view ns a e (sldb_view kview s ns))"
    by (auto simp: scan_view_def)
  moreover have "(if e = [] then (constructCompositeKey ns e)[length (constructCompositeKey ns e) - 1 := lastKeyIndicator]
      else constructCompositeKey ns e) = ?e" using sldb_end_key by simp
  ultimately show ?thesis
    unfolding sldb_GetStateRangeScanIterator_def Let_def kvs_GetIterator
    by (simp only: map_map comp_def case_prod_unfold fst_conv snd_conv)
qed

lemma sldb_ApplyUpdates_kview:
  assumes "batch_wf b" "sldb_ApplyUpdates K s b h = (s', None)"
  shows "kview s' = kv_overlay (kview s)
    (map_put savePointKey (Some (opv (BlockNum h) @ opv (TxNum h))) (all_put b (map fst (updates b)) []))"
  using assms(2) by (intro kvs_WriteBatch[where sync = True])
    (simp_all add: sldb_ApplyUpdates_def sldb_batch_eq map_wf_all_put)

lemma sldb_ApplyUpdates_key:
  assumes "batch_wf b" "\<forall>n \<in> batch_namespaces b. sldb_valid_ns n" "sldb_valid_ns ns"
    and "sldb_ApplyUpdates K s b h = (s', None)"
  shows "kview s' (constructCompositeKey ns k) = (case batch_Get b ns k of
      None \<Rightarrow> kview s (constructCompositeKey ns k) | Some vv \<Rightarrow> enc_vv vv)"
proof -
  have "batch_Get b ns k \<noteq> None \<Longrightarrow> ns \<in> fst ` set (updates b)"
    by (auto simp: batch_Get_eq bind_eq_Some_conv dest!: map_of_SomeD) force
  moreover have "distinct (map fst (updates b))" "\<forall>n \<in> set (map fst (updates b)). sldb_valid_ns n"
    using assms(1,2) by (simp_all add: batch_wf_def batch_namespaces_def)
  ultimately show ?thesis
    using map_get_all_put[OF assms(1) _ _ assms(3)] savePointKey_neq[OF assms(3)]
    by (auto simp: sldb_ApplyUpdates_kview[OF assms(1,4)] kv_overlay_def split: option.splits)
qed

lemma sldb_savepoint:
  assumes "batch_wf b" "sldb_ApplyUpdates K s b h = (s', None)"
    and "sldb_GetLatestSavePoint K s' = Inr sp"
  shows "sp = Some h"
proof -
  have "kview s' savePointKey = Some (opv (BlockNum h) @ opv (TxNum h) @ [])"
    by (simp add: sldb_ApplyUpdates_kview[OF assms(1,2)] kv_overlay_def)
  then show ?thesis using assms(3) NewHeightFromBytes_opv[of h "[]"]
    by (auto simp: sldb_GetLatestSavePoint_def res_bind_eq_Inr dest!: kvs_Get)
qed

end

sublocale kv_store \<subseteq> versioned_db "stateleveldb K" "sldb_inv kview" "sldb_view kview" sldb_valid_ns
proof unfold_locales
  fix s ns b h s'
  assume b: "sldb_inv kview s" "batch_wf b" "\<forall>ns \<in> batch_namespaces b. sldb_valid_ns ns"
    and u: "vdb_ApplyUpdates (stateleveldb K) s b h = (s', None)"
  then have u': "sldb_ApplyUpdates K s b h = (s', None)" by (simp add: stateleveldb_def)
  note key = sldb_ApplyUpdates_key[OF b(2,3) _ u']
  show "sldb_inv kview s'"
    using b(1) unfolding sldb_inv_def
    by (intro allI impI) (metis (no_types, lifting) key option.case_eq_if)
  show "sldb_view kview s' ns = overlay (sldb_view kview s) b ns" if "sldb_valid_ns ns"
    by (rule ext) (auto simp: sldb_view_def overlay_def key[OF that] enc_vv_def DecodeValue_def
        split: option.splits)
  show "sp = Some h" if "vdb_GetLatestSavePoint (stateleveldb K) s' = Inr sp" for sp
    using sldb_savepoint[OF b(2) u'] that by (simp add: stateleveldb_def)
next
  fix s ns assume "sldb_inv kview s" "sldb_valid_ns ns"
  have "inj_on (constructCompositeKey ns) (dom (sldb_view kview s ns))" by (simp add: inj_on_def)
  moreover have "constructCompositeKey ns ` dom (sldb_view kview s ns) \<subseteq> dom (kview s)"
    by (auto simp: sldb_view_def split: option.splits)
  ultimately show "finite (dom (sldb_view kview s ns))" using kvs_finite inj_on_finite by blast
next
  show "sldb_view kview s ns k = Some vv \<Longrightarrow> Value vv \<noteq> None" for s ns k vv
    by (auto simp: sldb_view_def split: option.splits sum.splits)
qed (auto simp: stateleveldb_def sldb_GetState_view sldb_GetStateMultipleKeys_view sldb_scan sldb_ExecuteQuery_def)

context kv_store_ok
begin

lemma sldb_savepoint_total:
  assumes "batch_wf b" "sldb_ApplyUpdates K s b h = (s', None)"
  shows "sldb_GetLatestSavePoint K s' = Inr (Some h)"
proof -
  have "kview s' savePointKey = Some (opv (BlockNum h) @ opv (TxNum h) @ [])"
    by (simp add: sldb_ApplyUpdates_kview[OF assms] kv_overlay_def)
  moreover obtain v where "kvs_Get K s' savePointKey = Inr v" using kvs_Get_total by blast
  ultimately show ?thesis using NewHeightFromBytes_opv[of h "[]"] kvs_Get
    by (fastforce simp: sldb_GetLatestSavePoint_def)
qed

end

sublocale kv_store_ok \<subseteq> versioned_db_ok "stateleveldb K" "sldb_inv kview" "sldb_view kview" sldb_valid_ns
proof unfold_locales
  fix s ns k assume "sldb_inv kview s" "sldb_valid_ns ns"
  then show "\<exists>v. vdb_GetState (stateleveldb K) s ns k = Inr v"
  proof (cases rule: sldb_inv_cases[where k = k])
    case 1
    obtain v where "kvs_Get K s (constructCompositeKey ns k) = Inr v" using kvs_Get_total by blast
    then show ?thesis using 1 kvs_Get by (fastforce simp: stateleveldb_def sldb_GetState_def)
  next
    case (2 d val ver)
    obtain v where "kvs_Get K s (constructCompositeKey ns k) = Inr v" using kvs_Get_total by blast
    then show ?thesis using 2 kvs_Get by (fastforce simp: stateleveldb_def sldb_GetState_def)
  qed
  show "\<exists>itr. vdb_GetStateRangeScanIterator (stateleveldb K) s ns a e = Inr itr" for a e
    by (simp add: stateleveldb_def sldb_GetStateRangeScanIterator_def Let_def)
next
  fix s
  show "snd (vdb_ApplyUpdates (stateleveldb K) s b h) = None" for b h
    by (simp add: stateleveldb_def sldb_ApplyUpdates_def sldb_batch_eq kvs_WriteBatch_total)
  show "\<exists>sp. vdb_GetLatestSavePoint (stateleveldb K) s' = Inr sp"
    if "batch_wf b" "vdb_ApplyUpdates (stateleveldb K) s b h = (s', None)" for b h s'
    using sldb_savepoint_total[of b s h s'] that by (simp add: stateleveldb_def)
qed

context kv_store_ok
begin

lemma sldb_update_read:
  assumes "sldb_inv kview s" "batch_wf b" "\<forall>n \<in> batch_namespaces b. sldb_valid_ns n"
    and "sldb_valid_ns ns" and "sldb_ApplyUpdates K s b h = (s', err)"
  shows "err = None \<and> sldb_inv kview s'
    \<and> sldb_GetState K s' ns k = (case batch_Get b ns k of
        None \<Rightarrow> sldb_GetState K s ns k
      | Some vv \<Rightarrow> Inr (if Value vv = None then None else Some vv))
    \<and> sldb_GetStateRangeScanIterator K s' ns a e
        = Inr (map Inr (scan_view ns a e (overlay (sldb_view kview s) b ns)))
    \<and> sldb_GetLatestSavePoint K s' = Inr (Some h)"
proof -
  have err: "err = None"
    using ApplyUpdates_total[OF assms(1-3), of h] assms(5) by (simp add: stateleveldb_def)
  then have u: "sldb_ApplyUpdates K s b h = (s', None)" using assms(5) by simp
  then have u': "vdb_ApplyUpdates (stateleveldb K) s b h = (s', None)" by (simp add: stateleveldb_def)
  have inv: "sldb_inv kview s'" by (rule ApplyUpdates_inv[OF assms(1-3) u'])
  have view: "sldb_view kview s' ns = overlay (sldb_view kview s) b ns"
    by (rule ApplyUpdates_view[OF assms(1-3) u' assms(4)])
  have gs: "sldb_GetState K s'' ns k = Inr (sldb_view kview s'' ns k)" if "sldb_inv kview s''" for s''
    using GetState_eq[OF that assms(4)] by (simp add: stateleveldb_def)
  show ?thesis
    using err inv sldb_scan[OF inv assms(4)] sldb_savepoint_total[OF assms(2) u]
    by (simp add: gs assms(1) view overlay_def split: option.splits)
qed

end

text \<open>The state database of a channel over the in-memory database.\<close>

abbreviation chan_db :: "memdb_state VersionedDB" where
  "chan_db \<equiv> stateleveldb (DBHandle memdb ''mychannel'')"

abbreviation chan_kview :: "memdb_state \<Rightarrow> bytes \<rightharpoonup> bytes" where
  "chan_kview \<equiv> handle_view map_of ''mychannel''"

lemma chan_versioned_db:
  "versioned_db_ok chan_db (sldb_inv chan_kview) (sldb_view chan_kview) sldb_valid_ns"
  ..

interpretation chan: versioned_db_ok chan_db "sldb_inv chan_kview" "sldb_view chan_kview" sldb_valid_ns
  by (rule chan_versioned_db)

text \<open>C9. The leveldb state database implements the contract of \<^verbatim>\<open>VersionedDB\<close>: over a
  goleveldb that behaves as documented and a channel name without a zero byte, applying a
  batch of updates succeeds; afterwards a read of a key returns what the batch says of the
  key (nothing for a deletion) and for any other key what it returned before, a range scan
  returns the entries of the range in key order, and the save point is the height of the
  batch. This holds for the namespaces that are not empty and hold no zero byte.\<close>

theorem stateleveldb_update_then_read:
  assumes "level_handle_ok L lview n"
    and "sldb_inv (handle_view lview n) s" "batch_wf b"
    and "\<forall>m \<in> batch_namespaces b. sldb_valid_ns m" "sldb_valid_ns ns"
    and "sldb_ApplyUpdates (DBHandle L n) s b h = (s', err)"
  shows "err = None \<and> sldb_inv (handle_view lview n) s'
    \<and> sldb_GetState (DBHandle L n) s' ns k = (case batch_Get b ns k of
        None \<Rightarrow> sldb_GetState (DBHandle L n) s ns k
      | Some vv \<Rightarrow> Inr (if Value vv = None then None else Some vv))
    \<and> sldb_GetStateRangeScanIterator (DBHandle L n) s' ns a e
        = Inr (map Inr (scan_view ns a e (overlay (sldb_view (handle_view lview n) s) b ns)))
    \<and> sldb_GetLatestSavePoint (DBHandle L n) s' = Inr (Some h)"
proof -
  have "kv_store_ok (DBHandle L n) (handle_view lview n)"
    using assms(1) by (rule level_handle_ok.handle_kv_store)
  from kv_store_ok.sldb_update_read[OF this assms(2-6)] show ?thesis .
qed

text \<open>The empty namespace with the empty key is the key of the save point, so a value
  written there is lost with the batch that writes it.\<close>

lemma savePointKey_collision: "constructCompositeKey [] [] = savePointKey"
  by (simp add: constructCompositeKey_eq savePointKey_def)

definition ex_batch :: UpdateBatch where
  "ex_batch = batch_set NewUpdateBatch ''cc'' ''k'' \<lparr>Value = Some [7], Version = NewHeight 1 0\<rparr>"

lemma sldb_inv_empty: "sldb_inv (handle_view map_of n) []"
  by (simp add: sldb_inv_def handle_view_def)

lemma ex_batch_wf: "batch_wf ex_batch"
  by (simp add: ex_batch_def)

lemma ex_batch_ns: "\<forall>m \<in> batch_namespaces ex_batch. sldb_valid_ns m"
  by (simp add: ex_batch_def batch_namespaces_def batch_set_def getOrCreateNsUpdates_def
      NewUpdateBatch_def sldb_valid_ns_def no_zero_def)

theorem stateleveldb_update_then_read_witness:
  "\<exists>s'. sldb_ApplyUpdates (DBHandle memdb ''mychannel'') [] ex_batch (NewHeight 1 0) = (s', None)
     \<and> sldb_GetState (DBHandle memdb ''mychannel'') s' ''cc'' ''k''
         = Inr (Some \<lparr>Value = Some [7], Version = NewHeight 1 0\<rparr>)"
proof -
  obtain s' err where u:
    "sldb_ApplyUpdates (DBHandle memdb ''mychannel'') [] ex_batch (NewHeight 1 0) = (s', err)"
    by fastforce
  have "sldb_valid_ns ''cc''" by (simp add: sldb_valid_ns_def no_zero_def)
  from stateleveldb_update_then_read[OF mem_ch.level_handle_ok_axioms sldb_inv_empty ex_batch_wf ex_batch_ns this u,
      where k = "''k''"]
  show ?thesis using u by (simp add: ex_batch_def)
qed

end
