(* ===== verification/Ledger_Examples.thy ===== *)
theory Ledger_Examples
  imports MVCC_Validator State_LevelDB
begin

text \<open>
  A concrete instance of the parameters of the ledger: message codecs, hash functions, a block
  with two transactions and an in-memory state database, on which the hypotheses of the
  theorems on the ledger are discharged.
\<close>

text \<open>Messages whose contents do not depend on their bytes: every transaction of a block reads
  that the key \<open>k\<close> of the namespace \<open>cc\<close> is absent and writes it.\<close>

definition ex_tx_codec :: tx_codec where
  "ex_tx_codec =
     \<lparr>unmarshal_Envelope = (\<lambda>b. Inr \<lparr>env_Payload = b, env_Signature = []\<rparr>),
      unmarshal_Payload = (\<lambda>b. Inr \<lparr>pl_Header = Some \<lparr>hdr_ChannelHeader = [], hdr_SignatureHeader = []\<rparr>, pl_Data = b\<rparr>),
      unmarshal_ChannelHeader = (\<lambda>b. Inr \<lparr>ch_Type = 3, ch_ChannelId = ''mychannel'', ch_TxId = ''tx'', ch_Timestamp = None\<rparr>),
      unmarshal_Transaction = (\<lambda>b. Inr [\<lparr>ta_Payload = b\<rparr>]),
      unmarshal_ChaincodeActionPayload = (\<lambda>b. Inr \<lparr>cap_Action = Some (Some b)\<rparr>),
      unmarshal_ProposalResponsePayload = (\<lambda>b. Inr \<lparr>prp_Extension = Some b\<rparr>),
      unmarshal_ChaincodeAction = (\<lambda>b. Inr \<lparr>ca_Results = b\<rparr>)\<rparr>"

definition ex_kvrw :: KVRWSet where
  "ex_kvrw = \<lparr>Reads = [\<lparr>r_Key = ''k'', r_Version = None\<rparr>], RangeQueriesInfo = [],
              Writes = [\<lparr>w_Key = ''k'', w_IsDelete = False, w_Value = Some [7]\<rparr>]\<rparr>"

definition ex_proto :: proto_codec where
  "ex_proto =
     \<lparr>marshal_KVRWSet = (\<lambda>kv. if kv = ex_kvrw then Inr [1] else Inl (GoErr ''marshal'')),
      unmarshal_KVRWSet = (\<lambda>b. Inr ex_kvrw),
      marshal_TxReadWriteSet = (\<lambda>l. if l = [\<lparr>proto_Namespace = ''cc'', proto_Rwset = [1]\<rparr>] then Inr [2]
                                     else Inl (GoErr ''marshal'')),
      unmarshal_TxReadWriteSet = (\<lambda>b. Inr [\<lparr>proto_Namespace = ''cc'', proto_Rwset = [1]\<rparr>])\<rparr>"

definition ex_env :: val_env where
  "ex_env = \<lparr>ve_hash = (\<lambda>b. Inr [word_of_nat (length b)]), ve_serialize = (\<lambda>rs. Inr [word_of_nat (length rs)]),
             ve_proto = ex_proto, ve_tx = ex_tx_codec\<rparr>"

definition ex_block :: Block where
  "ex_block = \<lparr>blk_Number = 1, blk_Data = [[1], [2]], blk_Metadata = [[], [], [], []],
     blk_PreviousHash = [], blk_DataHash = []\<rparr>"

definition ex_rw :: TxRwSet where
  "ex_rw = \<lparr>NsRwSets = [\<lparr>NameSpace = ''cc'', KvRwSet = ex_kvrw\<rparr>]\<rparr>"

lemma ex_rwset: "endorser_rwset ex_env env = Some ex_rw"
  by (simp add: endorser_rwset_def env_type_def ex_env_def ex_tx_codec_def ex_proto_def ex_rw_def
      GetEnvelopeFromBlock_def GetPayload_def UnmarshalChannelHeader_def GetActionFromEnvelope_def
      GetTransaction_def GetPayloads_def FromProtoBytes_def HeaderType_ENDORSER_TRANSACTION_def)

lemma ex_rw_ns: "\<forall>env \<in> set l. \<forall>t. endorser_rwset ex_env env = Some t \<longrightarrow> tx_ns_ok sldb_valid_ns t"
  by (simp add: ex_rwset ex_rw_def tx_ns_ok_def sldb_valid_ns_def no_zero_def)

text \<open>The first transaction is valid, the second reads what the first has overwritten.\<close>

definition ex_updates :: UpdateBatch where
  "ex_updates = \<lparr>updates = [(''cc'', [(''k'', \<lparr>Value = Some [7], Version = NewHeight 1 0\<rparr>)])]\<rparr>"

lemma ex_validate:
  "ValidateAndPrepareBatch ex_env chan_db [] ex_block True
     = (ex_block\<lparr>blk_Metadata := [[], [], [0, 11], []]\<rparr>, Inr ex_updates)"
  by code_simp

text \<open>The database of the example holds at most as many keys as its store.\<close>

lemma card_chan_view: "card (dom (sldb_view chan_kview s ns)) \<le> length s"
proof -
  let ?f = "\<lambda>k. constructLevelKey ''mychannel'' (constructCompositeKey ns k)"
  have "?f ` dom (sldb_view chan_kview s ns) \<subseteq> fst ` set s"
    by (auto simp: sldb_view_def handle_view_def dom_def map_of_eq_None_iff split: option.splits)
  moreover have "inj_on ?f (dom (sldb_view chan_kview s ns))"
    by (auto simp: inj_on_def constructLevelKey_def constructCompositeKey_eq)
  ultimately have "card (dom (sldb_view chan_kview s ns)) \<le> card (fst ` set s)" by (intro card_inj_on_le) auto
  also have "\<dots> \<le> length s" using card_image_le[of "set s" fst] card_length[of s] by (meson List.finite_set le_trans)
  finally show ?thesis .
qed

end
