(* ===== verification/CAuth_DSL.thy ===== *)
theory CAuth_DSL
  imports Fabric_Prelude
begin

text \<open>
  Signature policies (\<^verbatim>\<open>common/cauthdsl\<close>): the removal of duplicate identities and the
  compilation of a policy into an evaluator (\<^verbatim>\<open>cauthdsl.go\<close>), its evaluation over a set of
  signatures (\<^verbatim>\<open>policy.go\<close>), the builders (\<^verbatim>\<open>cauthdsl_builder.go\<close>) and the pass of the policy
  parser that builds a policy from a gate call (\<^verbatim>\<open>secondPass\<close> of \<^verbatim>\<open>policyparser.go\<close>).

  The membership service is reached through the interface \<^verbatim>\<open>msp.IdentityDeserializer\<close> and the
  methods of \<^verbatim>\<open>msp.Identity\<close>; both are the fields of a record, and a method that returns an
  error is one that fails. A compiled policy is a function on the signatures and the flags of
  the signatures used so far, which it returns updated.
\<close>

section \<open>Messages and the membership service\<close>

type_synonym int32 = "32 word"

record MSPPrincipal =
  PrincipalClassification :: int
  Principal :: bytes

record SignedData =
  sd_Data :: bytes
  sd_Identity :: bytes
  sd_Signature :: bytes

text \<open>\<open>SP_Unknown\<close> is a policy whose \<^verbatim>\<open>Type\<close> is not set.\<close>

datatype SignaturePolicy =
    SP_SignedBy int32
  | SP_NOutOf int32 "SignaturePolicy option list"
  | SP_Unknown

record SignaturePolicyEnvelope =
  spe_Version :: int32
  spe_Rule :: "SignaturePolicy option"
  spe_Identities :: "MSPPrincipal list"

record 'i IdentityDeserializer =
  DeserializeIdentity :: "bytes \<Rightarrow> 'i option"
  SatisfiesPrincipal :: "'i \<Rightarrow> MSPPrincipal \<Rightarrow> bool"
  id_Verify :: "'i \<Rightarrow> bytes \<Rightarrow> bytes \<Rightarrow> bool"

section \<open>Evaluation\<close>

fun deduplicate_loop :: "SignedData list \<Rightarrow> bytes list \<Rightarrow> SignedData list" where
  "deduplicate_loop [] ids = []"
| "deduplicate_loop (sd # sds) ids =
     (if sd_Identity sd \<in> set ids then deduplicate_loop sds ids
      else sd # deduplicate_loop sds (sd_Identity sd # ids))"

definition deduplicate :: "SignedData list \<Rightarrow> SignedData list" where
  "deduplicate sds = deduplicate_loop sds []"

type_synonym evaluator = "SignedData list \<Rightarrow> bool list \<Rightarrow> (bool \<times> bool list) res"

text \<open>The evaluator of a \<^verbatim>\<open>SignedBy\<close>: the first unused signature of the principal is taken.\<close>

fun signed_by_loop :: "'i IdentityDeserializer \<Rightarrow> MSPPrincipal \<Rightarrow> nat \<Rightarrow> evaluator" where
  "signed_by_loop D signedByID i [] used = Inr (False, used)"
| "signed_by_loop D signedByID i (sd # sds) used =
     res_bind (index_slice used (int i)) (\<lambda>u.
       if u then signed_by_loop D signedByID (i + 1) sds used
       else case DeserializeIdentity D (sd_Identity sd) of
         None \<Rightarrow> signed_by_loop D signedByID (i + 1) sds used
       | Some identity \<Rightarrow>
           if \<not> SatisfiesPrincipal D identity signedByID then signed_by_loop D signedByID (i + 1) sds used
           else if \<not> id_Verify D identity (sd_Data sd) (sd_Signature sd)
           then signed_by_loop D signedByID (i + 1) sds used
           else Inr (True, used[i := True]))"

text \<open>The evaluator of an \<^verbatim>\<open>NOutOf\<close>: a rule that fails leaves the flags as they were.\<close>

fun gate_loop :: "evaluator list \<Rightarrow> SignedData list \<Rightarrow> bool list \<Rightarrow> int32 \<Rightarrow> (int32 \<times> bool list) res" where
  "gate_loop [] signedData used verified = Inr (verified, used)"
| "gate_loop (policy # policies) signedData used verified =
     res_bind (policy signedData used) (\<lambda>(ok, used1).
       if ok then gate_loop policies signedData used1 (verified + 1)
       else gate_loop policies signedData used verified)"

fun compile :: "MSPPrincipal list \<Rightarrow> 'i IdentityDeserializer \<Rightarrow> SignaturePolicy option \<Rightarrow> evaluator res"
and compile_rules :: "MSPPrincipal list \<Rightarrow> 'i IdentityDeserializer \<Rightarrow> SignaturePolicy option list
    \<Rightarrow> evaluator list res" where
  "compile identities D None = Inl (GoErr ''Empty policy element'')"
| "compile identities D (Some (SP_NOutOf n rules)) =
     res_bind (compile_rules identities D rules) (\<lambda>policies.
       Inr (\<lambda>signedData used.
         res_bind (gate_loop policies signedData used 0) (\<lambda>(verified, used').
           Inr (sint n \<le> sint verified, used'))))"
| "compile identities D (Some (SP_SignedBy k)) =
     (if sint k < 0 \<or> sint (word_of_nat (length identities) :: int32) \<le> sint k
      then Inl (GoErr ''identity index out of range'')
      else res_bind (index_slice identities (sint k)) (\<lambda>signedByID. Inr (signed_by_loop D signedByID 0)))"
| "compile identities D (Some SP_Unknown) = Inl (GoErr ''Unknown type'')"
| "compile_rules identities D [] = Inr []"
| "compile_rules identities D (policy # rules) =
     res_bind (compile identities D policy) (\<lambda>compiledPolicy.
     res_bind (compile_rules identities D rules) (\<lambda>policies. Inr (compiledPolicy # policies)))"

text \<open>The decoder of the envelope message is a parameter.\<close>

definition NewPolicy :: "(bytes \<Rightarrow> SignaturePolicyEnvelope option) \<Rightarrow> 'i IdentityDeserializer \<Rightarrow> bytes \<Rightarrow> evaluator res" where
  "NewPolicy unmarshal D data =
     (case unmarshal data of
        None \<Rightarrow> Inl (GoErr ''Error unmarshaling to SignaturePolicy'')
      | Some sigPolicy \<Rightarrow>
          if spe_Version sigPolicy \<noteq> 0 then Inl (GoErr ''This evaluator only understands messages of version 0'')
          else compile (spe_Identities sigPolicy) D (spe_Rule sigPolicy))"

definition Evaluate :: "evaluator option \<Rightarrow> SignedData list \<Rightarrow> unit res" where
  "Evaluate p signatureSet =
     (case p of
        None \<Rightarrow> Inl (GoErr ''No such policy'')
      | Some evaluator \<Rightarrow>
          res_bind (evaluator (deduplicate signatureSet) (replicate (length signatureSet) False)) (\<lambda>(ok, _).
            if \<not> ok then Inl (GoErr ''Failed to authenticate policy'') else Inr ()))"

section \<open>Builders\<close>

definition MSPPrincipal_ROLE :: int where "MSPPrincipal_ROLE = 0"
definition MSPPrincipal_IDENTITY :: int where "MSPPrincipal_IDENTITY = 2"
definition MSPRole_MEMBER :: int where "MSPRole_MEMBER = 0"
definition MSPRole_ADMIN :: int where "MSPRole_ADMIN = 1"

record MSPRole =
  MspIdentifier :: string
  Role :: int

definition Envelope_policy :: "SignaturePolicy option \<Rightarrow> bytes list \<Rightarrow> SignaturePolicyEnvelope" where
  "Envelope_policy policy identities =
     \<lparr>spe_Version = 0, spe_Rule = policy,
      spe_Identities = map (\<lambda>i. \<lparr>PrincipalClassification = MSPPrincipal_IDENTITY, Principal = i\<rparr>) identities\<rparr>"

definition SignedBy :: "int32 \<Rightarrow> SignaturePolicy" where
  "SignedBy index = SP_SignedBy index"

definition NOutOf :: "int32 \<Rightarrow> SignaturePolicy option list \<Rightarrow> SignaturePolicy" where
  "NOutOf n policies = SP_NOutOf n policies"

definition And :: "SignaturePolicy option \<Rightarrow> SignaturePolicy option \<Rightarrow> SignaturePolicy" where
  "And lhs rhs = NOutOf 2 [lhs, rhs]"

definition Or :: "SignaturePolicy option \<Rightarrow> SignaturePolicy option \<Rightarrow> SignaturePolicy" where
  "Or lhs rhs = NOutOf 1 [lhs, rhs]"

definition AcceptAllPolicy :: SignaturePolicyEnvelope where
  "AcceptAllPolicy = Envelope_policy (Some (NOutOf 0 [])) []"

definition RejectAllPolicy :: SignaturePolicyEnvelope where
  "RejectAllPolicy = Envelope_policy (Some (NOutOf 1 [])) []"

text \<open>The encoder of the role message is a parameter \<open>marshal\<close>.\<close>

definition role_principal :: "(MSPRole \<Rightarrow> bytes) \<Rightarrow> int \<Rightarrow> string \<Rightarrow> MSPPrincipal" where
  "role_principal marshal role mspId =
     \<lparr>PrincipalClassification = MSPPrincipal_ROLE, Principal = marshal \<lparr>MspIdentifier = mspId, Role = role\<rparr>\<rparr>"

definition SignedByMspMember :: "(MSPRole \<Rightarrow> bytes) \<Rightarrow> string \<Rightarrow> SignaturePolicyEnvelope" where
  "SignedByMspMember marshal mspId =
     \<lparr>spe_Version = 0, spe_Rule = Some (NOutOf 1 [Some (SignedBy 0)]),
      spe_Identities = [role_principal marshal MSPRole_MEMBER mspId]\<rparr>"

definition SignedByMspAdmin :: "(MSPRole \<Rightarrow> bytes) \<Rightarrow> string \<Rightarrow> SignaturePolicyEnvelope" where
  "SignedByMspAdmin marshal mspId =
     \<lparr>spe_Version = 0, spe_Rule = Some (NOutOf 1 [Some (SignedBy 0)]),
      spe_Identities = [role_principal marshal MSPRole_ADMIN mspId]\<rparr>"

definition signedByAnyOfGivenRole :: "(MSPRole \<Rightarrow> bytes) \<Rightarrow> int \<Rightarrow> string list \<Rightarrow> SignaturePolicyEnvelope" where
  "signedByAnyOfGivenRole marshal role ids =
     (let ids = sort ids in
      \<lparr>spe_Version = 0,
       spe_Rule = Some (NOutOf 1 (map (\<lambda>i. Some (SignedBy (word_of_nat i))) [0..<length ids])),
       spe_Identities = map (role_principal marshal role) ids\<rparr>)"

definition SignedByAnyMember :: "(MSPRole \<Rightarrow> bytes) \<Rightarrow> string list \<Rightarrow> SignaturePolicyEnvelope" where
  "SignedByAnyMember marshal ids = signedByAnyOfGivenRole marshal MSPRole_MEMBER ids"

definition SignedByAnyAdmin :: "(MSPRole \<Rightarrow> bytes) \<Rightarrow> string list \<Rightarrow> SignaturePolicyEnvelope" where
  "SignedByAnyAdmin marshal ids = signedByAnyOfGivenRole marshal MSPRole_ADMIN ids"

section \<open>The policy parser\<close>

text \<open>The expression evaluator calls \<^verbatim>\<open>secondPass\<close> with the values of the arguments of an
  \<^verbatim>\<open>outof\<close>, innermost call first. The context is shared by all the calls and changed in
  place, so it is part of the result.\<close>

record context_ctx =
  IDNum :: int
  ctx_principals :: "MSPPrincipal list"

definition newContext :: context_ctx where
  "newContext = \<lparr>IDNum = 0, ctx_principals = []\<rparr>"

datatype pass_arg = ArgContext | ArgNumber int | ArgString string | ArgPolicy SignaturePolicy | ArgOther

definition alnum :: "char \<Rightarrow> bool" where
  "alnum c \<longleftrightarrow> CHR ''0'' \<le> c \<and> c \<le> CHR ''9'' \<or> CHR ''A'' \<le> c \<and> c \<le> CHR ''Z'' \<or> CHR ''a'' \<le> c \<and> c \<le> CHR ''z''"

text \<open>The match of \<^verbatim>\<open>^([[:alnum:]]+)([.])(member|admin)$\<close>: the identifier and the role.\<close>

definition regex_match :: "string \<Rightarrow> (string \<times> string) option" where
  "regex_match t =
     (let org = takeWhile alnum t; r = drop (length org) t
      in if org \<noteq> [] \<and> (r = ''.member'' \<or> r = ''.admin'') then Some (org, tl r) else None)"

fun secondPass_loop :: "(MSPRole \<Rightarrow> bytes) \<Rightarrow> pass_arg list \<Rightarrow> context_ctx \<Rightarrow> SignaturePolicy option list
    \<Rightarrow> context_ctx \<times> SignaturePolicy option list res" where
  "secondPass_loop marshal [] ctx policies = (ctx, Inr policies)"
| "secondPass_loop marshal (arg # rest) ctx policies =
     (case arg of
        ArgString t \<Rightarrow>
          (case regex_match t of
             None \<Rightarrow> (ctx, Inl (GoErr ''Error parsing principal''))
           | Some (org, role) \<Rightarrow>
               let r = (if role = ''member'' then MSPRole_MEMBER else MSPRole_ADMIN);
                   p = role_principal marshal r org
               in secondPass_loop marshal rest
                    (ctx\<lparr>ctx_principals := ctx_principals ctx @ [p], IDNum := IDNum ctx + 1\<rparr>)
                    (policies @ [Some (SignedBy (word_of_int (IDNum ctx)))]))
      | ArgPolicy t \<Rightarrow> secondPass_loop marshal rest ctx (policies @ [Some t])
      | _ \<Rightarrow> (ctx, Inl (GoErr ''Unrecognized type, expected a principal or a policy'')))"

definition secondPass :: "(MSPRole \<Rightarrow> bytes) \<Rightarrow> context_ctx \<Rightarrow> pass_arg list \<Rightarrow> context_ctx \<times> SignaturePolicy res" where
  "secondPass marshal ctx args =
     (if length args < 3 then (ctx, Inl (GoErr ''At least 3 arguments expected''))
      else if args ! 0 \<noteq> ArgContext then (ctx, Inl (GoErr ''Unrecognized type, expected the context''))
      else case args ! 1 of
        ArgNumber t \<Rightarrow>
          if int (length args) - 1 < t then (ctx, Inl (GoErr ''Invalid t-out-of-n predicate''))
          else (case secondPass_loop marshal (drop 2 args) ctx [] of
                  (ctx', Inl e) \<Rightarrow> (ctx', Inl e)
                | (ctx', Inr policies) \<Rightarrow> (ctx', Inr (NOutOf (word_of_int t) policies)))
      | _ \<Rightarrow> (ctx, Inl (GoErr ''Unrecognized type, expected a number'')))"

section \<open>What a policy demands\<close>

text \<open>The signature is one of an identity of the principal.\<close>

definition signs :: "'i IdentityDeserializer \<Rightarrow> MSPPrincipal \<Rightarrow> SignedData \<Rightarrow> bool" where
  "signs D p sd = (case DeserializeIdentity D (sd_Identity sd) of
     None \<Rightarrow> False
   | Some i \<Rightarrow> SatisfiesPrincipal D i p \<and> id_Verify D i (sd_Data sd) (sd_Signature sd))"

text \<open>\<open>sat ids D sds p U\<close>: the signatures at the positions \<open>U\<close> of \<open>sds\<close> satisfy the policy, each of
  them counted for one \<^verbatim>\<open>SignedBy\<close> only.\<close>

inductive sat :: "MSPPrincipal list \<Rightarrow> 'i IdentityDeserializer \<Rightarrow> SignedData list \<Rightarrow> SignaturePolicy \<Rightarrow> nat set \<Rightarrow> bool"
  and sat_rules :: "MSPPrincipal list \<Rightarrow> 'i IdentityDeserializer \<Rightarrow> SignedData list \<Rightarrow> SignaturePolicy option list
    \<Rightarrow> nat \<Rightarrow> nat set \<Rightarrow> bool"
  for ids :: "MSPPrincipal list" and D :: "'i IdentityDeserializer" and sds :: "SignedData list" where
  signed: "0 \<le> sint k \<Longrightarrow> nat (sint k) < length ids \<Longrightarrow> i < length sds \<Longrightarrow> signs D (ids ! nat (sint k)) (sds ! i)
    \<Longrightarrow> sat ids D sds (SP_SignedBy k) {i}"
| n_out_of: "sat_rules ids D sds rules m U \<Longrightarrow> sint n \<le> int m \<Longrightarrow> sat ids D sds (SP_NOutOf n rules) U"
| none: "sat_rules ids D sds [] 0 {}"
| skip: "sat_rules ids D sds rules m U \<Longrightarrow> sat_rules ids D sds (r # rules) m U"
| count: "sat ids D sds p V \<Longrightarrow> sat_rules ids D sds rules m U \<Longrightarrow> V \<inter> U = {}
    \<Longrightarrow> sat_rules ids D sds (Some p # rules) (m + 1) (V \<union> U)"

lemma sat_bound:
  "sat ids D sds p U \<Longrightarrow> U \<subseteq> {..<length sds}" "sat_rules ids D sds rules m U \<Longrightarrow> U \<subseteq> {..<length sds}"
  by (induction rule: sat_sat_rules.inducts) auto

text \<open>The counter of a gate does not wrap around: no gate has $2^{31}$ rules.\<close>

fun gates_small :: "SignaturePolicy option \<Rightarrow> bool" and rules_small :: "SignaturePolicy option list \<Rightarrow> bool" where
  "gates_small None = True"
| "gates_small (Some (SP_NOutOf n rules)) = (length rules < 2 ^ 31 \<and> rules_small rules)"
| "gates_small (Some _) = True"
| "rules_small [] = True"
| "rules_small (r # rs) = (gates_small r \<and> rules_small rs)"

definition used_set :: "bool list \<Rightarrow> nat set" where
  "used_set used = {i. i < length used \<and> used ! i}"

lemma used_set_replicate [simp]: "used_set (replicate n False) = {}"
  by (auto simp: used_set_def)

lemma used_set_update: "i < length used \<Longrightarrow> used_set (used[i := True]) = insert i (used_set used)"
  by (auto simp: used_set_def nth_list_update)

section \<open>Soundness of the evaluation\<close>

lemma signed_by_loop_Cons:
  "i < length used \<Longrightarrow> signed_by_loop D p i (sd # sds) used =
     (if \<not> used ! i \<and> signs D p sd then Inr (True, used[i := True]) else signed_by_loop D p (i + 1) sds used)"
  by (simp add: index_slice_def signs_def split: option.splits)

declare signed_by_loop.simps(2) [simp del]

lemma signed_by_loop_sound:
  assumes "i + length sds \<le> length used"
  shows "\<exists>ok used'. signed_by_loop D p i sds used = Inr (ok, used') \<and> length used' = length used
    \<and> (ok \<longrightarrow> (\<exists>j. i \<le> j \<and> j < i + length sds \<and> j \<notin> used_set used \<and> signs D p (sds ! (j - i))
          \<and> used_set used' = insert j (used_set used)))
    \<and> (\<not> ok \<longrightarrow> (\<forall>j. i \<le> j \<longrightarrow> j < i + length sds \<longrightarrow> j \<in> used_set used \<or> \<not> signs D p (sds ! (j - i))))"
  using assms
proof (induction sds arbitrary: i)
  case (Cons sd sds)
  then have i: "i < length used" by simp
  show ?case
  proof (cases "\<not> used ! i \<and> signs D p sd")
    case True
    moreover from True have "i \<notin> used_set used" by (simp add: used_set_def)
    ultimately show ?thesis using i
      by (intro exI[of _ True] exI[of _ "used[i := True]"]) (auto simp: signed_by_loop_Cons used_set_update)
  next
    case False
    then have f: "i \<in> used_set used \<or> \<not> signs D p sd" using i by (simp add: used_set_def)
    have eq: "signed_by_loop D p i (sd # sds) used = signed_by_loop D p (i + 1) sds used"
      using i False by (auto simp: signed_by_loop_Cons)
    from Cons.IH[of "i + 1"] Cons.prems obtain ok used' where IH:
      "signed_by_loop D p (i + 1) sds used = Inr (ok, used')" "length used' = length used"
      "ok \<longrightarrow> (\<exists>j. i + 1 \<le> j \<and> j < i + 1 + length sds \<and> j \<notin> used_set used \<and> signs D p (sds ! (j - (i + 1)))
          \<and> used_set used' = insert j (used_set used))"
      "\<not> ok \<longrightarrow> (\<forall>j. i + 1 \<le> j \<longrightarrow> j < i + 1 + length sds \<longrightarrow> j \<in> used_set used \<or> \<not> signs D p (sds ! (j - (i + 1))))"
      by auto
    have "ok \<longrightarrow> (\<exists>j. i \<le> j \<and> j < i + length (sd # sds) \<and> j \<notin> used_set used \<and> signs D p ((sd # sds) ! (j - i))
          \<and> used_set used' = insert j (used_set used))"
    proof
      assume ok
      with IH(3) obtain j where j: "i + 1 \<le> j" "j < i + 1 + length sds" "j \<notin> used_set used"
        "signs D p (sds ! (j - (i + 1)))" "used_set used' = insert j (used_set used)" by blast
      then have "i \<le> j \<and> j < i + length (sd # sds) \<and> signs D p ((sd # sds) ! (j - i))" by (simp add: nth_Cons')
      with j(3,5) show "\<exists>j. i \<le> j \<and> j < i + length (sd # sds) \<and> j \<notin> used_set used
          \<and> signs D p ((sd # sds) ! (j - i)) \<and> used_set used' = insert j (used_set used)" by blast
    qed
    moreover have "j \<in> used_set used \<or> \<not> signs D p ((sd # sds) ! (j - i))"
      if "\<not> ok" "i \<le> j" "j < i + length (sd # sds)" for j
    proof (cases "j = i")
      case False
      then have "i + 1 \<le> j" using that(2) by simp
      with IH(4) that show ?thesis by (simp add: nth_Cons')
    qed (use f in simp)
    ultimately show ?thesis unfolding eq using IH(1,2) by blast
  qed
qed auto

text \<open>What an evaluator does: it takes the positions of the signatures that satisfy the policy out of
  the ones that are not used yet.\<close>

definition takes :: "evaluator \<Rightarrow> SignedData list \<Rightarrow> (nat set \<Rightarrow> bool) \<Rightarrow> bool" where
  "takes ev sds P \<longleftrightarrow> (\<forall>used. length sds \<le> length used \<longrightarrow> (\<exists>ok used'. ev sds used = Inr (ok, used')
     \<and> length used' = length used
     \<and> (ok \<longrightarrow> (\<exists>U. P U \<and> U \<inter> used_set used = {} \<and> used_set used' = used_set used \<union> U))))"

lemma sint_counter:
  fixes v :: int32
  assumes "unat v < 2 ^ 31"
  shows "sint v = int (unat v)"
proof -
  from assms have "int (unat v) < int (2 ^ 31)" by (simp only: of_nat_less_iff)
  then have "uint v < 2 ^ 31" by simp
  then have "signed_take_bit 31 (uint v) = uint v"
    using uint_ge_0[of v] by (intro signed_take_bit_int_eq_self) (linarith, simp)
  then show ?thesis by (simp add: sint_uint)
qed

lemma gate_loop_takes:
  assumes "list_all2 (\<lambda>ev r. case r of None \<Rightarrow> False | Some p \<Rightarrow> takes ev sds (sat ids D sds p)) evs rules"
    and "length sds \<le> length used" "length rules + unat v < 2 ^ 31"
  shows "\<exists>v' used' m U. gate_loop evs sds used v = Inr (v', used') \<and> length used' = length used
    \<and> unat v' = unat v + m \<and> m \<le> length rules \<and> sat_rules ids D sds rules m U
    \<and> U \<inter> used_set used = {} \<and> used_set used' = used_set used \<union> U"
  using assms
proof (induction evs rules arbitrary: used v rule: list_all2_induct)
  case Nil
  then show ?case by (auto intro!: exI[of _ 0] exI[of _ "{}"] sat_sat_rules.none)
next
  case (Cons ev evs r rules)
  then obtain p where r: "r = Some p" "takes ev sds (sat ids D sds p)" by (auto split: option.splits)
  then obtain ok used1 where e: "ev sds used = Inr (ok, used1)" "length used1 = length used"
    "ok \<Longrightarrow> \<exists>V. sat ids D sds p V \<and> V \<inter> used_set used = {} \<and> used_set used1 = used_set used \<union> V"
    using Cons.prems(1) unfolding takes_def by blast
  show ?case
  proof (cases ok)
    case True
    with e(3) obtain V where V: "sat ids D sds p V" "V \<inter> used_set used = {}" "used_set used1 = used_set used \<union> V"
      by blast
    have v1: "unat (v + 1) = unat v + 1" using Cons.prems(2) by (simp add: unat_word_ariths)
    obtain v' used' m U where g: "gate_loop evs sds used1 (v + 1) = Inr (v', used')" "length used' = length used1"
      "unat v' = unat (v + 1) + m" "m \<le> length rules" "sat_rules ids D sds rules m U"
      "U \<inter> used_set used1 = {}" "used_set used' = used_set used1 \<union> U"
      using Cons.IH[of used1 "v + 1"] Cons.prems e(2) v1 by auto
    have "V \<inter> U = {}" using g(6) V(3) by blast
    from sat_sat_rules.count[OF V(1) g(5) this] have "sat_rules ids D sds (r # rules) (m + 1) (V \<union> U)"
      using r(1) by simp
    with g V e True v1 show ?thesis by (intro exI[of _ v'] exI[of _ used'] exI[of _ "m + 1"] exI[of _ "V \<union> U"]) auto
  next
    case False
    obtain v' used' m U where g: "gate_loop evs sds used v = Inr (v', used')" "length used' = length used"
      "unat v' = unat v + m" "m \<le> length rules" "sat_rules ids D sds rules m U"
      "U \<inter> used_set used = {}" "used_set used' = used_set used \<union> U"
      using Cons.IH[of used v] Cons.prems by auto
    then have "sat_rules ids D sds (r # rules) m U" by (auto intro: sat_sat_rules.skip)
    with g e False show ?thesis by (intro exI[of _ v'] exI[of _ used'] exI[of _ m] exI[of _ U]) auto
  qed
qed

lemma compile_takes:
  "compile ids D r = Inr ev \<Longrightarrow> gates_small r \<Longrightarrow> \<exists>p. r = Some p \<and> takes ev sds (sat ids D sds p)"
  "compile_rules ids D rules = Inr evs \<Longrightarrow> rules_small rules \<Longrightarrow>
     list_all2 (\<lambda>ev r. case r of None \<Rightarrow> False | Some p \<Rightarrow> takes ev sds (sat ids D sds p)) evs rules"
proof (induction ids D r and ids D rules arbitrary: ev and evs rule: compile_compile_rules.induct)
  case (2 ids D n rules)
  then obtain evs where evs: "compile_rules ids D rules = Inr evs"
    "ev = (\<lambda>sds used. res_bind (gate_loop evs sds used 0) (\<lambda>(v, used'). Inr (sint n \<le> sint v, used')))"
    by (auto simp: res_bind_eq_Inr)
  from 2 evs(1) have all: "list_all2 (\<lambda>ev r. case r of None \<Rightarrow> False | Some p \<Rightarrow> takes ev sds (sat ids D sds p)) evs rules"
    by simp
  have "takes ev sds (sat ids D sds (SP_NOutOf n rules))"
    unfolding takes_def
  proof (intro allI impI)
    fix used :: "bool list"
    assume u: "length sds \<le> length used"
    from gate_loop_takes[OF all u, of 0] "2.prems"(2) obtain v used' m U where g:
      "gate_loop evs sds used 0 = Inr (v, used')" "length used' = length used" "unat v = m" "m \<le> length rules"
      "sat_rules ids D sds rules m U" "U \<inter> used_set used = {}" "used_set used' = used_set used \<union> U" by auto
    with sint_counter[of v] "2.prems"(2) have "sint v = int m" by simp
    with g evs(2) show "\<exists>ok used'. ev sds used = Inr (ok, used') \<and> length used' = length used
       \<and> (ok \<longrightarrow> (\<exists>U. sat ids D sds (SP_NOutOf n rules) U \<and> U \<inter> used_set used = {} \<and> used_set used' = used_set used \<union> U))"
      by (auto intro: sat_sat_rules.n_out_of)
  qed
  then show ?case by simp
next
  case (3 ids D k)
  then have k: "0 \<le> sint k" "nat (sint k) < length ids" "ev = signed_by_loop D (ids ! nat (sint k)) 0"
    by (auto simp: index_slice_def split: if_splits)
  have "takes ev sds (sat ids D sds (SP_SignedBy k))"
    unfolding takes_def
  proof (intro allI impI)
    fix used :: "bool list"
    assume "length sds \<le> length used"
    then obtain ok used' where l: "ev sds used = Inr (ok, used')" "length used' = length used"
      "ok \<longrightarrow> (\<exists>j. j < length sds \<and> j \<notin> used_set used \<and> signs D (ids ! nat (sint k)) (sds ! j)
          \<and> used_set used' = insert j (used_set used))"
      using signed_by_loop_sound[of 0 sds used D "ids ! nat (sint k)"] k(3) by auto
    show "\<exists>ok used'. ev sds used = Inr (ok, used') \<and> length used' = length used
       \<and> (ok \<longrightarrow> (\<exists>U. sat ids D sds (SP_SignedBy k) U \<and> U \<inter> used_set used = {} \<and> used_set used' = used_set used \<union> U))"
    proof (rule exI[of _ ok], rule exI[of _ used'], intro conjI impI)
      assume ok
      with l(3) obtain j where j: "j < length sds" "j \<notin> used_set used" "signs D (ids ! nat (sint k)) (sds ! j)"
        "used_set used' = insert j (used_set used)" by blast
      have "sat ids D sds (SP_SignedBy k) {j} \<and> {j} \<inter> used_set used = {} \<and> used_set used' = used_set used \<union> {j}"
        using sat_sat_rules.signed[OF k(1,2) j(1,3)] j(2,4) by auto
      then show "\<exists>U. sat ids D sds (SP_SignedBy k) U \<and> U \<inter> used_set used = {} \<and> used_set used' = used_set used \<union> U" ..
    qed (use l in auto)
  qed
  then show ?case by simp
qed (auto simp: res_bind_eq_Inr)

lemma deduplicate_loop_props:
  "distinct (map sd_Identity (deduplicate_loop sds ids))"
  "set (deduplicate_loop sds ids) \<subseteq> set sds"
  "sd_Identity ` set (deduplicate_loop sds ids) = sd_Identity ` set sds - set ids"
  "length (deduplicate_loop sds ids) \<le> length sds"
proof (induction sds ids rule: deduplicate_loop.induct)
  case (2 sd sds ids)
  {
    case 1
    from "2.IH"(1,5,7) show ?case by auto
  next
    case 2
    from "2.IH"(2,6) show ?case by auto
  next
    case 3
    from "2.IH"(3,7) show ?case by auto
  next
    case 4
    from "2.IH"(4,8) show ?case by auto
  }
qed auto

lemma deduplicate_props:
  "distinct (map sd_Identity (deduplicate sds))" "set (deduplicate sds) \<subseteq> set sds"
  "sd_Identity ` set (deduplicate sds) = sd_Identity ` set sds" "length (deduplicate sds) \<le> length sds"
  using deduplicate_loop_props[of sds "[]"] by (simp_all add: deduplicate_def)

lemma Evaluate_takes:
  assumes "takes ev (deduplicate sigs) P"
  shows "\<not> panics (Evaluate (Some ev) sigs)"
    and "Evaluate (Some ev) sigs = Inr () \<Longrightarrow> \<exists>U. P U"
  using assms[unfolded takes_def, THEN spec, of "replicate (length sigs) False"] deduplicate_props(4)[of sigs]
  by (auto simp: Evaluate_def split: if_splits)

section \<open>Properties of the evaluation\<close>

text \<open>A membership service in which an identity is its own principal and signs by its name.\<close>

definition ex_msp :: "bytes IdentityDeserializer" where
  "ex_msp = \<lparr>DeserializeIdentity = Some, SatisfiesPrincipal = (\<lambda>i p. i = Principal p), id_Verify = (\<lambda>i d s. s = i)\<rparr>"

abbreviation ex_sig :: "byte \<Rightarrow> SignedData" where
  "ex_sig i \<equiv> \<lparr>sd_Data = [], sd_Identity = [i], sd_Signature = [i]\<rparr>"

text \<open>C10. The evaluation of a signature policy is sound: it never panics, and when it accepts a set
  of signatures, the policy is satisfied by valid signatures of pairwise different identities,
  each signature being counted for one \<^verbatim>\<open>SignedBy\<close> of the policy at most.\<close>

theorem cauthdsl_sound:
  assumes "NewPolicy unmarshal D data = Inr ev" "unmarshal data = Some sigPolicy" "gates_small (spe_Rule sigPolicy)"
  shows "\<not> panics (Evaluate (Some ev) sigs)
    \<and> (Evaluate (Some ev) sigs = Inr () \<longrightarrow>
        (\<exists>p U. spe_Rule sigPolicy = Some p \<and> sat (spe_Identities sigPolicy) D (deduplicate sigs) p U
           \<and> distinct (map sd_Identity (deduplicate sigs)) \<and> set (deduplicate sigs) \<subseteq> set sigs))"
proof -
  from assms(1,2) have "compile (spe_Identities sigPolicy) D (spe_Rule sigPolicy) = Inr ev"
    by (simp add: NewPolicy_def split: if_splits)
  from compile_takes(1)[OF this assms(3), of "deduplicate sigs"] obtain p where
    p: "spe_Rule sigPolicy = Some p" "takes ev (deduplicate sigs) (sat (spe_Identities sigPolicy) D (deduplicate sigs) p)"
    by blast
  from Evaluate_takes[OF p(2)] p(1) deduplicate_props(1,2)[of sigs] show ?thesis by blast
qed

theorem cauthdsl_sound_witness:
  "Evaluate (Some (projr (NewPolicy (\<lambda>_. Some (Envelope_policy (Some (And (Some (SignedBy 0)) (Some (SignedBy 1)))) [[1], [2]]))
     ex_msp []))) [ex_sig 2, ex_sig 2, ex_sig 1] = Inr ()
   \<and> (\<exists>U. sat (spe_Identities (Envelope_policy None [[1], [2]])) ex_msp (deduplicate [ex_sig 2, ex_sig 2, ex_sig 1])
         (And (Some (SignedBy 0)) (Some (SignedBy 1))) U)"
proof -
  let ?e = "Envelope_policy (Some (And (Some (SignedBy 0)) (Some (SignedBy 1)))) [[1], [2]]"
  let ?p = "NewPolicy (\<lambda>_. Some ?e) ex_msp []"
  have "\<not> isl ?p" by code_simp
  then have p: "?p = Inr (projr ?p)" by (cases ?p) auto
  have e: "Evaluate (Some (projr ?p)) [ex_sig 2, ex_sig 2, ex_sig 1] = Inr ()" by code_simp
  have g: "gates_small (spe_Rule ?e)" by (simp add: Envelope_policy_def And_def NOutOf_def SignedBy_def)
  have r: "spe_Rule ?e = Some (And (Some (SignedBy 0)) (Some (SignedBy 1)))"
    "spe_Identities ?e = spe_Identities (Envelope_policy None [[1], [2]])" by (simp_all add: Envelope_policy_def)
  from conjunct2[OF cauthdsl_sound[OF p refl g], rule_format, OF e] e show ?thesis unfolding r by blast
qed

text \<open>The converse does not hold: a gate takes the signatures of all its rules that succeed, also
  beyond the number it needs. Here the \<^verbatim>\<open>Or\<close> takes both signatures and leaves none for the
  second rule of the \<^verbatim>\<open>And\<close>, although one signature for each of them is there.\<close>

lemma gate_takes_more_than_needed:
  defines "p \<equiv> And (Some (Or (Some (SignedBy 0)) (Some (SignedBy 1)))) (Some (SignedBy 1))"
  shows "isl (Evaluate (Some (projr (compile (spe_Identities (Envelope_policy None [[1], [2]])) ex_msp (Some p)))) [ex_sig 1, ex_sig 2])"
    and "sat (spe_Identities (Envelope_policy None [[1], [2]])) ex_msp [ex_sig 1, ex_sig 2] p {0, 1}"
proof -
  let ?s = "sat (spe_Identities (Envelope_policy None [[1], [2]])) ex_msp [ex_sig 1, ex_sig 2]"
  let ?r = "sat_rules (spe_Identities (Envelope_policy None [[1], [2]])) ex_msp [ex_sig 1, ex_sig 2]"
  show "isl (Evaluate (Some (projr (compile (spe_Identities (Envelope_policy None [[1], [2]])) ex_msp (Some p)))) [ex_sig 1, ex_sig 2])"
    unfolding p_def by code_simp
  have s: "?s (SP_SignedBy 0) {0}" "?s (SP_SignedBy 1) {1}"
    by (auto intro!: sat_sat_rules.signed simp: signs_def ex_msp_def Envelope_policy_def)
  have "?r [Some (SP_SignedBy 0), Some (SP_SignedBy 1)] (0 + 1) ({0} \<union> {})"
    by (intro sat_sat_rules.count[OF s(1)] sat_sat_rules.skip sat_sat_rules.none) simp
  then have "?s (Or (Some (SignedBy 0)) (Some (SignedBy 1))) ({0} \<union> {})"
    unfolding Or_def NOutOf_def SignedBy_def by (rule sat_sat_rules.n_out_of) simp
  then have "?r [Some (Or (Some (SignedBy 0)) (Some (SignedBy 1))), Some (SP_SignedBy 1)] (0 + 1 + 1) (({0} \<union> {}) \<union> ({1} \<union> {}))"
    by (intro sat_sat_rules.count s(2) sat_sat_rules.none) simp_all
  then have "?s p (({0} \<union> {}) \<union> ({1} \<union> {}))"
    unfolding p_def And_def NOutOf_def SignedBy_def by (rule sat_sat_rules.n_out_of) simp
  then show "?s p {0, 1}" by (simp add: insert_commute)
qed

section \<open>One out of many\<close>

text \<open>A gate over \<^verbatim>\<open>SignedBy\<close> rules that needs one signature is exact.\<close>

lemma signed_by_loop_complete:
  assumes "length sds \<le> length used" "used_set used = {}" "sd \<in> set sds" "signs D p sd"
  shows "\<exists>used'. signed_by_loop D p 0 sds used = Inr (True, used') \<and> length used' = length used"
proof -
  from assms(3) obtain i where i: "i < length sds" "sds ! i = sd" by (auto simp: in_set_conv_nth)
  from signed_by_loop_sound[of 0 sds used D p] assms(1) obtain ok used' where l:
    "signed_by_loop D p 0 sds used = Inr (ok, used')" "length used' = length used"
    "\<not> ok \<longrightarrow> (\<forall>j < length sds. j \<in> used_set used \<or> \<not> signs D p (sds ! j))" by auto
  then show ?thesis using i assms(2,4) by (cases ok) auto
qed

lemma gate_loop_mono:
  assumes "list_all2 (\<lambda>ev r. case r of None \<Rightarrow> False | Some p \<Rightarrow> takes ev sds (sat ids D sds p)) evs rules"
    and "length sds \<le> length used" "length rules + unat v < 2 ^ 31"
  shows "\<exists>v' used'. gate_loop evs sds used v = Inr (v', used') \<and> unat v \<le> unat v' \<and> unat v' < 2 ^ 31"
  using gate_loop_takes[OF assms] assms(3) by fastforce

lemma gate_loop_one:
  assumes "list_all2 (\<lambda>ev r. case r of None \<Rightarrow> False | Some p \<Rightarrow> takes ev sds (sat ids D sds p)) evs rules"
    and "length sds \<le> length used" "length rules < 2 ^ 31" "used_set used = {}"
    and "\<forall>ev \<in> set evs. \<exists>p. ev = signed_by_loop D p 0" "signed_by_loop D p 0 \<in> set evs" "sd \<in> set sds" "signs D p sd"
  shows "\<exists>v' used'. gate_loop evs sds used 0 = Inr (v', used') \<and> 0 < unat v' \<and> unat v' < 2 ^ 31"
  using assms
proof (induction evs rules rule: list_all2_induct)
  case (Cons ev evs r rules)
  obtain p' where p': "ev = signed_by_loop D p' 0" using Cons.prems(4) by auto
  show ?case
  proof (cases "\<exists>sd \<in> set sds. signs D p' sd")
    case True
    with signed_by_loop_complete[OF Cons.prems(1,3)] p' obtain used' where
      u: "ev sds used = Inr (True, used')" "length used' = length used" by blast
    have "length rules + unat (1 :: int32) < 2 ^ 31" using Cons.prems(2) by simp
    from gate_loop_mono[OF Cons.hyps(2) _ this, of used'] u Cons.prems(1) show ?thesis by auto
  next
    case False
    then have "ev sds used = Inr (ok, used') \<Longrightarrow> \<not> ok" for ok used'
      using signed_by_loop_sound[of 0 sds used D p'] Cons.prems(1) p' nth_mem by fastforce
    moreover obtain ok used' where "ev sds used = Inr (ok, used')"
      using signed_by_loop_sound[of 0 sds used D p'] Cons.prems(1) p' by auto
    ultimately have "gate_loop (ev # evs) sds used 0 = gate_loop evs sds used 0" by auto
    moreover have "signed_by_loop D p 0 \<in> set evs"
    proof -
      have "\<not> (\<exists>used'. ev sds used = Inr (True, used'))" using \<open>\<And>used' ok. ev sds used = Inr (ok, used') \<Longrightarrow> \<not> ok\<close> by blast
      then have "ev \<noteq> signed_by_loop D p 0"
        using signed_by_loop_complete[OF Cons.prems(1,3,6,7)] by auto
      with Cons.prems(5) show ?thesis by auto
    qed
    ultimately show ?thesis using Cons.IH Cons.prems by simp
  qed
qed simp

lemma compile_rules_signed_by:
  "length ids < 2 ^ 31 \<Longrightarrow> set ks \<subseteq> {..<length ids} \<Longrightarrow>
   compile_rules ids D (map (\<lambda>i. Some (SignedBy (word_of_nat i))) ks)
     = Inr (map (\<lambda>i. signed_by_loop D (ids ! i) 0) ks)"
proof (induction ks)
  case (Cons k ks)
  then have k: "k < length ids" "unat (word_of_nat k :: int32) = k" "unat (word_of_nat (length ids) :: int32) = length ids"
    by (auto simp: unat_of_nat intro!: mod_less)
  then have "sint (word_of_nat k :: int32) = int k" "sint (word_of_nat (length ids) :: int32) = int (length ids)"
    using sint_counter[of "word_of_nat k"] sint_counter[of "word_of_nat (length ids)"] Cons.prems(1) by simp_all
  with Cons k show ?case by (simp add: SignedBy_def index_slice_def)
qed simp

lemma rules_small_signed_by: "rules_small (map (\<lambda>i. Some (SignedBy (f i))) ks)"
  by (induction ks) (simp_all add: SignedBy_def)

inductive_cases sat_SignedBy: "sat ids D sds (SP_SignedBy k) U"
inductive_cases sat_NOutOf: "sat ids D sds (SP_NOutOf n rules) U"

lemma sat_rules_one:
  "sat ids D sds p U \<Longrightarrow> True"
  "sat_rules ids D sds rules m U \<Longrightarrow> 0 < m \<longrightarrow> (\<exists>p V. Some p \<in> set rules \<and> sat ids D sds p V)"
  by (induction rule: sat_sat_rules.inducts) auto

text \<open>C11. The policy that any member (or admin) of a list of organisations may sign is exact: it is
  accepted if and only if, after the removal of duplicate identities, one of the signatures is a
  valid signature of an identity that has the role in one of the organisations.\<close>

theorem signed_by_any_exact:
  assumes "length ids < 2 ^ 31" "e = signedByAnyOfGivenRole marshal role ids"
  shows "\<exists>ev. compile (spe_Identities e) D (spe_Rule e) = Inr ev
    \<and> (Evaluate (Some ev) sigs = Inr () \<longleftrightarrow>
        (\<exists>sd \<in> set (deduplicate sigs). \<exists>i \<in> set ids. signs D (role_principal marshal role i) sd))"
proof -
  let ?sds = "deduplicate sigs" and ?ps = "map (role_principal marshal role) (sort ids)"
  let ?evs = "map (\<lambda>i. signed_by_loop D (?ps ! i) 0) [0..<length ids]"
  let ?rules = "map (\<lambda>i. Some (SignedBy (word_of_nat i))) [0..<length ids]"
  let ?ev = "\<lambda>sds used. res_bind (gate_loop ?evs sds used 0) (\<lambda>(v, used'). Inr (sint (1 :: int32) \<le> sint v, used'))"
  have e: "spe_Identities e = ?ps" "spe_Rule e = Some (SP_NOutOf 1 ?rules)"
    using assms(2) by (simp_all add: signedByAnyOfGivenRole_def Let_def NOutOf_def)
  have cr: "compile_rules ?ps D ?rules = Inr ?evs" using assms(1) by (intro compile_rules_signed_by) auto
  then have c: "compile (spe_Identities e) D (spe_Rule e) = Inr ?ev" by (simp add: e)
  have gs: "gates_small (spe_Rule e)" using assms(1) by (simp add: e rules_small_signed_by)
  note all = compile_takes(2)[OF cr rules_small_signed_by, of ?sds]
  have "Evaluate (Some ?ev) sigs = Inr ()"
    if sd: "sd \<in> set ?sds" "i \<in> set ids" "signs D (role_principal marshal role i) sd" for sd i
  proof -
    obtain k where k: "k < length ids" "sort ids ! k = i"
      using sd(2) by (metis in_set_conv_nth length_sort set_sort)
    then have "signed_by_loop D (role_principal marshal role i) 0 \<in> set ?evs" by force
    from gate_loop_one[OF all _ _ _ _ this sd(1,3), of "replicate (length sigs) False"] assms(1)
      deduplicate_props(4)[of sigs]
    obtain v used' where g: "gate_loop ?evs ?sds (replicate (length sigs) False) 0 = Inr (v, used')" "0 < unat v" "unat v < 2 ^ 31"
      by auto
    from g(2,3) sint_counter[of v] have "1 \<le> sint v" by (metis int_one_le_iff_zero_less of_nat_0_less_iff)
    with g(1) show ?thesis by (simp add: Evaluate_def)
  qed
  moreover have "\<exists>sd \<in> set ?sds. \<exists>i \<in> set ids. signs D (role_principal marshal role i) sd"
    if "Evaluate (Some ?ev) sigs = Inr ()"
  proof -
    from compile_takes(1)[OF c gs, of ?sds] e(2) have "takes ?ev ?sds (sat ?ps D ?sds (SP_NOutOf 1 ?rules))"
      by (simp add: e(1))
    from Evaluate_takes(2)[OF this that] obtain U m where "sat_rules ?ps D ?sds ?rules m U" "sint (1 :: int32) \<le> int m"
      by (auto elim: sat_NOutOf)
    with sat_rules_one(2)[of ?ps D ?sds ?rules m U] obtain k V where "sat ?ps D ?sds (SP_SignedBy k) V"
      by (auto simp: SignedBy_def)
    then show ?thesis by (auto elim!: sat_SignedBy) (metis length_sort nth_mem set_sort)
  qed
  ultimately show ?thesis using c by blast
qed

theorem signed_by_any_exact_witness:
  "\<exists>ev. compile (spe_Identities (SignedByAnyMember (string_bytes \<circ> MspIdentifier) [''B'', ''A'']))
       ex_msp (spe_Rule (SignedByAnyMember (string_bytes \<circ> MspIdentifier) [''B'', ''A''])) = Inr ev
    \<and> (Evaluate (Some ev) [ex_sig 66] = Inr () \<longleftrightarrow>
        (\<exists>sd \<in> set (deduplicate [ex_sig 66]). \<exists>i \<in> set [''B'', ''A''].
           signs ex_msp (role_principal (string_bytes \<circ> MspIdentifier) MSPRole_MEMBER i) sd))"
  unfolding SignedByAnyMember_def by (rule signed_by_any_exact[OF _ refl]) simp

section \<open>Parsed policies\<close>

text \<open>A policy that only names identities below a bound.\<close>

fun closed_policy :: "nat \<Rightarrow> SignaturePolicy option \<Rightarrow> bool" and closed_rules :: "nat \<Rightarrow> SignaturePolicy option list \<Rightarrow> bool" where
  "closed_policy n (Some (SP_SignedBy k)) = (0 \<le> sint k \<and> sint k < int n)"
| "closed_policy n (Some (SP_NOutOf _ rules)) = closed_rules n rules"
| "closed_policy n _ = False"
| "closed_rules n [] = True"
| "closed_rules n (r # rs) = (closed_policy n r \<and> closed_rules n rs)"

lemma closed_policy_mono:
  "closed_policy n r \<Longrightarrow> n \<le> n' \<Longrightarrow> closed_policy n' r" "closed_rules n rs \<Longrightarrow> n \<le> n' \<Longrightarrow> closed_rules n' rs"
  by (induction n r and n rs rule: closed_policy_closed_rules.induct) auto

lemma closed_rules_all: "closed_rules n rs \<longleftrightarrow> (\<forall>r \<in> set rs. closed_policy n r)"
  by (induction rs) auto

lemma compile_closed:
  assumes "length ids < 2 ^ 31"
  shows "(\<exists>ev. compile ids D r = Inr ev) \<longleftrightarrow> closed_policy (length ids) r"
    "(\<exists>evs. compile_rules ids D rs = Inr evs) \<longleftrightarrow> closed_rules (length ids) rs"
  using assms
proof (induction ids D r and ids D rs rule: compile_compile_rules.induct)
  case (3 ids D k)
  have "unat (word_of_nat (length ids) :: int32) = length ids" using 3 by (simp add: unat_of_nat)
  then have "sint (word_of_nat (length ids) :: int32) = int (length ids)"
    using sint_counter[of "word_of_nat (length ids)"] 3 by simp
  then show ?case by (auto simp: index_slice_def)
qed (auto simp: res_bind_eq_Inr)

lemma secondPass_loop_mono:
  "secondPass_loop marshal args ctx qs = (ctx', r) \<Longrightarrow> length (ctx_principals ctx) \<le> length (ctx_principals ctx')"
  by (induction marshal args ctx qs rule: secondPass_loop.induct)
    (force split: pass_arg.splits option.splits simp: Let_def)+

lemma secondPass_loop_closed:
  assumes "secondPass_loop marshal args ctx ps = (ctx', Inr ps')" "IDNum ctx = int (length (ctx_principals ctx))"
    and "closed_rules (length (ctx_principals ctx)) ps" "length (ctx_principals ctx') < 2 ^ 31"
    and "\<forall>q. ArgPolicy q \<in> set args \<longrightarrow> closed_policy (length (ctx_principals ctx)) (Some q)"
  shows "IDNum ctx' = int (length (ctx_principals ctx')) \<and> closed_rules (length (ctx_principals ctx')) ps'
    \<and> length (ctx_principals ctx) \<le> length (ctx_principals ctx')"
  using assms
proof (induction marshal args ctx ps rule: secondPass_loop.induct)
  case (2 marshal arg rest ctx ps)
  show ?case
  proof (cases arg)
    case (ArgString t)
    with "2.prems"(1) obtain org role where m: "regex_match t = Some (org, role)" by (cases "regex_match t") auto
    let ?r = "if role = ''member'' then MSPRole_MEMBER else MSPRole_ADMIN"
    let ?ctx = "ctx\<lparr>ctx_principals := ctx_principals ctx @ [role_principal marshal ?r org], IDNum := IDNum ctx + 1\<rparr>"
    let ?n = "length (ctx_principals ctx)"
    have l: "secondPass_loop marshal rest ?ctx (ps @ [Some (SignedBy (word_of_int (IDNum ctx)))]) = (ctx', Inr ps')"
      using "2.prems"(1) ArgString m by (simp add: Let_def)
    have n: "?n < 2 ^ 31" using secondPass_loop_mono[OF l] "2.prems"(4) by simp
    then have "unat (word_of_nat ?n :: int32) = ?n" by (simp add: unat_of_nat)
    then have "sint (word_of_nat ?n :: int32) = int ?n" using sint_counter[of "word_of_nat ?n"] n by simp
    then have "closed_rules (Suc ?n) (ps @ [Some (SignedBy (word_of_int (IDNum ctx)))])"
      using "2.prems"(2,3) closed_policy_mono(1)[of ?n _ "Suc ?n"] by (auto simp: closed_rules_all SignedBy_def)
    with "2.IH"(1)[OF ArgString m refl refl refl l] "2.prems" closed_policy_mono(1)[of ?n _ "Suc ?n"]
    show ?thesis by simp
  next
    case (ArgPolicy q)
    with 2 show ?thesis by (simp add: closed_rules_all)
  qed (use "2.prems"(1) in auto)
qed simp

text \<open>C12. A policy built by the parser always compiles: when the policies among the arguments of an
  \<^verbatim>\<open>outof\<close> compile against the principals collected so far, so does the policy \<^verbatim>\<open>secondPass\<close>
  returns against the principals collected after it, and the identity counter stays the number of
  principals.\<close>

theorem secondPass_compiles:
  assumes "secondPass marshal ctx args = (ctx', Inr p)" "IDNum ctx = int (length (ctx_principals ctx))"
    and "length (ctx_principals ctx') < 2 ^ 31"
    and "\<forall>q. ArgPolicy q \<in> set args \<longrightarrow> (\<exists>ev. compile (ctx_principals ctx) D (Some q) = Inr ev)"
  shows "IDNum ctx' = int (length (ctx_principals ctx')) \<and> (\<exists>ev. compile (ctx_principals ctx') D (Some p) = Inr ev)"
proof -
  from assms(1) obtain t ps where l: "secondPass_loop marshal (drop 2 args) ctx [] = (ctx', Inr ps)" "p = NOutOf t ps"
    by (auto simp: secondPass_def split: if_splits pass_arg.splits prod.splits sum.splits)
  have small: "length (ctx_principals ctx) < 2 ^ 31" using secondPass_loop_mono[OF l(1)] assms(3) by simp
  have "\<forall>q. ArgPolicy q \<in> set (drop 2 args) \<longrightarrow> closed_policy (length (ctx_principals ctx)) (Some q)"
    using assms(4) compile_closed(1)[OF small, of D] by (blast dest: in_set_dropD)
  from secondPass_loop_closed[OF l(1) assms(2) _ assms(3) this] l(2) compile_closed(1)[OF assms(3), of D]
  show ?thesis by (simp add: NOutOf_def del: compile.simps)
qed

theorem secondPass_compiles_witness:
  "case secondPass (string_bytes \<circ> MspIdentifier) newContext
     [ArgContext, ArgNumber 1, ArgString ''Org1.member'', ArgString ''Org2.admin''] of
     (ctx', Inr p) \<Rightarrow> IDNum ctx' = 2 \<and> (\<exists>ev. compile (ctx_principals ctx') ex_msp (Some p) = Inr ev)
   | _ \<Rightarrow> False"
proof -
  let ?m = "string_bytes \<circ> MspIdentifier" and ?args = "[ArgContext, ArgNumber 1, ArgString ''Org1.member'', ArgString ''Org2.admin'']"
  let ?ctx = "\<lparr>IDNum = 2, ctx_principals = [role_principal ?m MSPRole_MEMBER ''Org1'', role_principal ?m MSPRole_ADMIN ''Org2'']\<rparr>"
  let ?p = "NOutOf 1 [Some (SignedBy 0), Some (SignedBy 1)]"
  have e: "secondPass ?m newContext ?args = (?ctx, Inr ?p)" by code_simp
  have "IDNum newContext = int (length (ctx_principals newContext))" by (simp add: newContext_def)
  from secondPass_compiles[OF e this, of ex_msp] e show ?thesis by simp
qed

text \<open>The check of the threshold counts the context as a rule: two of one rule is accepted, and
  the policy it stands for can never be satisfied.\<close>

lemma secondPass_threshold:
  "snd (secondPass (string_bytes \<circ> MspIdentifier) newContext [ArgContext, ArgNumber 2, ArgString ''Org1.member''])
     = Inr (NOutOf 2 [Some (SignedBy 0)])"
  by code_simp

end
