(* ===== verification/Block_Serialization.thy ===== *)
theory Block_Serialization
  imports Ledger_Examples
begin

text \<open>
  The serialization of a block in the block files
  (\<^verbatim>\<open>common/ledger/blkstorage/fsblkstorage/block_serialization.go\<close>) over the buffer of
  \<^verbatim>\<open>common/ledger/util/protobuf_util.go\<close>, which counts the bytes it has consumed. The results
  are the round trip of a block, and that the positions of the transactions the serializer
  reports are those a reader of the bytes finds.
\<close>

section \<open>Buffers\<close>

text \<open>The methods of \<^verbatim>\<open>proto.Buffer\<close> on the bytes that are still to be read. The unrolled decoder of the library
  gives what its plain loop gives, which is the one written here; the errors for the end of the buffer and for a
  varint that is too long are one error.\<close>

definition buf_DecodeVarint :: "bytes \<Rightarrow> (uint64 \<times> bytes) res" where
  "buf_DecodeVarint b = (case DecodeVarint b of (x, n) \<Rightarrow>
     if n = 0 then Inl (GoErr ''unexpected EOF'') else Inr (x, drop n b))"

definition buf_DecodeRawBytes :: "bytes \<Rightarrow> (bytes \<times> bytes) res" where
  "buf_DecodeRawBytes b =
     res_bind (buf_DecodeVarint b) (\<lambda>(n, rest).
       if sint n < 0 then Inl (GoErr ''proto: bad byte length'')
       else if length rest < nat (sint n) then Inl (GoErr ''unexpected EOF'')
       else Inr (take (nat (sint n)) rest, drop (nat (sint n)) rest))"

definition EncodeRawBytes :: "bytes \<Rightarrow> bytes" where
  "EncodeRawBytes b = EncodeVarint (word_of_nat (length b)) @ b"

text \<open>The buffer of \<^verbatim>\<open>ledgerutil\<close> also has the position.\<close>

record LedgerBuffer =
  lb_buf :: bytes
  lb_position :: nat

definition NewBuffer :: "bytes \<Rightarrow> LedgerBuffer" where
  "NewBuffer b = \<lparr>lb_buf = b, lb_position = 0\<rparr>"

definition lb_DecodeVarint :: "LedgerBuffer \<Rightarrow> (uint64 \<times> LedgerBuffer) res" where
  "lb_DecodeVarint b =
     res_bind (buf_DecodeVarint (lb_buf b)) (\<lambda>(val, rest).
       Inr (val, \<lparr>lb_buf = rest, lb_position = lb_position b + sizeVarint val\<rparr>))"

definition lb_DecodeRawBytes :: "LedgerBuffer \<Rightarrow> (bytes \<times> LedgerBuffer) res" where
  "lb_DecodeRawBytes b =
     res_bind (buf_DecodeRawBytes (lb_buf b)) (\<lambda>(val, rest).
       Inr (val, \<lparr>lb_buf = rest,
                  lb_position = lb_position b + (sizeVarint (word_of_nat (length val)) + length val)\<rparr>))"

definition GetBytesConsumed :: "LedgerBuffer \<Rightarrow> nat" where
  "GetBytesConsumed b = lb_position b"

section \<open>Serialization\<close>

record locPointer =
  lp_offset :: nat
  lp_bytesLength :: nat

record txindexInfo =
  ti_txID :: string
  ti_loc :: locPointer

record BlockHeader =
  bh_Number :: uint64
  bh_PreviousHash :: bytes
  bh_DataHash :: bytes

definition block_header :: "Block \<Rightarrow> BlockHeader" where
  "block_header b = \<lparr>bh_Number = blk_Number b, bh_PreviousHash = blk_PreviousHash b, bh_DataHash = blk_DataHash b\<rparr>"

record serializedBlockInfo =
  sbi_blockHeader :: BlockHeader
  sbi_txOffsets :: "txindexInfo list"
  sbi_metadata :: "bytes list"

text \<open>A payload that cannot be read gives an empty identifier and no error.\<close>

definition extractTxID :: "tx_codec \<Rightarrow> bytes \<Rightarrow> string res" where
  "extractTxID C txEnvelopBytes =
     res_bind (GetEnvelopeFromBlock C txEnvelopBytes) (\<lambda>txEnvelope.
       case GetPayload C txEnvelope of
         Inl (GoErr _) \<Rightarrow> Inr ''''
       | Inl p \<Rightarrow> Inl p
       | Inr txPayload \<Rightarrow>
           (case pl_Header txPayload of
              None \<Rightarrow> Inl (GoPanic ''nil pointer dereference'')
            | Some hdr \<Rightarrow> res_bind (UnmarshalChannelHeader C (hdr_ChannelHeader hdr)) (\<lambda>chdr. Inr (ch_TxId chdr))))"

definition addHeaderBytes :: "BlockHeader \<Rightarrow> bytes \<Rightarrow> bytes" where
  "addHeaderBytes h buf =
     buf @ EncodeVarint (bh_Number h) @ EncodeRawBytes (bh_DataHash h) @ EncodeRawBytes (bh_PreviousHash h)"

fun addData_loop :: "tx_codec \<Rightarrow> bytes list \<Rightarrow> bytes \<Rightarrow> txindexInfo list \<Rightarrow> (txindexInfo list \<times> bytes) res" where
  "addData_loop C [] buf txOffsets = Inr (txOffsets, buf)"
| "addData_loop C (txEnvelopeBytes # rest) buf txOffsets =
     (let offset = length buf in
      res_bind (extractTxID C txEnvelopeBytes) (\<lambda>txid.
        let buf' = buf @ EncodeRawBytes txEnvelopeBytes;
            idxInfo = \<lparr>ti_txID = txid, ti_loc = \<lparr>lp_offset = offset, lp_bytesLength = length buf' - offset\<rparr>\<rparr>
        in addData_loop C rest buf' (txOffsets @ [idxInfo])))"

definition addDataBytes :: "tx_codec \<Rightarrow> bytes list \<Rightarrow> bytes \<Rightarrow> (txindexInfo list \<times> bytes) res" where
  "addDataBytes C data buf = addData_loop C data (buf @ EncodeVarint (word_of_nat (length data))) []"

definition addMetadataBytes :: "bytes list \<Rightarrow> bytes \<Rightarrow> bytes" where
  "addMetadataBytes metadata buf = buf @ EncodeVarint (word_of_nat (length metadata)) @ concat (map EncodeRawBytes metadata)"

definition serializeBlock :: "tx_codec \<Rightarrow> Block \<Rightarrow> (bytes \<times> serializedBlockInfo) res" where
  "serializeBlock C block =
     (let buf = addHeaderBytes (block_header block) [] in
      res_bind (addDataBytes C (blk_Data block) buf) (\<lambda>(txOffsets, buf').
        Inr (addMetadataBytes (blk_Metadata block) buf',
             \<lparr>sbi_blockHeader = block_header block, sbi_txOffsets = txOffsets, sbi_metadata = blk_Metadata block\<rparr>)))"

section \<open>Deserialization\<close>

definition extractHeader :: "LedgerBuffer \<Rightarrow> (BlockHeader \<times> LedgerBuffer) res" where
  "extractHeader buf =
     res_bind (lb_DecodeVarint buf) (\<lambda>(number, buf).
     res_bind (lb_DecodeRawBytes buf) (\<lambda>(dataHash, buf).
     res_bind (lb_DecodeRawBytes buf) (\<lambda>(previousHash, buf).
       Inr (\<lparr>bh_Number = number, bh_PreviousHash = previousHash, bh_DataHash = dataHash\<rparr>, buf))))"

fun extractData_loop :: "tx_codec \<Rightarrow> nat \<Rightarrow> LedgerBuffer \<Rightarrow> bytes list \<Rightarrow> txindexInfo list
    \<Rightarrow> ((bytes list \<times> txindexInfo list) \<times> LedgerBuffer) res" where
  "extractData_loop C 0 buf data txOffsets = Inr ((data, txOffsets), buf)"
| "extractData_loop C (Suc n) buf data txOffsets =
     (let txOffset = GetBytesConsumed buf in
      res_bind (lb_DecodeRawBytes buf) (\<lambda>(txEnvBytes, buf').
      res_bind (extractTxID C txEnvBytes) (\<lambda>txid.
        extractData_loop C n buf' (data @ [txEnvBytes])
          (txOffsets @ [\<lparr>ti_txID = txid, ti_loc = \<lparr>lp_offset = txOffset,
             lp_bytesLength = GetBytesConsumed buf' - txOffset\<rparr>\<rparr>]))))"

definition extractData :: "tx_codec \<Rightarrow> LedgerBuffer \<Rightarrow> ((bytes list \<times> txindexInfo list) \<times> LedgerBuffer) res" where
  "extractData C buf =
     res_bind (lb_DecodeVarint buf) (\<lambda>(numItems, buf). extractData_loop C (unat numItems) buf [] [])"

fun extractMetadata_loop :: "nat \<Rightarrow> LedgerBuffer \<Rightarrow> bytes list \<Rightarrow> (bytes list \<times> LedgerBuffer) res" where
  "extractMetadata_loop 0 buf metadata = Inr (metadata, buf)"
| "extractMetadata_loop (Suc n) buf metadata =
     res_bind (lb_DecodeRawBytes buf) (\<lambda>(entry, buf'). extractMetadata_loop n buf' (metadata @ [entry]))"

definition extractMetadata :: "LedgerBuffer \<Rightarrow> (bytes list \<times> LedgerBuffer) res" where
  "extractMetadata buf =
     res_bind (lb_DecodeVarint buf) (\<lambda>(numItems, buf). extractMetadata_loop (unat numItems) buf [])"

definition mk_block :: "BlockHeader \<Rightarrow> bytes list \<Rightarrow> bytes list \<Rightarrow> Block" where
  "mk_block h data metadata = \<lparr>blk_Number = bh_Number h, blk_Data = data, blk_Metadata = metadata,
     blk_PreviousHash = bh_PreviousHash h, blk_DataHash = bh_DataHash h\<rparr>"

definition deserializeBlock :: "tx_codec \<Rightarrow> bytes \<Rightarrow> Block res" where
  "deserializeBlock C serializedBlockBytes =
     res_bind (extractHeader (NewBuffer serializedBlockBytes)) (\<lambda>(header, b).
     res_bind (extractData C b) (\<lambda>((data, _), b).
     res_bind (extractMetadata b) (\<lambda>(metadata, _). Inr (mk_block header data metadata))))"

definition extractSerializedBlockInfo :: "tx_codec \<Rightarrow> bytes \<Rightarrow> serializedBlockInfo res" where
  "extractSerializedBlockInfo C serializedBlockBytes =
     res_bind (extractHeader (NewBuffer serializedBlockBytes)) (\<lambda>(header, b).
     res_bind (extractData C b) (\<lambda>((_, txOffsets), b).
     res_bind (extractMetadata b) (\<lambda>(metadata, _).
       Inr \<lparr>sbi_blockHeader = header, sbi_txOffsets = txOffsets, sbi_metadata = metadata\<rparr>)))"

section \<open>Reading back what was written\<close>

lemma EncodeVarint_not_Nil [simp]: "EncodeVarint x \<noteq> []"
  by (cases "127 < x") (simp_all add: EncodeVarint_large EncodeVarint_small)

lemma buf_DecodeVarint_Encode [simp]: "buf_DecodeVarint (EncodeVarint x @ r) = Inr (x, r)"
  by (simp add: buf_DecodeVarint_def)

lemma sint_of_length:
  assumes "n < 2 ^ 63"
  shows "sint (word_of_nat n :: uint64) = int n"
proof -
  have "unat (word_of_nat n :: uint64) = n" using assms by (simp add: unat_of_nat)
  then have u: "uint (word_of_nat n :: uint64) = int n" by (metis uint_nat)
  have "signed_take_bit 63 (int n) = int n" using assms by (intro signed_take_bit_int_eq_self) auto
  then show ?thesis unfolding sint_uint u by simp
qed

lemma buf_DecodeRawBytes_Encode [simp]:
  "length b < 2 ^ 63 \<Longrightarrow> buf_DecodeRawBytes (EncodeRawBytes b @ r) = Inr (b, r)"
  by (simp add: buf_DecodeRawBytes_def EncodeRawBytes_def sint_of_length)

lemma lb_DecodeVarint_Encode [simp]:
  "lb_DecodeVarint \<lparr>lb_buf = EncodeVarint x @ r, lb_position = p\<rparr>
     = Inr (x, \<lparr>lb_buf = r, lb_position = p + length (EncodeVarint x)\<rparr>)"
  by (simp add: lb_DecodeVarint_def length_EncodeVarint)

lemma lb_DecodeRawBytes_Encode [simp]:
  "length b < 2 ^ 63 \<Longrightarrow> lb_DecodeRawBytes \<lparr>lb_buf = EncodeRawBytes b @ r, lb_position = p\<rparr>
     = Inr (b, \<lparr>lb_buf = r, lb_position = p + length (EncodeRawBytes b)\<rparr>)"
  by (simp add: lb_DecodeRawBytes_def) (simp add: EncodeRawBytes_def length_EncodeVarint)

lemma addData_loop_extract:
  assumes "addData_loop C data buf offs = Inr (offs', buf')" "\<forall>b \<in> set data. length b < 2 ^ 63"
  shows "buf' = buf @ concat (map EncodeRawBytes data)
    \<and> extractData_loop C (length data) \<lparr>lb_buf = concat (map EncodeRawBytes data) @ r, lb_position = length buf\<rparr> acc offs
        = Inr ((acc @ data, offs'), \<lparr>lb_buf = r, lb_position = length buf'\<rparr>)"
  using assms
proof (induction data arbitrary: buf offs acc)
  case (Cons tx data)
  then obtain txid where t: "extractTxID C tx = Inr txid" by (auto simp: Let_def res_bind_eq_Inr)
  let ?i = "\<lparr>ti_txID = txid, ti_loc = \<lparr>lp_offset = length buf, lp_bytesLength = length (EncodeRawBytes tx)\<rparr>\<rparr>"
  from Cons.prems t have "addData_loop C data (buf @ EncodeRawBytes tx) (offs @ [?i]) = Inr (offs', buf')"
    by (simp add: Let_def)
  from Cons.IH[OF this, of "acc @ [tx]"] Cons.prems t show ?case by (simp add: Let_def GetBytesConsumed_def)
qed simp

lemma addData_loop_prefix:
  "addData_loop C data buf offs = Inr (offs', buf') \<Longrightarrow> \<exists>z. buf' = buf @ z"
  by (induction data arbitrary: buf offs) (fastforce simp: Let_def res_bind_eq_Inr)+

lemma addData_loop_offsets:
  assumes "addData_loop C data buf offs = Inr (offs', buf')"
  shows "\<exists>new. offs' = offs @ new \<and> length new = length data \<and> (\<forall>i < length data. \<forall>r.
     take (lp_bytesLength (ti_loc (new ! i))) (drop (lp_offset (ti_loc (new ! i))) (buf' @ r)) = EncodeRawBytes (data ! i)
     \<and> lp_bytesLength (ti_loc (new ! i)) = length (EncodeRawBytes (data ! i))
     \<and> extractTxID C (data ! i) = Inr (ti_txID (new ! i)))"
  using assms
proof (induction data arbitrary: buf offs)
  case (Cons tx data)
  then obtain txid where t: "extractTxID C tx = Inr txid" by (auto simp: Let_def res_bind_eq_Inr)
  let ?buf = "buf @ EncodeRawBytes tx"
  let ?i = "\<lparr>ti_txID = txid, ti_loc = \<lparr>lp_offset = length buf, lp_bytesLength = length (EncodeRawBytes tx)\<rparr>\<rparr>"
  from Cons.prems t have l: "addData_loop C data ?buf (offs @ [?i]) = Inr (offs', buf')" by (simp add: Let_def)
  from Cons.IH[OF l] obtain new where new: "offs' = (offs @ [?i]) @ new" "length new = length data"
    "\<forall>i < length data. \<forall>r. take (lp_bytesLength (ti_loc (new ! i))) (drop (lp_offset (ti_loc (new ! i))) (buf' @ r))
       = EncodeRawBytes (data ! i) \<and> lp_bytesLength (ti_loc (new ! i)) = length (EncodeRawBytes (data ! i))
     \<and> extractTxID C (data ! i) = Inr (ti_txID (new ! i))" by blast
  have "\<exists>z. buf' = buf @ EncodeRawBytes tx @ z" using addData_loop_prefix[OF l] by auto
  then have "take (length (EncodeRawBytes tx)) (drop (length buf) (buf' @ r)) = EncodeRawBytes tx" for r by auto
  then show ?case using new t
    by (intro exI[of _ "?i # new"]) (auto simp: less_Suc_eq_0_disj)
qed simp

text \<open>The lengths in a block fit into a signed 64-bit integer.\<close>

definition block_small :: "Block \<Rightarrow> bool" where
  "block_small b \<longleftrightarrow> (\<forall>x \<in> set (blk_DataHash b # blk_PreviousHash b # blk_Data b @ blk_Metadata b). length x < 2 ^ 63)
     \<and> length (blk_Data b) < 2 ^ 64 \<and> length (blk_Metadata b) < 2 ^ 64"

lemma extractMetadata_loop_Encode:
  "\<forall>b \<in> set ms. length b < 2 ^ 63 \<Longrightarrow>
     \<exists>buf'. extractMetadata_loop (length ms) \<lparr>lb_buf = concat (map EncodeRawBytes ms), lb_position = p\<rparr> acc = Inr (acc @ ms, buf')"
proof (induction ms arbitrary: p acc)
  case (Cons m ms)
  from Cons.IH[of "p + length (EncodeRawBytes m)" "acc @ [m]"] Cons.prems show ?case by simp
qed simp

lemma serializeBlock_parts:
  assumes "serializeBlock C b = Inr (bs, info)" "block_small b"
  obtains h d where "h = addHeaderBytes (block_header b) []"
    "extractHeader (NewBuffer bs) = Inr (block_header b, \<lparr>lb_buf = drop (length h) bs, lb_position = length h\<rparr>)"
    "extractData C \<lparr>lb_buf = drop (length h) bs, lb_position = length h\<rparr> = Inr ((blk_Data b, sbi_txOffsets info), d)"
    "\<exists>z. extractMetadata d = Inr (blk_Metadata b, z)"
    "sbi_blockHeader info = block_header b" "sbi_metadata info = blk_Metadata b"
    "length (sbi_txOffsets info) = length (blk_Data b)"
    "\<forall>i < length (blk_Data b). take (lp_bytesLength (ti_loc (sbi_txOffsets info ! i)))
        (drop (lp_offset (ti_loc (sbi_txOffsets info ! i))) bs) = EncodeRawBytes (blk_Data b ! i)"
    "\<forall>i < length (blk_Data b). extractTxID C (blk_Data b ! i) = Inr (ti_txID (sbi_txOffsets info ! i))
       \<and> lp_bytesLength (ti_loc (sbi_txOffsets info ! i)) = length (EncodeRawBytes (blk_Data b ! i))"
proof -
  let ?h = "addHeaderBytes (block_header b) []"
  let ?n = "EncodeVarint (word_of_nat (length (blk_Data b)))" and ?m = "EncodeVarint (word_of_nat (length (blk_Metadata b)))"
  let ?ms = "concat (map EncodeRawBytes (blk_Metadata b))"
  from assms(1) obtain offs buf where a: "addData_loop C (blk_Data b) (?h @ ?n) [] = Inr (offs, buf)"
    "bs = buf @ ?m @ ?ms" "info = \<lparr>sbi_blockHeader = block_header b, sbi_txOffsets = offs, sbi_metadata = blk_Metadata b\<rparr>"
    by (auto simp: serializeBlock_def addDataBytes_def addMetadataBytes_def res_bind_eq_Inr Let_def)
  have sm: "\<forall>x \<in> set (blk_Data b). length x < 2 ^ 63" "\<forall>x \<in> set (blk_Metadata b). length x < 2 ^ 63"
    "length (blk_DataHash b) < 2 ^ 63" "length (blk_PreviousHash b) < 2 ^ 63"
    "unat (word_of_nat (length (blk_Data b)) :: uint64) = length (blk_Data b)"
    "unat (word_of_nat (length (blk_Metadata b)) :: uint64) = length (blk_Metadata b)"
    using assms(2) by (auto simp: block_small_def unat_of_nat)
  note ex = addData_loop_extract[OF a(1) sm(1), of "?m @ ?ms" "[]"]
  then have bs: "bs = ?h @ ?n @ concat (map EncodeRawBytes (blk_Data b)) @ ?m @ ?ms" using a(2) by simp
  let ?d = "\<lparr>lb_buf = ?m @ ?ms, lb_position = length buf\<rparr>"
  have "extractHeader (NewBuffer bs) = Inr (block_header b, \<lparr>lb_buf = drop (length ?h) bs, lb_position = length ?h\<rparr>)"
    using sm(3,4) unfolding bs by (simp add: extractHeader_def NewBuffer_def addHeaderBytes_def block_header_def)
  moreover have "extractData C \<lparr>lb_buf = drop (length ?h) bs, lb_position = length ?h\<rparr> = Inr ((blk_Data b, sbi_txOffsets info), ?d)"
    using ex unfolding bs by (simp add: extractData_def sm(5) a(3))
  moreover have "\<exists>z. extractMetadata ?d = Inr (blk_Metadata b, z)"
    using extractMetadata_loop_Encode[OF sm(2), of _ "[]"] by (simp add: extractMetadata_def sm(6))
  moreover have "length (sbi_txOffsets info) = length (blk_Data b)"
    "\<forall>i < length (blk_Data b). take (lp_bytesLength (ti_loc (sbi_txOffsets info ! i)))
        (drop (lp_offset (ti_loc (sbi_txOffsets info ! i))) bs) = EncodeRawBytes (blk_Data b ! i)"
    "\<forall>i < length (blk_Data b). extractTxID C (blk_Data b ! i) = Inr (ti_txID (sbi_txOffsets info ! i))
       \<and> lp_bytesLength (ti_loc (sbi_txOffsets info ! i)) = length (EncodeRawBytes (blk_Data b ! i))"
    using addData_loop_offsets[OF a(1)] unfolding a(2,3) by (auto simp del: take_append drop_append)
  ultimately show ?thesis using that[of ?h ?d] a(3) by simp
qed

section \<open>Properties\<close>

lemma deserialize_serializeBlock:
  assumes "serializeBlock C b = Inr (bs, info)" "block_small b"
  shows "deserializeBlock C bs = Inr b" "extractSerializedBlockInfo C bs = Inr info"
proof -
  obtain h :: bytes and d z where p:
    "extractHeader (NewBuffer bs) = Inr (block_header b, \<lparr>lb_buf = drop (length h) bs, lb_position = length h\<rparr>)"
    "extractData C \<lparr>lb_buf = drop (length h) bs, lb_position = length h\<rparr> = Inr ((blk_Data b, sbi_txOffsets info), d)"
    "extractMetadata d = Inr (blk_Metadata b, z)" "sbi_blockHeader info = block_header b" "sbi_metadata info = blk_Metadata b"
    by (rule serializeBlock_parts[OF assms]) blast
  from p(1-3) show "deserializeBlock C bs = Inr b"
    by (simp add: deserializeBlock_def mk_block_def block_header_def)
  from p show "extractSerializedBlockInfo C bs = Inr info"
    by (cases info) (simp add: extractSerializedBlockInfo_def)
qed

text \<open>C17. The serialization of blocks is a round trip: the bytes of a block read back as the block;
  reading them for the index finds the positions of the transactions the serializer has
  reported; and at each of these positions stand the length and the bytes of the transaction.\<close>

theorem block_roundtrip:
  assumes "serializeBlock C b = Inr (bs, info)" "block_small b"
  shows "deserializeBlock C bs = Inr b \<and> extractSerializedBlockInfo C bs = Inr info
    \<and> length (sbi_txOffsets info) = length (blk_Data b)
    \<and> (\<forall>i < length (blk_Data b).
         take (lp_bytesLength (ti_loc (sbi_txOffsets info ! i))) (drop (lp_offset (ti_loc (sbi_txOffsets info ! i))) bs)
           = EncodeRawBytes (blk_Data b ! i))"
  by (rule serializeBlock_parts[OF assms]) (use deserialize_serializeBlock[OF assms] in blast)

theorem block_roundtrip_witness:
  "case serializeBlock ex_tx_codec ex_block of
     Inl _ \<Rightarrow> False
   | Inr (bs, info) \<Rightarrow> deserializeBlock ex_tx_codec bs = Inr ex_block
       \<and> take (lp_bytesLength (ti_loc (sbi_txOffsets info ! 1))) (drop (lp_offset (ti_loc (sbi_txOffsets info ! 1))) bs)
           = EncodeRawBytes [2]"
proof -
  let ?r = "projr (serializeBlock ex_tx_codec ex_block)"
  have "\<not> isl (serializeBlock ex_tx_codec ex_block)" by code_simp
  then have e: "serializeBlock ex_tx_codec ex_block = Inr (fst ?r, snd ?r)"
    by (cases "serializeBlock ex_tx_codec ex_block") auto
  have "block_small ex_block" by (simp add: block_small_def ex_block_def)
  from block_roundtrip[OF e this] have r: "deserializeBlock ex_tx_codec (fst ?r) = Inr ex_block"
    "\<forall>i < length (blk_Data ex_block). take (lp_bytesLength (ti_loc (sbi_txOffsets (snd ?r) ! i)))
       (drop (lp_offset (ti_loc (sbi_txOffsets (snd ?r) ! i))) (fst ?r)) = EncodeRawBytes (blk_Data ex_block ! i)" by blast+
  have "1 < length (blk_Data ex_block)" "blk_Data ex_block ! 1 = [2]" by (simp_all add: ex_block_def)
  with r have "deserializeBlock ex_tx_codec (fst ?r) = Inr ex_block \<and> take (lp_bytesLength (ti_loc (sbi_txOffsets (snd ?r) ! 1)))
       (drop (lp_offset (ti_loc (sbi_txOffsets (snd ?r) ! 1))) (fst ?r)) = EncodeRawBytes [2]" by metis
  then show ?thesis by (subst e) (simp add: case_prod_unfold)
qed

end
