(* ===== verification/Block_File.thy ===== *)
theory Block_File
  imports Block_Serialization
begin

text \<open>
  The block files: writing (\<^verbatim>\<open>blockfile_rw.go\<close>) and the streams that read them
  (\<^verbatim>\<open>block_stream.go\<close>) of \<^verbatim>\<open>common/ledger/blkstorage/fsblkstorage\<close>, and the scan for the last
  complete block (\<^verbatim>\<open>blockfile_mgr.go\<close>). The directory of a ledger is the map from the number of
  a block file to its content. A block is stored as a frame, the varint of its length and
  its bytes; the lemmas show that a stream delivers the frames of the files in order, and that a
  frame cut off by a crash is recognized.
\<close>

section \<open>Files\<close>

type_synonym blockfiles = "(int, bytes) gomap"

definition file_open :: "blockfiles \<Rightarrow> int \<Rightarrow> bytes res" where
  "file_open files fileNum = (case map_get files fileNum of
     None \<Rightarrow> Inl (GoErr ''no such file or directory'') | Some c \<Rightarrow> Inr c)"

text \<open>\<^verbatim>\<open>newBlockfileWriter\<close> creates the file when it is missing.\<close>

definition newBlockfileWriter :: "blockfiles \<Rightarrow> int \<Rightarrow> blockfiles" where
  "newBlockfileWriter files fileNum = (case map_get files fileNum of
     None \<Rightarrow> map_put fileNum [] files | Some c \<Rightarrow> files)"

text \<open>An append succeeds, or fails after the first \<open>k\<close> bytes.\<close>

type_synonym write_fault = "nat option"

definition writer_append :: "blockfiles \<Rightarrow> int \<Rightarrow> bytes \<Rightarrow> write_fault \<Rightarrow> blockfiles \<times> go_err option" where
  "writer_append files fileNum b fault =
     (let c = (case map_get files fileNum of None \<Rightarrow> [] | Some c \<Rightarrow> c) in
      case fault of
        None \<Rightarrow> (map_put fileNum (c @ b) files, None)
      | Some k \<Rightarrow> (map_put fileNum (c @ take k b) files, Some (GoErr ''write error'')))"

definition truncateFile :: "blockfiles \<Rightarrow> int \<Rightarrow> int \<Rightarrow> blockfiles" where
  "truncateFile files fileNum targetSize =
     (case map_get files fileNum of
        None \<Rightarrow> files
      | Some c \<Rightarrow> if int (length c) > targetSize then map_put fileNum (take (nat targetSize) c) files else files)"

text \<open>\<^verbatim>\<open>ReadAt\<close> reports an error when it delivers fewer bytes than asked for.\<close>

definition reader_read :: "blockfiles \<Rightarrow> int \<Rightarrow> int \<Rightarrow> int \<Rightarrow> bytes res" where
  "reader_read files fileNum offset len =
     res_bind (file_open files fileNum) (\<lambda>c.
       if len < 0 then Inl (GoPanic ''makeslice: len out of range'')
       else if offset < 0 then Inl (GoErr ''negative offset'')
       else if int (length c) < offset + len then Inl (GoErr ''EOF'')
       else Inr (take (nat len) (drop (nat offset) c)))"

section \<open>The stream of one file\<close>

definition ErrUnexpectedEndOfBlockfile :: go_err where
  "ErrUnexpectedEndOfBlockfile = GoErr ''unexpected end of blockfile''"

record blockfileStream =
  bfs_fileNum :: int
  bfs_currentOffset :: int

record blockPlacementInfo =
  bpi_fileNum :: int
  bpi_blockStartOffset :: int
  bpi_blockBytesOffset :: int

definition newBlockfileStream :: "blockfiles \<Rightarrow> int \<Rightarrow> int \<Rightarrow> blockfileStream res" where
  "newBlockfileStream files fileNum startOffset =
     res_bind (file_open files fileNum) (\<lambda>_.
       if startOffset < 0 then Inl (GoErr ''invalid argument'')
       else Inr \<lparr>bfs_fileNum = fileNum, bfs_currentOffset = startOffset\<rparr>)"

text \<open>The buffered reader stands at the current offset of the file, and reads what the file has when it is called:
  a step of the writer and a step of a reader do not overlap. A varint of at most eight
  bytes is below \<open>2\<^sup>5\<^sup>6\<close>, so that its conversion to a signed integer does not change it.\<close>

definition bfs_nextBlockBytesAndPlacementInfo ::
  "blockfiles \<Rightarrow> blockfileStream \<Rightarrow> ((bytes \<times> blockPlacementInfo) option \<times> blockfileStream) res" where
  "bfs_nextBlockBytesAndPlacementInfo files s =
     res_bind (file_open files (bfs_fileNum s)) (\<lambda>c.
       let size = int (length c); off = bfs_currentOffset s in
       if off = size then Inr (None, s)
       else
         let remainingBytes = size - off;
             moreContentAvailable = (\<not> remainingBytes < 8);
             peekBytes = (if remainingBytes < 8 then remainingBytes else 8) in
         if peekBytes < 0 then Inl (GoErr ''bufio: negative count'')
         else
           let lenBytes = take (nat peekBytes) (drop (nat off) c) in
           case DecodeVarint lenBytes of (len, n) \<Rightarrow>
             if n = 0 then
               (if \<not> moreContentAvailable then Inl ErrUnexpectedEndOfBlockfile
                else Inl (GoPanic ''Error in decoding varint bytes''))
             else
               let bytesExpected = int n + uint len in
               if bytesExpected > remainingBytes then Inl ErrUnexpectedEndOfBlockfile
               else
                 let blockBytes = take (unat len) (drop (nat off + n) c) in
                 Inr (Some (blockBytes, \<lparr>bpi_fileNum = bfs_fileNum s, bpi_blockStartOffset = off,
                                         bpi_blockBytesOffset = off + int n\<rparr>),
                      s\<lparr>bfs_currentOffset := off + (int n + uint len)\<rparr>))"

definition bfs_nextBlockBytes :: "blockfiles \<Rightarrow> blockfileStream \<Rightarrow> (bytes option \<times> blockfileStream) res" where
  "bfs_nextBlockBytes files s =
     res_bind (bfs_nextBlockBytesAndPlacementInfo files s) (\<lambda>(r, s'). Inr (map_option fst r, s'))"

section \<open>The stream over several files\<close>

record blockStream =
  bs_currentFileNum :: int
  bs_endFileNum :: int
  bs_currentFileStream :: blockfileStream

definition newBlockStream :: "blockfiles \<Rightarrow> int \<Rightarrow> int \<Rightarrow> int \<Rightarrow> blockStream res" where
  "newBlockStream files startFileNum startOffset endFileNum =
     res_bind (newBlockfileStream files startFileNum startOffset) (\<lambda>st.
       Inr \<lparr>bs_currentFileNum = startFileNum, bs_endFileNum = endFileNum, bs_currentFileStream = st\<rparr>)"

definition moveToNextBlockfileStream :: "blockfiles \<Rightarrow> blockStream \<Rightarrow> blockStream res" where
  "moveToNextBlockfileStream files s =
     res_bind (newBlockfileStream files (bs_currentFileNum s + 1) 0) (\<lambda>st.
       Inr (s\<lparr>bs_currentFileNum := bs_currentFileNum s + 1, bs_currentFileStream := st\<rparr>))"

lemma moved_file:
  "moveToNextBlockfileStream files s = Inr s' \<Longrightarrow>
     bs_currentFileNum s' = bs_currentFileNum s + 1 \<and> bs_currentFileNum s' \<in> fst ` set files"
  by (auto simp: moveToNextBlockfileStream_def newBlockfileStream_def file_open_def res_bind_eq_Inr
      dest: map_of_SomeD split: option.splits if_splits intro!: rev_image_eqI)

function bs_nextBlockBytesAndPlacementInfo ::
  "blockfiles \<Rightarrow> blockStream \<Rightarrow> ((bytes \<times> blockPlacementInfo) option \<times> blockStream) res" where
  "bs_nextBlockBytesAndPlacementInfo files s =
     (case bfs_nextBlockBytesAndPlacementInfo files (bs_currentFileStream s) of
        Inl e \<Rightarrow> Inl e
      | Inr (r, st) \<Rightarrow>
          let s1 = s\<lparr>bs_currentFileStream := st\<rparr> in
          if r = None \<and> (bs_currentFileNum s < bs_endFileNum s \<or> bs_endFileNum s < 0) then
            (case moveToNextBlockfileStream files s1 of
               Inl e \<Rightarrow> Inl e
             | Inr s2 \<Rightarrow> bs_nextBlockBytesAndPlacementInfo files s2)
          else Inr (r, s1))"
  by pat_completeness auto
termination
proof (relation "measure (\<lambda>(files, s). card {n \<in> fst ` set files. bs_currentFileNum s < n})", goal_cases)
  case (2 files s _ r st s1 s2)
  let ?A = "{n \<in> fst ` set files. bs_currentFileNum s < n}" and ?B = "{n \<in> fst ` set files. bs_currentFileNum s2 < n}"
  have "bs_currentFileNum s1 = bs_currentFileNum s" using 2 by simp
  then have m: "bs_currentFileNum s2 = bs_currentFileNum s + 1" "bs_currentFileNum s2 \<in> fst ` set files"
    using moved_file[OF 2(5)] by metis+
  then have "?B \<subset> ?A" by auto
  then have "card ?B < card ?A" by (intro psubset_card_mono) auto
  then show ?case by simp
qed simp

declare bs_nextBlockBytesAndPlacementInfo.simps [simp del]

definition bs_nextBlockBytes :: "blockfiles \<Rightarrow> blockStream \<Rightarrow> (bytes option \<times> blockStream) res" where
  "bs_nextBlockBytes files s =
     res_bind (bs_nextBlockBytesAndPlacementInfo files s) (\<lambda>(r, s'). Inr (map_option fst r, s'))"

section \<open>The scan for the last complete block\<close>

lemma bfs_next_progress:
  assumes "bfs_nextBlockBytes files s = Inr (Some b, s')"
  shows "\<exists>c. map_get files (bfs_fileNum s) = Some c \<and> bfs_fileNum s' = bfs_fileNum s
    \<and> bfs_currentOffset s < bfs_currentOffset s' \<and> bfs_currentOffset s' \<le> int (length c)"
  using assms
  by (auto simp: bfs_nextBlockBytes_def bfs_nextBlockBytesAndPlacementInfo_def file_open_def res_bind_eq_Inr Let_def
      split: option.splits if_splits prod.splits intro!: add_pos_nonneg)

function scan_loop :: "blockfiles \<Rightarrow> blockfileStream \<Rightarrow> bytes option \<Rightarrow> int
    \<Rightarrow> bytes option \<times> int \<times> int \<times> go_err option" where
  "scan_loop files s lastBlockBytes numBlocks =
     (case bfs_nextBlockBytes files s of
        Inl errRead \<Rightarrow> (lastBlockBytes, bfs_currentOffset s, numBlocks, Some errRead)
      | Inr (None, s') \<Rightarrow> (lastBlockBytes, bfs_currentOffset s', numBlocks, None)
      | Inr (Some blockBytes, s') \<Rightarrow> scan_loop files s' (Some blockBytes) (numBlocks + 1))"
  by pat_completeness auto
termination
proof (relation "measure (\<lambda>(files, s, _). nat ((case map_get files (bfs_fileNum s) of None \<Rightarrow> 0 | Some c \<Rightarrow> int (length c))
    - bfs_currentOffset s))", goal_cases)
  case (2 files s lastBlockBytes numBlocks p r s' blockBytes)
  then have "bfs_nextBlockBytes files s = Inr (Some blockBytes, s')" by simp
  from bfs_next_progress[OF this] show ?case by auto
qed simp

declare scan_loop.simps [simp del]

definition scanForLastCompleteBlock :: "blockfiles \<Rightarrow> int \<Rightarrow> int \<Rightarrow> (bytes option \<times> int \<times> int) res" where
  "scanForLastCompleteBlock files fileNum startingOffset =
     res_bind (newBlockfileStream files fileNum startingOffset) (\<lambda>st.
       case scan_loop files st None 0 of (lastBlockBytes, off, numBlocks, errRead) \<Rightarrow>
         (case errRead of
            None \<Rightarrow> Inr (lastBlockBytes, off, numBlocks)
          | Some e \<Rightarrow> if e = ErrUnexpectedEndOfBlockfile then Inr (lastBlockBytes, off, numBlocks) else Inl e))"

section \<open>Frames\<close>

definition frame :: "bytes \<Rightarrow> bytes" where
  "frame b = EncodeVarint (word_of_nat (length b)) @ b"

definition frame_ok :: "bytes \<Rightarrow> bool" where
  "frame_ok b \<longleftrightarrow> length b < 2 ^ 56"

lemma length_EncodeVarint_small:
  assumes "unat (x :: uint64) < 2 ^ (7 * k)" "0 < k"
  shows "length (EncodeVarint x) \<le> k"
  using assms
proof (induction x arbitrary: k rule: EncodeVarint.induct)
  case (1 x)
  show ?case
  proof (cases "127 < x")
    case True
    then have "128 \<le> unat x" by (simp add: word_less_nat_alt)
    with 1 have k: "1 < k" by (cases "k = 1") auto
    obtain j where j: "k = Suc j" using k by (cases k) auto
    have "unat (drop_bit 7 x) = unat x div 128" by (rule unat_drop7)
    also have "\<dots> < 2 ^ (7 * j)" using 1(2) j by (simp add: power_add div_less_iff_less_mult mult.commute)
    finally have "length (EncodeVarint (drop_bit 7 x)) \<le> j" using 1(1)[OF True] k j by simp
    then show ?thesis using True j by (simp add: EncodeVarint_large)
  next
    case False
    then show ?thesis using 1(3) by (simp add: EncodeVarint_small not_less)
  qed
qed


lemma DecodeVarint_loop_continued: "\<forall>b \<in> set p. b AND 0x80 \<noteq> 0 \<Longrightarrow> DecodeVarint_loop sh x n p = (0, 0)"
  by (induction p arbitrary: sh x n) (auto simp: Let_def)

lemma EncodeVarint_continued: "b \<in> set (butlast (EncodeVarint x)) \<Longrightarrow> b AND 0x80 \<noteq> 0"
proof (induction x rule: EncodeVarint.induct)
  case (1 x)
  show ?case
  proof (cases "127 < x")
    case True
    have "(0x80 OR ucast (x AND 0x7F) :: byte) AND 0x80 \<noteq> 0" by (simp add: and_80_eq_0 bit_or_iff)
    with True 1 show ?thesis by (auto simp: EncodeVarint_large)
  qed (use 1 in \<open>simp add: EncodeVarint_small\<close>)
qed

lemma DecodeVarint_cut:
  assumes "k < length (EncodeVarint x)"
  shows "DecodeVarint (take k (EncodeVarint x)) = (0, 0)"
proof -
  have "set (take k (EncodeVarint x)) \<subseteq> set (butlast (EncodeVarint x))"
    using assms by (simp add: butlast_conv_take set_take_subset_set_take)
  then show ?thesis using EncodeVarint_continued by (auto simp: DecodeVarint_def intro!: DecodeVarint_loop_continued)
qed

lemma frame_head:
  assumes "frame_ok b"
  shows "length (EncodeVarint (word_of_nat (length b))) \<le> 8" "unat (word_of_nat (length b) :: uint64) = length b"
proof -
  have l: "length b < 2 ^ 56" using assms by (simp add: frame_ok_def)
  then show u: "unat (word_of_nat (length b) :: uint64) = length b" by (simp add: unat_of_nat)
  show "length (EncodeVarint (word_of_nat (length b))) \<le> 8"
    using l by (intro length_EncodeVarint_small) (simp_all only: u, simp_all)
qed

text \<open>A stream that stands in front of a complete frame delivers its bytes.\<close>

lemma bfs_next_frame:
  assumes c: "map_get files f = Some (pre @ frame b @ post)" and b: "frame_ok b"
  shows "bfs_nextBlockBytesAndPlacementInfo files \<lparr>bfs_fileNum = f, bfs_currentOffset = int (length pre)\<rparr>
    = Inr (Some (b, \<lparr>bpi_fileNum = f, bpi_blockStartOffset = int (length pre),
                     bpi_blockBytesOffset = int (length pre) + int (length (frame b) - length b)\<rparr>),
           \<lparr>bfs_fileNum = f, bfs_currentOffset = int (length pre + length (frame b))\<rparr>)"
proof -
  let ?v = "EncodeVarint (word_of_nat (length b))" and ?rest = "frame b @ post"
  note h = frame_head[OF b]
  have u: "uint (word_of_nat (length b) :: uint64) = int (length b)" using h(2) by (metis uint_nat)
  have "take 8 ?v = ?v" "length ?v > 0" using h(1) by simp_all
  with c u h show ?thesis
    by (cases "length ?rest < 8")
      (simp_all add: bfs_nextBlockBytesAndPlacementInfo_def file_open_def Let_def frame_def)
qed


text \<open>At the end of the file there is no block; a frame that is cut off gives the error the scan
  looks for.\<close>

lemma bfs_next_end:
  "map_get files f = Some pre \<Longrightarrow>
     bfs_nextBlockBytesAndPlacementInfo files \<lparr>bfs_fileNum = f, bfs_currentOffset = int (length pre)\<rparr>
       = Inr (None, \<lparr>bfs_fileNum = f, bfs_currentOffset = int (length pre)\<rparr>)"
  by (simp add: bfs_nextBlockBytesAndPlacementInfo_def file_open_def Let_def)

definition cut_frame :: "bytes \<Rightarrow> bool" where
  "cut_frame p \<longleftrightarrow> (\<exists>b k. frame_ok b \<and> k < length (frame b) \<and> p = take k (frame b))"

lemma cut_frame_Nil [simp]: "cut_frame []"
  unfolding cut_frame_def by (rule exI[of _ "[]"], rule exI[of _ 0]) (simp add: frame_ok_def frame_def)

lemma bfs_next_cut:
  assumes c: "map_get files f = Some (pre @ p)" and p: "cut_frame p" "p \<noteq> []"
  shows "bfs_nextBlockBytesAndPlacementInfo files \<lparr>bfs_fileNum = f, bfs_currentOffset = int (length pre)\<rparr>
    = Inl ErrUnexpectedEndOfBlockfile"
proof -
  from p obtain b k where b: "frame_ok b" "k < length (frame b)" "p = take k (frame b)" "0 < k"
    by (auto simp: cut_frame_def)
  let ?v = "EncodeVarint (word_of_nat (length b))"
  note h = frame_head[OF b(1)]
  have u: "uint (word_of_nat (length b) :: uint64) = int (length b)" using h(2) by (metis uint_nat)
  have lp: "length p = k" using b by simp
  show ?thesis
  proof (cases "k < length ?v")
    case True
    then have "p = take k ?v" using b(3) by (simp add: frame_def)
    then have "DecodeVarint p = (0, 0)" using DecodeVarint_cut[OF True] by simp
    moreover have "k < 8" using True h(1) by simp
    ultimately show ?thesis using c lp b(4)
      by (simp add: bfs_nextBlockBytesAndPlacementInfo_def file_open_def Let_def)
  next
    case False
    then have pe: "p = ?v @ take (k - length ?v) b" using b(3) by (simp add: frame_def)
    have "take 8 ?v = ?v" using h(1) by simp
    then have "DecodeVarint (take 8 p) = (word_of_nat (length b), length ?v)" "DecodeVarint p = (word_of_nat (length b), length ?v)"
      by (simp_all add: pe)
    moreover have "int k < int (length ?v) + int (length b)" using b(2) by (simp add: frame_def)
    ultimately show ?thesis using c lp b(4) u
      by (cases "k < 8") (simp_all add: bfs_nextBlockBytesAndPlacementInfo_def file_open_def Let_def)
  qed
qed

lemma scan_loop_frames:
  assumes "map_get files f = Some (pre @ concat (map frame bs) @ p)" "\<forall>b \<in> set bs. frame_ok b" "cut_frame p"
  shows "scan_loop files \<lparr>bfs_fileNum = f, bfs_currentOffset = int (length pre)\<rparr> l n
    = (if bs = [] then l else Some (last bs), int (length (pre @ concat (map frame bs))), n + int (length bs),
       if p = [] then None else Some ErrUnexpectedEndOfBlockfile)"
  using assms(1,2)
proof (induction bs arbitrary: pre l n)
  case Nil
  then show ?case using bfs_next_end[of files f pre] bfs_next_cut[OF _ assms(3), of files f pre]
    by (cases "p = []") (simp_all add: scan_loop.simps[of files "\<lparr>bfs_fileNum = f, bfs_currentOffset = int (length pre)\<rparr>"] bfs_nextBlockBytes_def)
next
  case (Cons b bs)
  have c: "map_get files f = Some ((pre @ frame b) @ concat (map frame bs) @ p)" using Cons.prems by simp
  from Cons.IH[OF c, of "Some b" "n + 1"] Cons.prems
  have "scan_loop files \<lparr>bfs_fileNum = f, bfs_currentOffset = int (length pre + length (frame b))\<rparr> (Some b) (n + 1)
    = (if bs = [] then Some b else Some (last bs), int (length (pre @ concat (map frame (b # bs)))), n + 1 + int (length bs),
       if p = [] then None else Some ErrUnexpectedEndOfBlockfile)" by simp
  moreover from bfs_next_frame[of files f pre b "concat (map frame bs) @ p"] Cons.prems
  have "bfs_nextBlockBytes files \<lparr>bfs_fileNum = f, bfs_currentOffset = int (length pre)\<rparr>
    = Inr (Some b, \<lparr>bfs_fileNum = f, bfs_currentOffset = int (length pre + length (frame b))\<rparr>)"
    by (simp add: bfs_nextBlockBytes_def)
  ultimately show ?case
    by (subst scan_loop.simps) simp
qed

lemma scan_frames:
  assumes "map_get files f = Some (pre @ concat (map frame bs) @ p)" "\<forall>b \<in> set bs. frame_ok b" "cut_frame p"
  shows "scanForLastCompleteBlock files f (int (length pre))
    = Inr (if bs = [] then None else Some (last bs), int (length (pre @ concat (map frame bs))), int (length bs))"
  using scan_loop_frames[OF assms, of None 0] assms(1)
  by (simp add: scanForLastCompleteBlock_def newBlockfileStream_def file_open_def)


section \<open>The blocks a stream delivers\<close>

text \<open>The file number and the offset of each frame, for the frames of the files from number
  \<open>f\<close> on, the first one read from offset \<open>off\<close>.\<close>

fun file_positions :: "int \<Rightarrow> int \<Rightarrow> bytes list \<Rightarrow> (int \<times> int) list" where
  "file_positions f off [] = []"
| "file_positions f off (b # bs) = (f, off) # file_positions f (off + int (length (frame b))) bs"

fun pos_from :: "int \<Rightarrow> int \<Rightarrow> bytes list list \<Rightarrow> (int \<times> int) list" where
  "pos_from f off [] = []"
| "pos_from f off (bs # bss) = file_positions f off bs @ pos_from (f + 1) 0 bss"

definition stream_at :: "blockfiles \<Rightarrow> blockStream \<Rightarrow> bytes list list \<Rightarrow> bool" where
  "stream_at files s bss \<longleftrightarrow> bss \<noteq> [] \<and> (\<forall>b \<in> set (concat bss). frame_ok b)
     \<and> bfs_fileNum (bs_currentFileStream s) = bs_currentFileNum s
     \<and> (\<exists>pre. bfs_currentOffset (bs_currentFileStream s) = int (length pre)
          \<and> map_get files (bs_currentFileNum s) = Some (pre @ concat (map frame (hd bss))))
     \<and> (\<forall>i < length (tl bss). map_get files (bs_currentFileNum s + 1 + int i) = Some (concat (map frame (tl bss ! i))))
     \<and> (bs_endFileNum s = bs_currentFileNum s + int (length (tl bss)) \<or> bs_endFileNum s < 0)"

abbreviation stream_pos :: "blockStream \<Rightarrow> bytes list list \<Rightarrow> (int \<times> int) list" where
  "stream_pos s bss \<equiv> pos_from (bs_currentFileNum s) (bfs_currentOffset (bs_currentFileStream s)) bss"

text \<open>The step from the end of one file to the beginning of the next.\<close>

lemma stream_at_move:
  assumes "stream_at files s ([] # bs # bss)"
  defines "s' \<equiv> s\<lparr>bs_currentFileNum := bs_currentFileNum s + 1,
    bs_currentFileStream := \<lparr>bfs_fileNum = bs_currentFileNum s + 1, bfs_currentOffset = 0\<rparr>\<rparr>"
  shows "bs_nextBlockBytesAndPlacementInfo files s = bs_nextBlockBytesAndPlacementInfo files s'"
    and "stream_at files s' (bs # bss)" and "stream_pos s' (bs # bss) = stream_pos s ([] # bs # bss)"
proof -
  have a: "\<forall>i < Suc (length bss). map_get files (bs_currentFileNum s + 1 + int i) = Some (concat (map frame ((bs # bss) ! i)))"
    using assms(1) by (simp add: stream_at_def)
  then have nx: "map_get files (bs_currentFileNum s + 1) = Some (concat (map frame bs))" by (force dest: spec[of _ 0])
  obtain pre where p: "bs_currentFileStream s = \<lparr>bfs_fileNum = bs_currentFileNum s, bfs_currentOffset = int (length pre)\<rparr>"
    "map_get files (bs_currentFileNum s) = Some pre"
    using assms(1) by (cases "bs_currentFileStream s") (auto simp: stream_at_def)
  have e: "bs_currentFileNum s < bs_endFileNum s \<or> bs_endFileNum s < 0" using assms(1) by (auto simp: stream_at_def)
  have "moveToNextBlockfileStream files (s\<lparr>bs_currentFileStream := bs_currentFileStream s\<rparr>) = Inr s'"
    using nx by (simp add: moveToNextBlockfileStream_def newBlockfileStream_def file_open_def s'_def)
  then show "bs_nextBlockBytesAndPlacementInfo files s = bs_nextBlockBytesAndPlacementInfo files s'"
    using bfs_next_end[OF p(2)] e
    by (subst bs_nextBlockBytesAndPlacementInfo.simps) (simp add: p(1) Let_def)
  have "\<forall>i < length bss. map_get files (bs_currentFileNum s + 1 + 1 + int i) = Some (concat (map frame (bss ! i)))"
    using a by (auto dest: spec[of _ "Suc _"] simp: algebra_simps)
  then show "stream_at files s' (bs # bss)" using assms(1) nx by (auto simp: stream_at_def s'_def algebra_simps)
qed (simp add: s'_def)

lemma bs_next_some:
  assumes "stream_at files s bss" "concat bss = b # rest"
  shows "\<exists>f off s' bss'. bs_nextBlockBytesAndPlacementInfo files s
      = Inr (Some (b, \<lparr>bpi_fileNum = f, bpi_blockStartOffset = off, bpi_blockBytesOffset = off + int (length (frame b) - length b)\<rparr>), s')
    \<and> stream_at files s' bss' \<and> concat bss' = rest \<and> bs_endFileNum s' = bs_endFileNum s
    \<and> stream_pos s bss = (f, off) # stream_pos s' bss'
    \<and> length bss' \<le> length bss"
  using assms
proof (induction bss arbitrary: s)
  case (Cons bs bss)
  show ?case
  proof (cases bs)
    case Nil
    with Cons.prems(2) obtain bs1 bss1 where bss: "bss = bs1 # bss1" by (cases bss) auto
    note m = stream_at_move[OF Cons.prems(1)[unfolded Nil bss]]
    show ?thesis
      using Cons.IH[OF m(2)[folded bss]] Cons.prems(2) m(1) m(3)[folded bss] by (force simp: Nil bss)
  next
    case (Cons c cs)
    then have b: "c = b" "rest = cs @ concat bss" using Cons.prems(2) by simp_all
    obtain pre where p: "bs_currentFileStream s = \<lparr>bfs_fileNum = bs_currentFileNum s, bfs_currentOffset = int (length pre)\<rparr>"
      "map_get files (bs_currentFileNum s) = Some (pre @ frame b @ concat (map frame cs))"
      using Cons.prems(1) Cons b by (cases "bs_currentFileStream s") (auto simp: stream_at_def)
    have "frame_ok b" using Cons.prems(1) Cons b by (simp add: stream_at_def)
    note n = bfs_next_frame[OF p(2) this]
    let ?s = "s\<lparr>bs_currentFileStream := \<lparr>bfs_fileNum = bs_currentFileNum s, bfs_currentOffset = int (length (pre @ frame b))\<rparr>\<rparr>"
    have "stream_at files ?s (cs # bss)"
      using Cons.prems(1) Cons p(2) unfolding stream_at_def by (auto intro!: exI[of _ "pre @ frame b"])
    then show ?thesis using n p(1) b
      by (intro exI[of _ "bs_currentFileNum s"] exI[of _ "int (length pre)"] exI[of _ ?s] exI[of _ "cs # bss"])
        (simp add: bs_nextBlockBytesAndPlacementInfo.simps[of files s] Let_def Cons)
  qed
qed simp

lemma bs_next_none:
  assumes "stream_at files s bss" "concat bss = []" "0 \<le> bs_endFileNum s"
  shows "\<exists>s'. bs_nextBlockBytesAndPlacementInfo files s = Inr (None, s')"
  using assms
proof (induction bss arbitrary: s)
  case (Cons bs bss)
  show ?case
  proof (cases bss)
    case Nil
    obtain pre where p: "bs_currentFileStream s = \<lparr>bfs_fileNum = bs_currentFileNum s, bfs_currentOffset = int (length pre)\<rparr>"
      "map_get files (bs_currentFileNum s) = Some pre"
      using Cons.prems(1,2) by (cases "bs_currentFileStream s") (auto simp: stream_at_def)
    have "bs_endFileNum s = bs_currentFileNum s" using Cons.prems(1,3) Nil by (simp add: stream_at_def)
    with Cons.prems(3) show ?thesis using bfs_next_end[OF p(2)] p(1)
      by (subst bs_nextBlockBytesAndPlacementInfo.simps) (simp add: Let_def)
  next
    case (Cons bs1 bss1)
    have "bs = []" using Cons.prems(2) by simp
    note m = stream_at_move[OF Cons.prems(1)[unfolded this Cons]]
    show ?thesis using Cons.IH[OF m(2)[folded Cons]] Cons.prems(2,3) m(1) Cons by simp
  qed
qed (simp add: stream_at_def)


text \<open>A stream opened at the position of the \<open>k\<close>-th block delivers the blocks from it on.\<close>

lemma stream_norm:
  assumes "stream_at files s bss" "concat bss \<noteq> []"
  shows "\<exists>s' bss'. stream_at files s' bss' \<and> concat bss' = concat bss \<and> bs_endFileNum s' = bs_endFileNum s
    \<and> stream_pos s' bss' = stream_pos s bss
    \<and> hd (stream_pos s bss) = (bs_currentFileNum s', bfs_currentOffset (bs_currentFileStream s'))"
  using assms
proof (induction bss arbitrary: s)
  case (Cons bs bss)
  show ?case
  proof (cases bs)
    case Nil
    with Cons.prems(2) obtain bs1 bss1 where bss: "bss = bs1 # bss1" by (cases bss) auto
    note m = stream_at_move[OF Cons.prems(1)[unfolded Nil bss]]
    show ?thesis
      using Cons.IH[OF m(2)[folded bss]] Cons.prems(2) m(3)[folded bss] by (force simp: Nil bss)
  next
    case (Cons c cs)
    then show ?thesis using Cons.prems by (intro exI[of _ s] exI[of _ "bs # bss"]) simp
  qed
qed simp

lemma stream_drop:
  assumes "stream_at files s bss" "k \<le> length (concat bss)"
  shows "\<exists>s' bss'. stream_at files s' bss' \<and> concat bss' = drop k (concat bss) \<and> bs_endFileNum s' = bs_endFileNum s
    \<and> stream_pos s' bss' = drop k (stream_pos s bss)"
  using assms(2)
proof (induction k)
  case 0
  then show ?case using assms(1) by auto
next
  case (Suc k)
  then obtain s' bss' where s': "stream_at files s' bss'" "concat bss' = drop k (concat bss)" "bs_endFileNum s' = bs_endFileNum s"
    "stream_pos s' bss' = drop k (stream_pos s bss)" by auto
  have "concat bss' = concat bss ! k # drop (Suc k) (concat bss)" using s'(2) Suc.prems by (simp add: Cons_nth_drop_Suc)
  from bs_next_some[OF s'(1) this] obtain p s2 bss2 where n: "stream_at files s2 bss2" "concat bss2 = drop (Suc k) (concat bss)"
    "bs_endFileNum s2 = bs_endFileNum s'" "stream_pos s' bss' = p # stream_pos s2 bss2" by blast
  have "drop (Suc k) (stream_pos s bss) = tl (drop k (stream_pos s bss))" by (simp add: drop_Suc tl_drop)
  with n(4) s'(4) have "stream_pos s2 bss2 = drop (Suc k) (stream_pos s bss)" by simp
  with n s'(3) show ?case by auto
qed

lemma length_pos_from [simp]: "length (pos_from f off bss) = length (concat bss)"
proof -
  have "length (file_positions f off bs) = length bs" for f off bs
    by (induction bs arbitrary: off) auto
  then show ?thesis by (induction bss arbitrary: f off) auto
qed

definition files_hold :: "blockfiles \<Rightarrow> bytes list list \<Rightarrow> bool" where
  "files_hold files bss \<longleftrightarrow> bss \<noteq> [] \<and> (\<forall>b \<in> set (concat bss). frame_ok b)
     \<and> (\<forall>i < length bss. map_get files (int i) = Some (concat (map frame (bss ! i))))"

lemma stream_begin:
  assumes "files_hold files bss" "endf = int (length bss) - 1 \<or> endf < 0"
  shows "\<exists>s. newBlockStream files 0 0 endf = Inr s \<and> stream_at files s bss \<and> stream_pos s bss = pos_from 0 0 bss
    \<and> bs_endFileNum s = endf"
proof -
  have a: "\<forall>i < length bss. map_get files (int i) = Some (concat (map frame (bss ! i)))" "bss \<noteq> []"
    using assms(1) by (simp_all add: files_hold_def)
  then obtain bs tbss where bss: "bss = bs # tbss" by (cases bss) auto
  have "map_get files 0 = Some (concat (map frame (hd bss)))" using a(1)[rule_format, of 0] by (simp add: bss)
  moreover have "map_get files (1 + int i) = Some (concat (map frame (tl bss ! i)))" if "i < length (tl bss)" for i
    using a(1)[rule_format, of "Suc i"] that by (simp add: bss)
  moreover have "endf = int (length (tl bss)) \<or> endf < 0" using assms(2) bss by auto
  ultimately show ?thesis using assms(1) a(2)
    by (auto simp: newBlockStream_def newBlockfileStream_def file_open_def stream_at_def files_hold_def)
qed

lemma stream_from:
  assumes "files_hold files bss" "k < length (concat bss)" "endf = int (length bss) - 1 \<or> endf < 0"
    "pos_from 0 0 bss ! k = (f, off)"
  shows "\<exists>s bss'. newBlockStream files f off endf = Inr s \<and> stream_at files s bss' \<and> concat bss' = drop k (concat bss)
    \<and> stream_pos s bss' = drop k (pos_from 0 0 bss) \<and> bs_endFileNum s = endf"
proof -
  obtain s0 where s0: "stream_at files s0 bss" "stream_pos s0 bss = pos_from 0 0 bss" "bs_endFileNum s0 = endf"
    using stream_begin[OF assms(1,3)] by auto
  obtain s1 bss1 where s1: "stream_at files s1 bss1" "concat bss1 = drop k (concat bss)" "bs_endFileNum s1 = endf"
    "stream_pos s1 bss1 = drop k (pos_from 0 0 bss)"
    using stream_drop[OF s0(1), of k] assms(2) s0(2,3) by auto
  have "concat bss1 \<noteq> []" using s1(2) assms(2) by simp
  from stream_norm[OF s1(1) this] obtain s2 bss2 where s2: "stream_at files s2 bss2" "concat bss2 = drop k (concat bss)"
    "bs_endFileNum s2 = endf" "stream_pos s2 bss2 = drop k (pos_from 0 0 bss)"
    "hd (drop k (pos_from 0 0 bss)) = (bs_currentFileNum s2, bfs_currentOffset (bs_currentFileStream s2))"
    using s1 by auto
  have "(bs_currentFileNum s2, bfs_currentOffset (bs_currentFileStream s2)) = (f, off)"
    using s2(5) assms(2,4) by (simp add: hd_drop_conv_nth)
  then have "newBlockStream files f off endf = Inr s2"
    using s2(1,3) by (cases s2; cases "bs_currentFileStream s2")
      (auto simp: newBlockStream_def newBlockfileStream_def file_open_def stream_at_def)
  then show ?thesis using s2 by blast
qed

end
