(* ===== verification/Block_Index.thy ===== *)
theory Block_Index
  imports Block_Serialization
begin

text \<open>
  The index of the block files, \<^verbatim>\<open>common/ledger/blkstorage/fsblkstorage/blockindex.go\<close>: where a
  block or a transaction is, by number, hash and transaction identifier, kept in a leveldb
  handle. The main result says what the lookups return after a block has been indexed.
\<close>

section \<open>Pointers into the block files\<close>

record fileLocPointer =
  flp_fileSuffixNum :: int
  flp_offset :: int
  flp_bytesLength :: int

definition newFileLocationPointer :: "int \<Rightarrow> int \<Rightarrow> locPointer \<Rightarrow> fileLocPointer" where
  "newFileLocationPointer fileSuffixNum beginningOffset relativeLP =
     \<lparr>flp_fileSuffixNum = fileSuffixNum, flp_offset = beginningOffset + int (lp_offset relativeLP),
      flp_bytesLength = int (lp_bytesLength relativeLP)\<rparr>"

definition flp_marshal :: "fileLocPointer \<Rightarrow> bytes" where
  "flp_marshal flp = EncodeVarint (word_of_int (flp_fileSuffixNum flp)) @ EncodeVarint (word_of_int (flp_offset flp))
     @ EncodeVarint (word_of_int (flp_bytesLength flp))"

text \<open>The fields read before an error stay; the callers do not look at the error.\<close>

definition flp_unmarshal :: "fileLocPointer \<Rightarrow> bytes \<Rightarrow> fileLocPointer \<times> go_err option" where
  "flp_unmarshal flp b =
     (case buf_DecodeVarint b of
        Inl e \<Rightarrow> (flp, Some e)
      | Inr (i, b1) \<Rightarrow>
          let flp1 = flp\<lparr>flp_fileSuffixNum := sint i\<rparr> in
          (case buf_DecodeVarint b1 of
             Inl e \<Rightarrow> (flp1, Some e)
           | Inr (i, b2) \<Rightarrow>
               let flp2 = flp1\<lparr>flp_offset := sint i\<rparr> in
               (case buf_DecodeVarint b2 of
                  Inl e \<Rightarrow> (flp2, Some e)
                | Inr (i, _) \<Rightarrow> (flp2\<lparr>flp_bytesLength := sint i\<rparr>, None))))"

definition flp_zero :: fileLocPointer where
  "flp_zero = \<lparr>flp_fileSuffixNum = 0, flp_offset = 0, flp_bytesLength = 0\<rparr>"

section \<open>Keys\<close>

definition indexCheckpointKey :: bytes where
  "indexCheckpointKey = string_bytes ''indexCheckpointKey''"

definition constructBlockNumKey :: "uint64 \<Rightarrow> bytes res" where
  "constructBlockNumKey blockNum =
     res_bind (EncodeOrderPreservingVarUint64 blockNum) (\<lambda>b. Inr (byte_of_char (CHR ''n'') # b))"

definition constructBlockHashKey :: "bytes \<Rightarrow> bytes" where
  "constructBlockHashKey blockHash = byte_of_char (CHR ''h'') # blockHash"

definition constructTxIDKey :: "string \<Rightarrow> bytes" where
  "constructTxIDKey txID = byte_of_char (CHR ''t'') # string_bytes txID"

definition constructBlockTxIDKey :: "string \<Rightarrow> bytes" where
  "constructBlockTxIDKey txID = byte_of_char (CHR ''b'') # string_bytes txID"

definition constructTxValidationCodeIDKey :: "string \<Rightarrow> bytes" where
  "constructTxValidationCodeIDKey txID = byte_of_char (CHR ''v'') # string_bytes txID"

definition constructBlockNumTranNumKey :: "uint64 \<Rightarrow> uint64 \<Rightarrow> bytes res" where
  "constructBlockNumTranNumKey blockNum txNum =
     res_bind (EncodeOrderPreservingVarUint64 blockNum) (\<lambda>b.
     res_bind (EncodeOrderPreservingVarUint64 txNum) (\<lambda>t. Inr (byte_of_char (CHR ''a'') # b @ t)))"

definition encodeBlockNum :: "uint64 \<Rightarrow> bytes" where
  "encodeBlockNum blockNum = EncodeVarint blockNum"

definition decodeBlockNum :: "bytes \<Rightarrow> uint64" where
  "decodeBlockNum blockNumBytes = fst (DecodeVarint blockNumBytes)"

section \<open>Indexing a block\<close>

datatype IndexableAttr =
    IndexableAttrBlockNum | IndexableAttrBlockHash | IndexableAttrTxID
  | IndexableAttrBlockNumTranNum | IndexableAttrBlockTxID | IndexableAttrTxValidationCode

record blockIdxInfo =
  bii_blockNum :: uint64
  bii_blockHash :: bytes
  bii_flp :: fileLocPointer
  bii_txOffsets :: "txindexInfo list"
  bii_metadata :: "bytes list"

text \<open>The batch of the update: a put of a value that is not nil never panics, so the batch is
  built by plain insertions.\<close>

fun index_txids :: "fileLocPointer \<Rightarrow> txindexInfo list \<Rightarrow> level_batch \<Rightarrow> level_batch" where
  "index_txids flp [] batch = batch"
| "index_txids flp (txoffset # rest) batch =
     index_txids flp rest (map_put (constructTxIDKey (ti_txID txoffset))
       (Some (flp_marshal (newFileLocationPointer (flp_fileSuffixNum flp) (flp_offset flp) (ti_loc txoffset)))) batch)"

fun index_trans :: "uint64 \<Rightarrow> fileLocPointer \<Rightarrow> nat \<Rightarrow> txindexInfo list \<Rightarrow> level_batch \<Rightarrow> level_batch res" where
  "index_trans blockNum flp i [] batch = Inr batch"
| "index_trans blockNum flp i (txoffset # rest) batch =
     res_bind (constructBlockNumTranNumKey blockNum (word_of_nat i)) (\<lambda>key.
       index_trans blockNum flp (i + 1) rest (map_put key
         (Some (flp_marshal (newFileLocationPointer (flp_fileSuffixNum flp) (flp_offset flp) (ti_loc txoffset)))) batch))"

fun index_block_txids :: "bytes \<Rightarrow> txindexInfo list \<Rightarrow> level_batch \<Rightarrow> level_batch" where
  "index_block_txids flpBytes [] batch = batch"
| "index_block_txids flpBytes (txoffset # rest) batch =
     index_block_txids flpBytes rest (map_put (constructBlockTxIDKey (ti_txID txoffset)) (Some flpBytes) batch)"

fun index_codes :: "TxValidationFlags \<Rightarrow> nat \<Rightarrow> txindexInfo list \<Rightarrow> level_batch \<Rightarrow> level_batch res" where
  "index_codes txsfltr idx [] batch = Inr batch"
| "index_codes txsfltr idx (txoffset # rest) batch =
     res_bind (Flag txsfltr idx) (\<lambda>f.
       index_codes txsfltr (idx + 1) rest
         (map_put (constructTxValidationCodeIDKey (ti_txID txoffset)) (Some [word_of_int f]) batch))"

definition index_batch :: "IndexableAttr list \<Rightarrow> blockIdxInfo \<Rightarrow> level_batch res" where
  "index_batch items info =
     (let flp = bii_flp info; txOffsets = bii_txOffsets info; flpBytes = flp_marshal flp in
      res_bind (index_slice (bii_metadata info) (int BlockMetadataIndex_TRANSACTIONS_FILTER)) (\<lambda>txsfltr.
      let b0 = NewLevelBatch;
          b1 = (if IndexableAttrBlockHash \<in> set items
                then map_put (constructBlockHashKey (bii_blockHash info)) (Some flpBytes) b0 else b0) in
      res_bind (if IndexableAttrBlockNum \<in> set items
                then res_bind (constructBlockNumKey (bii_blockNum info)) (\<lambda>key. Inr (map_put key (Some flpBytes) b1))
                else Inr b1) (\<lambda>b2.
      let b3 = (if IndexableAttrTxID \<in> set items then index_txids flp txOffsets b2 else b2) in
      res_bind (if IndexableAttrBlockNumTranNum \<in> set items
                then index_trans (bii_blockNum info) flp 0 txOffsets b3 else Inr b3) (\<lambda>b4.
      let b5 = (if IndexableAttrBlockTxID \<in> set items then index_block_txids flpBytes txOffsets b4 else b4) in
      res_bind (if IndexableAttrTxValidationCode \<in> set items then index_codes txsfltr 0 txOffsets b5 else Inr b5) (\<lambda>b6.
        Inr (map_put indexCheckpointKey (Some (encodeBlockNum (bii_blockNum info))) b6))))))"

definition indexBlock :: "IndexableAttr list \<Rightarrow> 's kvs \<Rightarrow> 's \<Rightarrow> blockIdxInfo \<Rightarrow> 's \<times> go_err option" where
  "indexBlock items K s info =
     (if items = [] then (s, None)
      else case index_batch items info of
        Inl e \<Rightarrow> (s, Some e)
      | Inr batch \<Rightarrow> kvs_WriteBatch K s batch True)"

section \<open>Lookups\<close>

definition errIndexEmpty :: go_err where
  "errIndexEmpty = GoErr ''NoBlockIndexed''"

definition ErrNotFoundInIndex :: go_err where
  "ErrNotFoundInIndex = GoErr ''Entry not found in index''"

definition ErrAttrNotIndexed :: go_err where
  "ErrAttrNotIndexed = GoErr ''Attribute not indexed''"

definition getLastBlockIndexed :: "'s kvs \<Rightarrow> 's \<Rightarrow> uint64 res" where
  "getLastBlockIndexed K s =
     res_bind (kvs_Get K s indexCheckpointKey) (\<lambda>blockNumBytes.
       case blockNumBytes of None \<Rightarrow> Inl errIndexEmpty | Some b \<Rightarrow> Inr (decodeBlockNum b))"

text \<open>The body the five lookups of a location share.\<close>

definition get_loc :: "IndexableAttr list \<Rightarrow> IndexableAttr \<Rightarrow> 's kvs \<Rightarrow> 's \<Rightarrow> bytes \<Rightarrow> fileLocPointer res" where
  "get_loc items attr K s key =
     (if attr \<notin> set items then Inl ErrAttrNotIndexed
      else res_bind (kvs_Get K s key) (\<lambda>b.
        case b of None \<Rightarrow> Inl ErrNotFoundInIndex | Some x \<Rightarrow> Inr (fst (flp_unmarshal flp_zero x))))"

definition getBlockLocByHash :: "IndexableAttr list \<Rightarrow> 's kvs \<Rightarrow> 's \<Rightarrow> bytes \<Rightarrow> fileLocPointer res" where
  "getBlockLocByHash items K s blockHash = get_loc items IndexableAttrBlockHash K s (constructBlockHashKey blockHash)"

definition getBlockLocByBlockNum :: "IndexableAttr list \<Rightarrow> 's kvs \<Rightarrow> 's \<Rightarrow> uint64 \<Rightarrow> fileLocPointer res" where
  "getBlockLocByBlockNum items K s blockNum =
     (if IndexableAttrBlockNum \<notin> set items then Inl ErrAttrNotIndexed
      else res_bind (constructBlockNumKey blockNum) (get_loc items IndexableAttrBlockNum K s))"

definition getTxLoc :: "IndexableAttr list \<Rightarrow> 's kvs \<Rightarrow> 's \<Rightarrow> string \<Rightarrow> fileLocPointer res" where
  "getTxLoc items K s txID = get_loc items IndexableAttrTxID K s (constructTxIDKey txID)"

definition getBlockLocByTxID :: "IndexableAttr list \<Rightarrow> 's kvs \<Rightarrow> 's \<Rightarrow> string \<Rightarrow> fileLocPointer res" where
  "getBlockLocByTxID items K s txID = get_loc items IndexableAttrBlockTxID K s (constructBlockTxIDKey txID)"

definition getTXLocByBlockNumTranNum :: "IndexableAttr list \<Rightarrow> 's kvs \<Rightarrow> 's \<Rightarrow> uint64 \<Rightarrow> uint64 \<Rightarrow> fileLocPointer res" where
  "getTXLocByBlockNumTranNum items K s blockNum tranNum =
     (if IndexableAttrBlockNumTranNum \<notin> set items then Inl ErrAttrNotIndexed
      else res_bind (constructBlockNumTranNumKey blockNum tranNum) (get_loc items IndexableAttrBlockNumTranNum K s))"

definition getTxValidationCodeByTxID :: "IndexableAttr list \<Rightarrow> 's kvs \<Rightarrow> 's \<Rightarrow> string \<Rightarrow> TxValidationCode res" where
  "getTxValidationCodeByTxID items K s txID =
     (if IndexableAttrTxValidationCode \<notin> set items then Inl ErrAttrNotIndexed
      else res_bind (kvs_Get K s (constructTxValidationCodeIDKey txID)) (\<lambda>raw.
        case raw of
          None \<Rightarrow> Inl ErrNotFoundInIndex
        | Some [r] \<Rightarrow> Inr (uint r)
        | Some _ \<Rightarrow> Inl (GoErr ''Invalid value in indexItems'')))"

section \<open>What the batch of a block holds\<close>

lemma sint_of_int:
  assumes "0 \<le> i" "i < 2 ^ 63"
  shows "sint (word_of_int i :: uint64) = i"
  using sint_of_length[of "nat i"] assms by (simp add: nat_less_iff)

definition flp_small :: "fileLocPointer \<Rightarrow> bool" where
  "flp_small flp \<longleftrightarrow> (\<forall>i \<in> {flp_fileSuffixNum flp, flp_offset flp, flp_bytesLength flp}. 0 \<le> i \<and> i < 2 ^ 63)"

lemma flp_unmarshal_marshal [simp]: "flp_small flp \<Longrightarrow> flp_unmarshal z (flp_marshal flp @ r) = (flp, None)"
  by (cases flp) (simp add: flp_unmarshal_def flp_marshal_def flp_small_def sint_of_int)

lemma flp_unmarshal_marshal_Nil [simp]: "flp_small flp \<Longrightarrow> flp_unmarshal z (flp_marshal flp) = (flp, None)"
  using flp_unmarshal_marshal[of flp z "[]"] by simp

text \<open>The pairs the batch holds, in the order of their insertion.\<close>

definition tx_flp :: "fileLocPointer \<Rightarrow> txindexInfo \<Rightarrow> fileLocPointer" where
  "tx_flp flp t = newFileLocationPointer (flp_fileSuffixNum flp) (flp_offset flp) (ti_loc t)"

definition tran_key :: "uint64 \<Rightarrow> uint64 \<Rightarrow> bytes" where
  "tran_key n i = byte_of_char (CHR ''a'') # opv n @ opv i"

definition num_key :: "uint64 \<Rightarrow> bytes" where
  "num_key n = byte_of_char (CHR ''n'') # opv n"

lemma constructBlockNumKey_eq [simp]: "constructBlockNumKey n = Inr (num_key n)"
  by (simp add: constructBlockNumKey_def num_key_def)

lemma constructBlockNumTranNumKey_eq [simp]: "constructBlockNumTranNumKey n i = Inr (tran_key n i)"
  by (simp add: constructBlockNumTranNumKey_def tran_key_def)

definition index_pairs :: "IndexableAttr list \<Rightarrow> blockIdxInfo \<Rightarrow> TxValidationFlags \<Rightarrow> (bytes \<times> bytes option) list" where
  "index_pairs items info flags =
     (let flp = bii_flp info; offs = bii_txOffsets info; loc = Some (flp_marshal flp);
          on = (\<lambda>a ps. if a \<in> set items then ps else []) in
      on IndexableAttrBlockHash [(constructBlockHashKey (bii_blockHash info), loc)]
      @ on IndexableAttrBlockNum [(num_key (bii_blockNum info), loc)]
      @ on IndexableAttrTxID (map (\<lambda>t. (constructTxIDKey (ti_txID t), Some (flp_marshal (tx_flp flp t)))) offs)
      @ on IndexableAttrBlockNumTranNum
          (map (\<lambda>(i, t). (tran_key (bii_blockNum info) (word_of_nat i), Some (flp_marshal (tx_flp flp t)))) (enumerate 0 offs))
      @ on IndexableAttrBlockTxID (map (\<lambda>t. (constructBlockTxIDKey (ti_txID t), loc)) offs)
      @ on IndexableAttrTxValidationCode
          (map (\<lambda>(i, t). (constructTxValidationCodeIDKey (ti_txID t), Some [flags ! i])) (enumerate 0 offs))
      @ [(indexCheckpointKey, Some (encodeBlockNum (bii_blockNum info)))])"

abbreviation put_pairs :: "('k, 'v) gomap \<Rightarrow> ('k \<times> 'v) list \<Rightarrow> ('k, 'v) gomap" where
  "put_pairs b ps \<equiv> foldl (\<lambda>b (k, v). map_put k v b) b ps"

lemma map_get_put_pairs: "map_get (put_pairs b ps) = map_get b ++ map_of (rev ps)"
  by (induction ps arbitrary: b) (auto simp: update_conv' map_add_def fun_eq_iff split: option.splits)

lemma map_wf_put_pairs: "map_wf b \<Longrightarrow> map_wf (put_pairs b ps)"
  by (induction ps arbitrary: b) auto

lemma index_txids_eq:
  "index_txids flp offs b = put_pairs b (map (\<lambda>t. (constructTxIDKey (ti_txID t), Some (flp_marshal (tx_flp flp t)))) offs)"
  by (induction offs arbitrary: b) (simp_all add: tx_flp_def)

lemma index_block_txids_eq:
  "index_block_txids loc offs b = put_pairs b (map (\<lambda>t. (constructBlockTxIDKey (ti_txID t), Some loc)) offs)"
  by (induction offs arbitrary: b) simp_all

lemma index_trans_eq:
  "index_trans n flp i offs b = Inr (put_pairs b
     (map (\<lambda>(i, t). (tran_key n (word_of_nat i), Some (flp_marshal (tx_flp flp t)))) (enumerate i offs)))"
  by (induction offs arbitrary: b i) (simp_all add: tx_flp_def)

lemma index_codes_eq:
  "i + length offs \<le> length flags \<Longrightarrow> index_codes flags i offs b = Inr (put_pairs b
     (map (\<lambda>(i, t). (constructTxValidationCodeIDKey (ti_txID t), Some [flags ! i])) (enumerate i offs)))"
  by (induction offs arbitrary: b i) (simp_all add: Flag_def index_slice_def)

lemma index_codes_panic:
  "i + length offs > length flags \<Longrightarrow> offs \<noteq> [] \<Longrightarrow> index_codes flags i offs b = Inl (GoPanic ''index out of range'')"
proof (induction offs arbitrary: b i)
  case (Cons t offs)
  show ?case
  proof (cases "offs = [] \<or> \<not> i < length flags")
    case True then show ?thesis using Cons.prems by (auto simp: Flag_def index_slice_def)
  next
    case False then show ?thesis using Cons by (simp add: Flag_def index_slice_def)
  qed
qed simp

text \<open>The metadata has the flags, one for each transaction.\<close>

definition idx_flags :: "blockIdxInfo \<Rightarrow> TxValidationFlags \<Rightarrow> bool" where
  "idx_flags info flags \<longleftrightarrow> BlockMetadataIndex_TRANSACTIONS_FILTER < length (bii_metadata info)
     \<and> flags = bii_metadata info ! BlockMetadataIndex_TRANSACTIONS_FILTER
     \<and> length (bii_txOffsets info) \<le> length flags"

lemma index_batch_eq:
  assumes "idx_flags info flags"
  shows "index_batch items info = Inr (put_pairs NewLevelBatch (index_pairs items info flags))"
proof -
  have "index_slice (bii_metadata info) (int BlockMetadataIndex_TRANSACTIONS_FILTER) = Inr flags"
    "0 + length (bii_txOffsets info) \<le> length flags"
    using assms by (auto simp: idx_flags_def index_slice_def)
  then show ?thesis
    by (simp add: index_batch_def index_pairs_def Let_def index_txids_eq index_block_txids_eq index_trans_eq index_codes_eq)
qed

context kv_store
begin

lemma indexBlock_view:
  assumes "indexBlock items K s info = (s', None)" "items \<noteq> []" "idx_flags info flags"
  shows "kview s' = (\<lambda>k. case map_of (rev (index_pairs items info flags)) k of None \<Rightarrow> kview s k | Some v \<Rightarrow> v)"
proof -
  let ?b = "put_pairs NewLevelBatch (index_pairs items info flags)"
  have "map_wf ?b" by (rule map_wf_put_pairs) (simp add: NewLevelBatch_def)
  moreover have "kvs_WriteBatch K s ?b True = (s', None)"
    using assms by (simp add: indexBlock_def index_batch_eq)
  ultimately have "kview s' = kv_overlay (kview s) ?b" by (rule kvs_WriteBatch)
  then show ?thesis by (simp add: kv_overlay_def map_get_put_pairs NewLevelBatch_def)
qed

end

section \<open>Lookups after a block has been indexed\<close>

definition last_tx :: "txindexInfo list \<Rightarrow> string \<Rightarrow> (nat \<times> txindexInfo) option" where
  "last_tx offs txID = find (\<lambda>(i, t). ti_txID t = txID) (rev (enumerate 0 offs))"

lemmas key_defs = constructBlockHashKey_def constructTxIDKey_def constructBlockTxIDKey_def
  constructTxValidationCodeIDKey_def tran_key_def num_key_def indexCheckpointKey_def

lemma map_of_rev_map_None: "(\<And>x. f x \<noteq> k) \<Longrightarrow> map_of (rev (map (\<lambda>x. (f x, g x)) xs)) k = None"
  unfolding map_of_eq_None_iff by fastforce

lemma map_of_rev_enum_None:
  "(\<And>i x. f i x \<noteq> k) \<Longrightarrow> map_of (rev (map (\<lambda>(i, x). (f i x, g i x)) xs)) k = None"
  unfolding map_of_eq_None_iff by fastforce

lemma map_of_eq_find: "map_of (map (\<lambda>x. (f x, g x)) xs) k = map_option g (find (\<lambda>x. f x = k) xs)"
  by (induction xs) auto

lemma map_of_rev_find:
  "map_of (rev (map (\<lambda>x. (f x, g x)) xs)) k = map_option g (find (\<lambda>x. f x = k) (rev xs))"
  by (simp add: rev_map map_of_eq_find)

lemma enumerate_last_tx:
  assumes "\<And>a b. kf a = kf b \<longleftrightarrow> a = b"
  shows "map_of (rev (map (\<lambda>(i, t). (kf (ti_txID t), g i t)) (enumerate 0 offs))) (kf txID)
    = map_option (\<lambda>(i, t). g i t) (last_tx offs txID)"
  using map_of_rev_find[of "\<lambda>p. kf (ti_txID (snd p))" "\<lambda>(i, t). g i t" "enumerate 0 offs" "kf txID"]
  by (simp add: last_tx_def assms case_prod_unfold)

lemma plain_last_tx:
  assumes "\<And>a b. kf a = kf b \<longleftrightarrow> a = b"
  shows "map_of (rev (map (\<lambda>t. (kf (ti_txID t), g t)) offs)) (kf txID) = map_option (g \<circ> snd) (last_tx offs txID)"
proof -
  have "map (\<lambda>t. (kf (ti_txID t), g t)) offs = map (\<lambda>(i, t). (kf (ti_txID t), g t)) (enumerate 0 offs)"
    by (rule nth_equalityI) (simp_all add: nth_enumerate_eq)
  then show ?thesis using enumerate_last_tx[OF assms, of "\<lambda>i. g"] by (simp add: comp_def case_prod_unfold)
qed

lemma opv_inj: "opv v @ a = opv w @ b \<longleftrightarrow> v = w \<and> a = b"
  by (metis opv_less linorder_neqE order_less_irrefl same_append_eq)

lemma opv_inj' [simp]: "opv v = opv w \<longleftrightarrow> v = w"
  using opv_inj[of v "[]" w "[]"] by simp

lemmas pair_simps = index_pairs_def Let_def map_add_def map_of_rev_map_None map_of_rev_enum_None key_defs string_bytes_def

lemma index_pairs_num:
  "map_of (rev (index_pairs items info flags)) (num_key n)
     = (if IndexableAttrBlockNum \<in> set items \<and> n = bii_blockNum info then Some (Some (flp_marshal (bii_flp info))) else None)"
  by (simp add: pair_simps)


lemma txid_keys_inj:
  "constructTxIDKey a = constructTxIDKey b \<longleftrightarrow> a = b"
  "constructBlockTxIDKey a = constructBlockTxIDKey b \<longleftrightarrow> a = b"
  "constructTxValidationCodeIDKey a = constructTxValidationCodeIDKey b \<longleftrightarrow> a = b"
  by (simp_all add: key_defs)

lemma index_pairs_hash:
  "map_of (rev (index_pairs items info flags)) (constructBlockHashKey h)
     = (if IndexableAttrBlockHash \<in> set items \<and> h = bii_blockHash info then Some (Some (flp_marshal (bii_flp info))) else None)"
  by (simp add: pair_simps)

lemma index_pairs_txid:
  "map_of (rev (index_pairs items info flags)) (constructTxIDKey txID)
     = (if IndexableAttrTxID \<in> set items
        then map_option (\<lambda>(i, t). Some (flp_marshal (tx_flp (bii_flp info) t))) (last_tx (bii_txOffsets info) txID) else None)"
  using plain_last_tx[OF txid_keys_inj(1), of "\<lambda>t. Some (flp_marshal (tx_flp (bii_flp info) t))" "bii_txOffsets info" txID]
  by (simp add: pair_simps comp_def case_prod_unfold split: option.splits)

lemma index_pairs_block_txid:
  "map_of (rev (index_pairs items info flags)) (constructBlockTxIDKey txID)
     = (if IndexableAttrBlockTxID \<in> set items
        then map_option (\<lambda>_. Some (flp_marshal (bii_flp info))) (last_tx (bii_txOffsets info) txID) else None)"
  using plain_last_tx[OF txid_keys_inj(2), of "\<lambda>t. Some (flp_marshal (bii_flp info))" "bii_txOffsets info" txID]
  by (simp add: pair_simps comp_def split: option.splits)

lemma index_pairs_code:
  "map_of (rev (index_pairs items info flags)) (constructTxValidationCodeIDKey txID)
     = (if IndexableAttrTxValidationCode \<in> set items
        then map_option (\<lambda>(i, t). Some [flags ! i]) (last_tx (bii_txOffsets info) txID) else None)"
  using enumerate_last_tx[OF txid_keys_inj(3), of "\<lambda>i t. Some [flags ! i]" "bii_txOffsets info" txID]
  by (simp add: pair_simps split: option.splits)

lemma index_pairs_checkpoint:
  "map_of (rev (index_pairs items info flags)) indexCheckpointKey = Some (Some (encodeBlockNum (bii_blockNum info)))"
  by (simp add: pair_simps)

lemma set_enumerate: "set (enumerate 0 xs) = (\<lambda>i. (i, xs ! i)) ` {..< length xs}"
proof (rule set_eqI)
  show "p \<in> set (enumerate 0 xs) \<longleftrightarrow> p \<in> (\<lambda>i. (i, xs ! i)) ` {..< length xs}" for p
    by (cases p) (auto simp: in_set_enumerate_eq)
qed

lemma tran_pairs:
  assumes "length offs \<le> 2 ^ 64"
  shows "map_of (rev (map (\<lambda>(i, t). (tran_key n (word_of_nat i), g t)) (enumerate 0 offs))) (tran_key m j)
    = (if m = n \<and> unat j < length offs then Some (g (offs ! unat j)) else None)"
proof -
  have d: "unat (word_of_nat i :: uint64) = i" if "i < length offs" for i
    using that assms by (simp add: unat_of_nat)
  then have inj: "tran_key m j = tran_key n (word_of_nat i) \<longleftrightarrow> m = n \<and> unat j = i" if "i < length offs" for i
    using that by (auto simp: tran_key_def opv_inj)
  let ?ps = "map (\<lambda>(i, t). (tran_key n (word_of_nat i), g t)) (enumerate 0 offs)"
  have dist: "distinct (map fst (rev ?ps))"
    unfolding rev_map[symmetric] distinct_rev
    by (auto simp: distinct_conv_nth nth_enumerate_eq tran_key_def opv_inj) (metis d)
  have some: "map_of (rev ?ps) k = Some v \<longleftrightarrow> (\<exists>i < length offs. k = tran_key n (word_of_nat i) \<and> v = g (offs ! i))" for k v
    unfolding map_of_eq_Some_iff[OF dist] by (auto simp: set_enumerate)
  show ?thesis
  proof (cases "m = n \<and> unat j < length offs")
    case True
    then have "map_of (rev ?ps) (tran_key m j) = Some (g (offs ! unat j))" unfolding some by auto
    with True show ?thesis by simp
  next
    case False
    then have "map_of (rev ?ps) (tran_key m j) \<noteq> Some v" for v unfolding some using inj by metis
    with False show ?thesis by auto
  qed
qed

lemma index_pairs_tran:
  assumes "length (bii_txOffsets info) \<le> 2 ^ 64"
  shows "map_of (rev (index_pairs items info flags)) (tran_key m j)
     = (if IndexableAttrBlockNumTranNum \<in> set items \<and> m = bii_blockNum info \<and> unat j < length (bii_txOffsets info)
        then Some (Some (flp_marshal (tx_flp (bii_flp info) (bii_txOffsets info ! unat j)))) else None)"
  using tran_pairs[OF assms, of "bii_blockNum info" "\<lambda>t. Some (flp_marshal (tx_flp (bii_flp info) t))" m j]
  by (auto simp: pair_simps split: option.splits if_splits)


text \<open>The pointers of a block and of its transactions fit into the 64 bits they are stored in.\<close>

definition idx_small :: "blockIdxInfo \<Rightarrow> bool" where
  "idx_small info \<longleftrightarrow> flp_small (bii_flp info) \<and> (\<forall>t \<in> set (bii_txOffsets info). flp_small (tx_flp (bii_flp info) t))
     \<and> length (bii_txOffsets info) \<le> 2 ^ 64"

lemma last_tx_in: "last_tx offs txID = Some (i, t) \<Longrightarrow> i < length offs \<and> offs ! i = t \<and> ti_txID t = txID"
  by (auto simp: last_tx_def find_Some_iff rev_nth nth_enumerate_eq)

lemma last_tx_None: "last_tx offs txID = None \<longleftrightarrow> (\<forall>t \<in> set offs. ti_txID t \<noteq> txID)"
  unfolding last_tx_def find_None_iff set_rev set_enumerate all_set_conv_all_nth by auto

context kv_store_ok
begin

lemma Get_kview: "kvs_Get K s k = Inr (kview s k)"
  using kvs_Get_total[of s k] kvs_Get[of s k] by auto

lemma get_loc_kview:
  "get_loc items attr K s k = (if attr \<notin> set items then Inl ErrAttrNotIndexed
     else case kview s k of None \<Rightarrow> Inl ErrNotFoundInIndex | Some x \<Rightarrow> Inr (fst (flp_unmarshal flp_zero x)))"
  by (simp add: get_loc_def Get_kview)

lemma lookups_after_index:
  assumes i: "indexBlock items K s info = (s', None)" "items \<noteq> []" "idx_flags info flags" and sm: "idx_small info"
  shows "getLastBlockIndexed K s' = Inr (bii_blockNum info)"
    and "getBlockLocByBlockNum items K s' n = (if IndexableAttrBlockNum \<in> set items \<and> n = bii_blockNum info
           then Inr (bii_flp info) else getBlockLocByBlockNum items K s n)"
    and "getBlockLocByHash items K s' h = (if IndexableAttrBlockHash \<in> set items \<and> h = bii_blockHash info
           then Inr (bii_flp info) else getBlockLocByHash items K s h)"
    and "getTXLocByBlockNumTranNum items K s' n j
           = (if IndexableAttrBlockNumTranNum \<in> set items \<and> n = bii_blockNum info \<and> unat j < length (bii_txOffsets info)
              then Inr (tx_flp (bii_flp info) (bii_txOffsets info ! unat j)) else getTXLocByBlockNumTranNum items K s n j)"
    and "IndexableAttrTxID \<in> set items \<Longrightarrow> getTxLoc items K s' txID = (case last_tx (bii_txOffsets info) txID of
           None \<Rightarrow> getTxLoc items K s txID | Some (i, t) \<Rightarrow> Inr (tx_flp (bii_flp info) t))"
    and "IndexableAttrBlockTxID \<in> set items \<Longrightarrow> getBlockLocByTxID items K s' txID = (case last_tx (bii_txOffsets info) txID of
           None \<Rightarrow> getBlockLocByTxID items K s txID | Some _ \<Rightarrow> Inr (bii_flp info))"
    and "IndexableAttrTxValidationCode \<in> set items \<Longrightarrow>
         getTxValidationCodeByTxID items K s' txID = (case last_tx (bii_txOffsets info) txID of
           None \<Rightarrow> getTxValidationCodeByTxID items K s txID | Some (i, t) \<Rightarrow> Inr (uint (flags ! i)))"
proof -
  note v = indexBlock_view[OF i] and s = sm[unfolded idx_small_def]
  show "getLastBlockIndexed K s' = Inr (bii_blockNum info)"
    by (simp add: getLastBlockIndexed_def Get_kview v index_pairs_checkpoint decodeBlockNum_def encodeBlockNum_def
        DecodeVarint_EncodeVarint[of _ "[]", simplified])
  show "getBlockLocByBlockNum items K s' n = (if IndexableAttrBlockNum \<in> set items \<and> n = bii_blockNum info
           then Inr (bii_flp info) else getBlockLocByBlockNum items K s n)"
    using s by (simp add: getBlockLocByBlockNum_def get_loc_kview v index_pairs_num)
  show "getBlockLocByHash items K s' h = (if IndexableAttrBlockHash \<in> set items \<and> h = bii_blockHash info
           then Inr (bii_flp info) else getBlockLocByHash items K s h)"
    using s by (simp add: getBlockLocByHash_def get_loc_kview v index_pairs_hash)
  show "getTXLocByBlockNumTranNum items K s' n j
           = (if IndexableAttrBlockNumTranNum \<in> set items \<and> n = bii_blockNum info \<and> unat j < length (bii_txOffsets info)
              then Inr (tx_flp (bii_flp info) (bii_txOffsets info ! unat j)) else getTXLocByBlockNumTranNum items K s n j)"
    using s by (simp add: getTXLocByBlockNumTranNum_def get_loc_kview v index_pairs_tran)
  show "IndexableAttrTxID \<in> set items \<Longrightarrow> getTxLoc items K s' txID = (case last_tx (bii_txOffsets info) txID of
           None \<Rightarrow> getTxLoc items K s txID | Some (i, t) \<Rightarrow> Inr (tx_flp (bii_flp info) t))"
    using s by (auto simp: getTxLoc_def get_loc_kview v index_pairs_txid dest!: last_tx_in split: option.splits)
  show "IndexableAttrBlockTxID \<in> set items \<Longrightarrow> getBlockLocByTxID items K s' txID = (case last_tx (bii_txOffsets info) txID of
           None \<Rightarrow> getBlockLocByTxID items K s txID | Some _ \<Rightarrow> Inr (bii_flp info))"
    using s by (auto simp: getBlockLocByTxID_def get_loc_kview v index_pairs_block_txid split: option.splits)
  show "IndexableAttrTxValidationCode \<in> set items \<Longrightarrow>
         getTxValidationCodeByTxID items K s' txID = (case last_tx (bii_txOffsets info) txID of
           None \<Rightarrow> getTxValidationCodeByTxID items K s txID | Some (i, t) \<Rightarrow> Inr (uint (flags ! i)))"
    by (auto simp: getTxValidationCodeByTxID_def Get_kview v index_pairs_code split: option.splits)
qed

end

end
