(* ===== verification/Block_Store.thy ===== *)
theory Block_Store
  imports Block_File Block_Index
begin

text \<open>
  The manager of the block files, \<^verbatim>\<open>blockfile_mgr.go\<close>, \<^verbatim>\<open>blockfile_helper.go\<close> and \<^verbatim>\<open>blocks_itr.go\<close>
  of \<^verbatim>\<open>common/ledger/blkstorage/fsblkstorage\<close>: appending a block, the checkpoint, the
  start with its repair of checkpoint, file and index, retrieval, and the blocking
  iterator. The hash of a block header is a parameter, as are the wire formats and the leveldb
  handle. The writes to the block file take a fault that says how much of them happens.
\<close>

section \<open>State\<close>

record checkpointInfo =
  cp_latestFileChunkSuffixNum :: int
  cp_latestFileChunksize :: int
  cp_isChainEmpty :: bool
  cp_lastBlockNumber :: uint64

record BlockchainInfo =
  bci_Height :: uint64
  bci_CurrentBlockHash :: bytes
  bci_PreviousBlockHash :: bytes

record 's blk_env =
  be_C :: tx_codec
  be_K :: "'s kvs"
  be_items :: "IndexableAttr list"
  be_maxBlockfileSize :: int
  be_hash :: "BlockHeader \<Rightarrow> bytes"

record 's blockfileMgr =
  mgr_files :: blockfiles
  mgr_db :: 's
  mgr_cpInfo :: checkpointInfo
  mgr_writer :: int
  mgr_bcInfo :: BlockchainInfo

definition blkMgrInfoKey :: bytes where
  "blkMgrInfoKey = string_bytes ''blkMgrInfo''"

definition cp_marshal :: "checkpointInfo \<Rightarrow> bytes" where
  "cp_marshal i = EncodeVarint (word_of_int (cp_latestFileChunkSuffixNum i))
     @ EncodeVarint (word_of_int (cp_latestFileChunksize i)) @ EncodeVarint (cp_lastBlockNumber i)
     @ EncodeVarint (if cp_isChainEmpty i then 1 else 0)"

definition cp_unmarshal :: "bytes \<Rightarrow> checkpointInfo res" where
  "cp_unmarshal b =
     res_bind (buf_DecodeVarint b) (\<lambda>(suffix, b).
     res_bind (buf_DecodeVarint b) (\<lambda>(chunksize, b).
     res_bind (buf_DecodeVarint b) (\<lambda>(number, b).
     res_bind (buf_DecodeVarint b) (\<lambda>(chainEmptyMarker, b).
       Inr \<lparr>cp_latestFileChunkSuffixNum = sint suffix, cp_latestFileChunksize = sint chunksize,
            cp_isChainEmpty = (chainEmptyMarker = 1), cp_lastBlockNumber = number\<rparr>))))"

definition loadCurrentInfo :: "'s blk_env \<Rightarrow> 's \<Rightarrow> checkpointInfo option res" where
  "loadCurrentInfo E db =
     res_bind (kvs_Get (be_K E) db blkMgrInfoKey) (\<lambda>b.
       case b of None \<Rightarrow> Inr None | Some x \<Rightarrow> res_bind (cp_unmarshal x) (\<lambda>i. Inr (Some i)))"

definition saveCurrentInfo :: "'s blk_env \<Rightarrow> 's \<Rightarrow> checkpointInfo \<Rightarrow> bool \<Rightarrow> 's \<times> go_err option" where
  "saveCurrentInfo E db i sync = kvs_Put (be_K E) db blkMgrInfoKey (cp_marshal i) sync"

section \<open>The checkpoint and the files\<close>

definition retrieveLastFileSuffix :: "blockfiles \<Rightarrow> int" where
  "retrieveLastFileSuffix files =
     foldl (\<lambda>biggestFileNum (fileNum, _). if fileNum > biggestFileNum then fileNum else biggestFileNum) (-1) files"

definition constructCheckpointInfoFromBlockFiles :: "tx_codec \<Rightarrow> blockfiles \<Rightarrow> checkpointInfo res" where
  "constructCheckpointInfoFromBlockFiles C files =
     (let lastFileNum = retrieveLastFileSuffix files in
      if lastFileNum = -1 then
        Inr \<lparr>cp_latestFileChunkSuffixNum = 0, cp_latestFileChunksize = 0, cp_isChainEmpty = True, cp_lastBlockNumber = 0\<rparr>
      else
        res_bind (scanForLastCompleteBlock files lastFileNum 0) (\<lambda>(lastBlockBytes, endOffsetLastBlock, numBlocksInFile).
        res_bind (if numBlocksInFile = 0 \<and> lastFileNum > 0
                  then if map_get files (lastFileNum - 1) = None
                       then Inl (GoPanic ''Error in retrieving file info'')
                       else res_bind (scanForLastCompleteBlock files (lastFileNum - 1) 0) (\<lambda>(b, _, _). Inr b)
                  else Inr lastBlockBytes) (\<lambda>lastBlockBytes.
        res_bind (case lastBlockBytes of
                    None \<Rightarrow> Inr 0
                  | Some b \<Rightarrow> res_bind (deserializeBlock C b) (\<lambda>blk. Inr (blk_Number blk))) (\<lambda>lastBlockNumber.
          Inr \<lparr>cp_latestFileChunkSuffixNum = lastFileNum, cp_latestFileChunksize = endOffsetLastBlock,
               cp_isChainEmpty = (lastFileNum = 0 \<and> numBlocksInFile = 0), cp_lastBlockNumber = lastBlockNumber\<rparr>))))"

definition syncCPInfoFromFS :: "blockfiles \<Rightarrow> checkpointInfo \<Rightarrow> checkpointInfo res" where
  "syncCPInfoFromFS files cpInfo =
     (case map_get files (cp_latestFileChunkSuffixNum cpInfo) of
        None \<Rightarrow> Inr cpInfo
      | Some c \<Rightarrow>
          if int (length c) = cp_latestFileChunksize cpInfo then Inr cpInfo
          else (case scanForLastCompleteBlock files (cp_latestFileChunkSuffixNum cpInfo) (cp_latestFileChunksize cpInfo) of
            Inl _ \<Rightarrow> Inl (GoPanic ''Could not open current file for detecting last block in the file'')
          | Inr (_, endOffsetLastBlock, numBlocks) \<Rightarrow>
              let cp1 = cpInfo\<lparr>cp_latestFileChunksize := endOffsetLastBlock\<rparr> in
              if numBlocks = 0 then Inr cp1
              else
                Inr (cp1\<lparr>cp_lastBlockNumber := (if cp_isChainEmpty cpInfo then word_of_int (numBlocks - 1)
                                               else cp_lastBlockNumber cpInfo + word_of_int numBlocks),
                         cp_isChainEmpty := False\<rparr>)))"

section \<open>The index and the files\<close>

definition shift_offsets :: "nat \<Rightarrow> txindexInfo list \<Rightarrow> txindexInfo list" where
  "shift_offsets n offs = map (\<lambda>t. t\<lparr>ti_loc := (ti_loc t)\<lparr>lp_offset := lp_offset (ti_loc t) + n\<rparr>\<rparr>) offs"

lemma bfs_next_info_progress:
  assumes "bfs_nextBlockBytesAndPlacementInfo files s = Inr (r, s')"
  shows "\<exists>c. map_get files (bfs_fileNum s) = Some c \<and> bfs_fileNum s' = bfs_fileNum s
    \<and> (r \<noteq> None \<longrightarrow> bfs_currentOffset s < bfs_currentOffset s' \<and> bfs_currentOffset s' \<le> int (length c))"
proof (cases r)
  case None
  then show ?thesis using assms
    by (auto simp: bfs_nextBlockBytesAndPlacementInfo_def file_open_def res_bind_eq_Inr Let_def
        split: option.splits if_splits prod.splits)
next
  case (Some p)
  then show ?thesis using bfs_next_progress[of files s "fst p" s'] assms by (simp add: bfs_nextBlockBytes_def)
qed

text \<open>The files that are still ahead of a stream, and the bytes of its file.\<close>

definition files_ahead :: "blockfiles \<Rightarrow> blockStream \<Rightarrow> nat" where
  "files_ahead files s = card {n \<in> fst ` set files. bs_currentFileNum s < n}"

definition bytes_ahead :: "blockfiles \<Rightarrow> blockStream \<Rightarrow> nat" where
  "bytes_ahead files s = nat ((case map_get files (bfs_fileNum (bs_currentFileStream s)) of None \<Rightarrow> 0 | Some c \<Rightarrow> int (length c))
     - bfs_currentOffset (bs_currentFileStream s))"

lemma files_ahead_move:
  assumes "moveToNextBlockfileStream files s = Inr s'"
  shows "files_ahead files s' < files_ahead files s"
proof -
  have m: "bs_currentFileNum s' = bs_currentFileNum s + 1" "bs_currentFileNum s' \<in> fst ` set files"
    using moved_file[OF assms] by metis+
  then have "bs_currentFileNum s' \<in> {n \<in> fst ` set files. bs_currentFileNum s < n}" by simp
  moreover have "bs_currentFileNum s' \<notin> {n \<in> fst ` set files. bs_currentFileNum s' < n}" by simp
  moreover have "{n \<in> fst ` set files. bs_currentFileNum s' < n} \<subseteq> {n \<in> fst ` set files. bs_currentFileNum s < n}"
    using m(1) by auto
  ultimately have "{n \<in> fst ` set files. bs_currentFileNum s' < n} \<subset> {n \<in> fst ` set files. bs_currentFileNum s < n}"
    by blast
  then show ?thesis unfolding files_ahead_def by (rule psubset_card_mono[rotated]) simp
qed

lemma bs_next_progress:
  "bs_nextBlockBytesAndPlacementInfo files s = Inr (Some x, s') \<Longrightarrow>
     files_ahead files s' < files_ahead files s
     \<or> files_ahead files s' = files_ahead files s \<and> bytes_ahead files s' < bytes_ahead files s"
proof (induction files s rule: bs_nextBlockBytesAndPlacementInfo.induct)
  case (1 files s)
  from "1.prems" obtain r st where n: "bfs_nextBlockBytesAndPlacementInfo files (bs_currentFileStream s) = Inr (r, st)"
    by (subst (asm) bs_nextBlockBytesAndPlacementInfo.simps) (auto split: sum.splits)
  let ?s = "s\<lparr>bs_currentFileStream := st\<rparr>"
  show ?case
  proof (cases "r = None \<and> (bs_currentFileNum s < bs_endFileNum s \<or> bs_endFileNum s < 0)")
    case True
    with "1.prems" n obtain s2 where m: "moveToNextBlockfileStream files ?s = Inr s2"
      "bs_nextBlockBytesAndPlacementInfo files s2 = Inr (Some x, s')"
      by (subst (asm) bs_nextBlockBytesAndPlacementInfo.simps) (auto simp: Let_def split: sum.splits)
    have "files_ahead files ?s = files_ahead files s" by (simp add: files_ahead_def)
    with "1.IH"[OF n refl refl True m] files_ahead_move[OF m(1)] show ?thesis by linarith
  next
    case False
    with "1.prems" n have s': "r = Some x" "s' = ?s"
      by (subst (asm) bs_nextBlockBytesAndPlacementInfo.simps, auto simp: Let_def split: if_splits)+
    from bfs_next_info_progress[OF n] show ?thesis by (auto simp: s' files_ahead_def bytes_ahead_def)
  qed
qed

function sync_loop :: "'s blk_env \<Rightarrow> blockfiles \<Rightarrow> blockStream \<Rightarrow> 's \<Rightarrow> 's \<times> go_err option" where
  "sync_loop E files stream db =
     (case bs_nextBlockBytesAndPlacementInfo files stream of
        Inl e \<Rightarrow> (db, Some e)
      | Inr (None, _) \<Rightarrow> (db, None)
      | Inr (Some (blockBytes, placement), stream') \<Rightarrow>
          (case extractSerializedBlockInfo (be_C E) blockBytes of
             Inl e \<Rightarrow> (db, Some e)
           | Inr info \<Rightarrow>
               let numBytesToShift = nat (bpi_blockBytesOffset placement - bpi_blockStartOffset placement);
                   idxInfo = \<lparr>bii_blockNum = bh_Number (sbi_blockHeader info), bii_blockHash = be_hash E (sbi_blockHeader info),
                              bii_flp = \<lparr>flp_fileSuffixNum = bpi_fileNum placement,
                                         flp_offset = bpi_blockStartOffset placement, flp_bytesLength = 0\<rparr>,
                              bii_txOffsets = shift_offsets numBytesToShift (sbi_txOffsets info),
                              bii_metadata = sbi_metadata info\<rparr> in
               (case indexBlock (be_items E) (be_K E) db idxInfo of
                  (db', Some e) \<Rightarrow> (db', Some e)
                | (db', None) \<Rightarrow> sync_loop E files stream' db')))"
  by pat_completeness auto
termination
proof (relation "measures [\<lambda>(E, files, s, db). files_ahead files s, \<lambda>(E, files, s, db). bytes_ahead files s]", goal_cases)
  case (2 E files stream db)
  show ?case using bs_next_progress[of files stream] 2 by simp blast
qed simp

declare sync_loop.simps [simp del]

definition syncIndex :: "'s blk_env \<Rightarrow> blockfiles \<Rightarrow> 's \<Rightarrow> checkpointInfo \<Rightarrow> 's \<times> go_err option" where
  "syncIndex E files db cpInfo =
     (let K = be_K E; endFileNum = cp_latestFileChunkSuffixNum cpInfo;
          build = (\<lambda>startFileNum startOffset skipFirstBlock.
            case newBlockStream files startFileNum startOffset endFileNum of
              Inl e \<Rightarrow> (db, Some e)
            | Inr stream \<Rightarrow>
                if skipFirstBlock then
                  (case bs_nextBlockBytesAndPlacementInfo files stream of
                     Inl e \<Rightarrow> (db, Some e)
                   | Inr (None, _) \<Rightarrow> (db, Some (GoErr ''block bytes should not be nil here''))
                   | Inr (Some _, stream') \<Rightarrow> sync_loop E files stream' db)
                else sync_loop E files stream db) in
      case getLastBlockIndexed K db of
        Inl err \<Rightarrow> if err \<noteq> errIndexEmpty then (db, Some err) else build 0 0 False
      | Inr lastBlockIndexed \<Rightarrow>
          if lastBlockIndexed = cp_lastBlockNumber cpInfo then (db, None)
          else (case getBlockLocByBlockNum (be_items E) K db lastBlockIndexed of
                  Inl e \<Rightarrow> (db, Some e)
                | Inr flp \<Rightarrow> build (flp_fileSuffixNum flp) (flp_offset flp) True))"

section \<open>Retrieval\<close>

definition fetchBlockBytes :: "blockfiles \<Rightarrow> fileLocPointer \<Rightarrow> bytes res" where
  "fetchBlockBytes files lp =
     res_bind (newBlockfileStream files (flp_fileSuffixNum lp) (flp_offset lp)) (\<lambda>stream.
     res_bind (bfs_nextBlockBytes files stream) (\<lambda>(b, _). Inr (case b of None \<Rightarrow> [] | Some x \<Rightarrow> x)))"

definition fetchRawBytes :: "blockfiles \<Rightarrow> fileLocPointer \<Rightarrow> bytes res" where
  "fetchRawBytes files lp = reader_read files (flp_fileSuffixNum lp) (flp_offset lp) (flp_bytesLength lp)"

definition fetchBlock :: "tx_codec \<Rightarrow> blockfiles \<Rightarrow> fileLocPointer \<Rightarrow> Block res" where
  "fetchBlock C files lp = res_bind (fetchBlockBytes files lp) (deserializeBlock C)"

definition fetchTransactionEnvelope :: "tx_codec \<Rightarrow> blockfiles \<Rightarrow> fileLocPointer \<Rightarrow> Envelope res" where
  "fetchTransactionEnvelope C files lp =
     res_bind (fetchRawBytes files lp) (\<lambda>txEnvelopeBytes.
       GetEnvelopeFromBlock C (drop (snd (DecodeVarint txEnvelopeBytes)) txEnvelopeBytes))"

definition retrieveBlockHeaderByNumber :: "'s blk_env \<Rightarrow> blockfiles \<Rightarrow> 's \<Rightarrow> uint64 \<Rightarrow> BlockHeader res" where
  "retrieveBlockHeaderByNumber E files db blockNum =
     res_bind (getBlockLocByBlockNum (be_items E) (be_K E) db blockNum) (\<lambda>loc.
     res_bind (fetchBlockBytes files loc) (\<lambda>blockBytes.
     res_bind (extractSerializedBlockInfo (be_C E) blockBytes) (\<lambda>info. Inr (sbi_blockHeader info))))"

definition retrieveBlockByHash :: "'s blk_env \<Rightarrow> 's blockfileMgr \<Rightarrow> bytes \<Rightarrow> Block res" where
  "retrieveBlockByHash E m blockHash =
     res_bind (getBlockLocByHash (be_items E) (be_K E) (mgr_db m) blockHash) (fetchBlock (be_C E) (mgr_files m))"

abbreviation MaxUint64 :: uint64 where
  "MaxUint64 \<equiv> 0xFFFFFFFFFFFFFFFF"

definition retrieveBlockByNumber :: "'s blk_env \<Rightarrow> 's blockfileMgr \<Rightarrow> uint64 \<Rightarrow> Block res" where
  "retrieveBlockByNumber E m blockNum =
     (let n = (if blockNum = MaxUint64 then bci_Height (mgr_bcInfo m) - 1 else blockNum) in
      res_bind (getBlockLocByBlockNum (be_items E) (be_K E) (mgr_db m) n) (fetchBlock (be_C E) (mgr_files m)))"

definition retrieveBlockByTxID :: "'s blk_env \<Rightarrow> 's blockfileMgr \<Rightarrow> string \<Rightarrow> Block res" where
  "retrieveBlockByTxID E m txID =
     res_bind (getBlockLocByTxID (be_items E) (be_K E) (mgr_db m) txID) (fetchBlock (be_C E) (mgr_files m))"

definition retrieveTxValidationCodeByTxID :: "'s blk_env \<Rightarrow> 's blockfileMgr \<Rightarrow> string \<Rightarrow> TxValidationCode res" where
  "retrieveTxValidationCodeByTxID E m txID = getTxValidationCodeByTxID (be_items E) (be_K E) (mgr_db m) txID"

definition retrieveTransactionByID :: "'s blk_env \<Rightarrow> 's blockfileMgr \<Rightarrow> string \<Rightarrow> Envelope res" where
  "retrieveTransactionByID E m txID =
     res_bind (getTxLoc (be_items E) (be_K E) (mgr_db m) txID) (fetchTransactionEnvelope (be_C E) (mgr_files m))"

definition retrieveTransactionByBlockNumTranNum :: "'s blk_env \<Rightarrow> 's blockfileMgr \<Rightarrow> uint64 \<Rightarrow> uint64 \<Rightarrow> Envelope res" where
  "retrieveTransactionByBlockNumTranNum E m blockNum tranNum =
     res_bind (getTXLocByBlockNumTranNum (be_items E) (be_K E) (mgr_db m) blockNum tranNum)
       (fetchTransactionEnvelope (be_C E) (mgr_files m))"

section \<open>Start\<close>

text \<open>The error of \<^verbatim>\<open>syncIndex\<close> is not looked at; a panic of it is one of the start.\<close>

definition newBlockfileMgr :: "'s blk_env \<Rightarrow> blockfiles \<Rightarrow> 's \<Rightarrow> 's blockfileMgr res" where
  "newBlockfileMgr E files db =
     (case loadCurrentInfo E db of
        Inl _ \<Rightarrow> Inl (GoPanic ''Could not get block file info for current block file from db'')
      | Inr loaded \<Rightarrow>
     (case (case loaded of
              None \<Rightarrow> constructCheckpointInfoFromBlockFiles (be_C E) files
            | Some cp \<Rightarrow> syncCPInfoFromFS files cp) of
        Inl _ \<Rightarrow> Inl (GoPanic ''Could not build checkpoint info from block files'')
      | Inr cpInfo \<Rightarrow>
     (case saveCurrentInfo E db cpInfo True of
        (_, Some _) \<Rightarrow> Inl (GoPanic ''Could not save next block file info to db'')
      | (db1, None) \<Rightarrow>
          let suffix = cp_latestFileChunkSuffixNum cpInfo;
              files1 = newBlockfileWriter files suffix;
              files2 = truncateFile files1 suffix (cp_latestFileChunksize cpInfo);
              mgr = (\<lambda>db bc. \<lparr>mgr_files = files2, mgr_db = db, mgr_cpInfo = cpInfo, mgr_writer = suffix, mgr_bcInfo = bc\<rparr>) in
          if cp_isChainEmpty cpInfo then
            Inr (mgr db1 \<lparr>bci_Height = 0, bci_CurrentBlockHash = [], bci_PreviousBlockHash = []\<rparr>)
          else (case syncIndex E files2 db1 cpInfo of
            (_, Some (GoPanic p)) \<Rightarrow> Inl (GoPanic p)
          | (db2, _) \<Rightarrow>
              (case retrieveBlockHeaderByNumber E files2 db2 (cp_lastBlockNumber cpInfo) of
                 Inl _ \<Rightarrow> Inl (GoPanic ''Could not retrieve header of the last block form file'')
               | Inr h \<Rightarrow> Inr (mgr db2 \<lparr>bci_Height = cp_lastBlockNumber cpInfo + 1, bci_CurrentBlockHash = be_hash E h,
                                         bci_PreviousBlockHash = bh_PreviousHash h\<rparr>))))))"

section \<open>Appending a block\<close>

definition moveToNextFile :: "'s blk_env \<Rightarrow> 's blockfileMgr \<Rightarrow> 's blockfileMgr res" where
  "moveToNextFile E m =
     (let old = mgr_cpInfo m;
          cpInfo = \<lparr>cp_latestFileChunkSuffixNum = cp_latestFileChunkSuffixNum old + 1, cp_latestFileChunksize = 0,
                    cp_isChainEmpty = False, cp_lastBlockNumber = cp_lastBlockNumber old\<rparr>;
          files' = newBlockfileWriter (mgr_files m) (cp_latestFileChunkSuffixNum cpInfo) in
      case saveCurrentInfo E (mgr_db m) cpInfo True of
        (_, Some _) \<Rightarrow> Inl (GoPanic ''Could not save next block file info to db'')
      | (db', None) \<Rightarrow> Inr (m\<lparr>mgr_files := files', mgr_db := db', mgr_writer := cp_latestFileChunkSuffixNum cpInfo,
                               mgr_cpInfo := cpInfo\<rparr>))"

definition updateBlockchainInfo :: "BlockchainInfo \<Rightarrow> bytes \<Rightarrow> Block \<Rightarrow> BlockchainInfo" where
  "updateBlockchainInfo currentBCInfo latestBlockHash latestBlock =
     \<lparr>bci_Height = bci_Height currentBCInfo + 1, bci_CurrentBlockHash = latestBlockHash,
      bci_PreviousBlockHash = blk_PreviousHash latestBlock\<rparr>"

text \<open>The two appends, the length first.\<close>

definition append_frame :: "blockfiles \<Rightarrow> int \<Rightarrow> bytes \<Rightarrow> bytes \<Rightarrow> write_fault \<Rightarrow> write_fault \<Rightarrow> blockfiles \<times> go_err option" where
  "append_frame files fileNum blockBytesEncodedLen blockBytes f1 f2 =
     (case writer_append files fileNum blockBytesEncodedLen f1 of
        (files1, Some e) \<Rightarrow> (files1, Some e)
      | (files1, None) \<Rightarrow> writer_append files1 fileNum blockBytes f2)"

definition addBlock_append ::
  "'s blk_env \<Rightarrow> 's blockfileMgr \<Rightarrow> Block \<Rightarrow> bytes \<Rightarrow> serializedBlockInfo \<Rightarrow> int \<Rightarrow> write_fault \<Rightarrow> write_fault
    \<Rightarrow> 's blockfileMgr \<times> go_err option" where
  "addBlock_append E m block blockBytes info currentOffset f1 f2 =
     (let blockHash = be_hash E (block_header block);
          blockBytesEncodedLen = EncodeVarint (word_of_nat (length blockBytes));
          totalBytesToAppend = int (length blockBytes) + int (length blockBytesEncodedLen);
          currentCPInfo = mgr_cpInfo m in
     case append_frame (mgr_files m) (mgr_writer m) blockBytesEncodedLen blockBytes f1 f2 of
        (files1, Some e) \<Rightarrow>
          (m\<lparr>mgr_files := truncateFile files1 (mgr_writer m) (cp_latestFileChunksize currentCPInfo)\<rparr>,
           Some (GoErr ''Error while appending block to file''))
      | (files1, None) \<Rightarrow>
     let newCPInfo = \<lparr>cp_latestFileChunkSuffixNum = cp_latestFileChunkSuffixNum currentCPInfo,
                      cp_latestFileChunksize = cp_latestFileChunksize currentCPInfo + totalBytesToAppend,
                      cp_isChainEmpty = False, cp_lastBlockNumber = blk_Number block\<rparr> in
     (case saveCurrentInfo E (mgr_db m) newCPInfo False of
        (db1, Some e) \<Rightarrow>
          (m\<lparr>mgr_files := truncateFile files1 (mgr_writer m) (cp_latestFileChunksize currentCPInfo), mgr_db := db1\<rparr>,
           Some (GoErr ''Error while saving current file info to db''))
      | (db1, None) \<Rightarrow>
     let blockFLP = \<lparr>flp_fileSuffixNum = cp_latestFileChunkSuffixNum newCPInfo, flp_offset = currentOffset, flp_bytesLength = 0\<rparr>;
         idxInfo = \<lparr>bii_blockNum = blk_Number block, bii_blockHash = blockHash, bii_flp = blockFLP,
                    bii_txOffsets = shift_offsets (length blockBytesEncodedLen) (sbi_txOffsets info),
                    bii_metadata = blk_Metadata block\<rparr> in
     (case indexBlock (be_items E) (be_K E) db1 idxInfo of
        (db2, Some (GoPanic p)) \<Rightarrow> (m\<lparr>mgr_files := files1, mgr_db := db2\<rparr>, Some (GoPanic p))
      | (db2, _) \<Rightarrow>
          (m\<lparr>mgr_files := files1, mgr_db := db2, mgr_cpInfo := newCPInfo,
             mgr_bcInfo := updateBlockchainInfo (mgr_bcInfo m) blockHash block\<rparr>, None))))"

definition needs_next_file :: "'s blk_env \<Rightarrow> 's blockfileMgr \<Rightarrow> bytes \<Rightarrow> bool" where
  "needs_next_file E m blockBytes \<longleftrightarrow>
     cp_latestFileChunksize (mgr_cpInfo m)
       + (int (length blockBytes) + int (length (EncodeVarint (word_of_nat (length blockBytes))))) > be_maxBlockfileSize E"

definition addBlock :: "'s blk_env \<Rightarrow> 's blockfileMgr \<Rightarrow> Block \<Rightarrow> write_fault \<Rightarrow> write_fault \<Rightarrow> 's blockfileMgr \<times> go_err option" where
  "addBlock E m block f1 f2 =
     (if blk_Number block \<noteq> bci_Height (mgr_bcInfo m) then (m, Some (GoErr ''Block number should have been the height''))
      else case serializeBlock (be_C E) block of
        Inl (GoErr e) \<Rightarrow> (m, Some (GoErr (''Error while serializing block: '' @ e)))
      | Inl p \<Rightarrow> (m, Some p)
      | Inr (blockBytes, info) \<Rightarrow>
          if needs_next_file E m blockBytes then
            (case moveToNextFile E m of
               Inl p \<Rightarrow> (m, Some p)
             | Inr m1 \<Rightarrow> addBlock_append E m1 block blockBytes info 0 f1 f2)
          else addBlock_append E m block blockBytes info (cp_latestFileChunksize (mgr_cpInfo m)) f1 f2)"

end
