(* ===== verification/Block_Recovery.thy ===== *)
theory Block_Recovery
  imports Block_Store
begin

text \<open>
  The invariant of the block store and what it gives. A layout lists the blocks of each block
  file; \<open>store_inv\<close> says that files, checkpoint, index and blockchain information
  agree with a layout. Appending preserves the invariant, retrieval reads the chain, and a start
  after a crash at any point of an append restores it.
\<close>

section \<open>Blocks and layouts\<close>

definition ser :: "tx_codec \<Rightarrow> Block \<Rightarrow> bytes" where
  "ser C b = fst (projr (serializeBlock C b))"

definition ser_info :: "tx_codec \<Rightarrow> Block \<Rightarrow> serializedBlockInfo" where
  "ser_info C b = snd (projr (serializeBlock C b))"

definition blk_flags :: "Block \<Rightarrow> TxValidationFlags" where
  "blk_flags b = blk_Metadata b ! BlockMetadataIndex_TRANSACTIONS_FILTER"

text \<open>A block the store can take: it serializes, its metadata have a flag for each transaction,
  and no transaction has the identifier whose index key is the key of the checkpoint.\<close>

definition blk_ok :: "tx_codec \<Rightarrow> Block \<Rightarrow> bool" where
  "blk_ok C b \<longleftrightarrow> serializeBlock C b = Inr (ser C b, ser_info C b) \<and> block_small b \<and> frame_ok (ser C b)
     \<and> BlockMetadataIndex_TRANSACTIONS_FILTER < length (blk_Metadata b) \<and> length (blk_Data b) \<le> length (blk_flags b)
     \<and> (\<forall>t \<in> set (sbi_txOffsets (ser_info C b)). ti_txID t \<noteq> ''lkMgrInfo'')"

definition chain_ok :: "tx_codec \<Rightarrow> Block list \<Rightarrow> bool" where
  "chain_ok C bl \<longleftrightarrow> length bl < 2 ^ 64 \<and> (\<forall>k < length bl. blk_ok C (bl ! k) \<and> blk_Number (bl ! k) = word_of_nat k)"

abbreviation sers :: "tx_codec \<Rightarrow> Block list list \<Rightarrow> bytes list list" where
  "sers C L \<equiv> map (map (ser C)) L"

abbreviation chunk :: "tx_codec \<Rightarrow> Block list \<Rightarrow> bytes" where
  "chunk C bl \<equiv> concat (map (frame \<circ> ser C) bl)"

definition layout_small :: "tx_codec \<Rightarrow> Block list list \<Rightarrow> bool" where
  "layout_small C L \<longleftrightarrow> length L < 2 ^ 63 \<and> (\<forall>bl \<in> set L. length (chunk C bl) < 2 ^ 63)"

section \<open>What the index holds\<close>

definition blk_info :: "'s blk_env \<Rightarrow> Block \<Rightarrow> int \<times> int \<Rightarrow> blockIdxInfo" where
  "blk_info E b p = (let bs = ser (be_C E) b in
     \<lparr>bii_blockNum = blk_Number b, bii_blockHash = be_hash E (block_header b),
      bii_flp = \<lparr>flp_fileSuffixNum = fst p, flp_offset = snd p, flp_bytesLength = 0\<rparr>,
      bii_txOffsets = shift_offsets (length (frame bs) - length bs) (sbi_txOffsets (ser_info (be_C E) b)),
      bii_metadata = blk_Metadata b\<rparr>)"

definition infos :: "'s blk_env \<Rightarrow> Block list list \<Rightarrow> blockIdxInfo list" where
  "infos E L = map2 (blk_info E) (concat L) (pos_from 0 0 (sers (be_C E) L))"

definition info_pairs :: "IndexableAttr list \<Rightarrow> blockIdxInfo \<Rightarrow> (bytes \<times> bytes option) list" where
  "info_pairs items info = index_pairs items info (bii_metadata info ! BlockMetadataIndex_TRANSACTIONS_FILTER)"

definition idx_view :: "IndexableAttr list \<Rightarrow> blockIdxInfo list \<Rightarrow> bytes \<rightharpoonup> bytes" where
  "idx_view items is = (\<lambda>k. case map_of (rev (concat (map (info_pairs items) is))) k of None \<Rightarrow> None | Some v \<Rightarrow> v)"

definition idx_ok :: "IndexableAttr list \<Rightarrow> blockIdxInfo list \<Rightarrow> (bytes \<rightharpoonup> bytes) \<Rightarrow> bool" where
  "idx_ok items is v \<longleftrightarrow> (\<forall>k. k \<noteq> blkMgrInfoKey \<longrightarrow> v k = idx_view items is k)"

lemma length_infos [simp]: "length (infos E L) = length (concat L)"
  by (simp add: infos_def flip: map_concat)

lemma nth_infos:
  "k < length (concat L) \<Longrightarrow> infos E L ! k = blk_info E (concat L ! k) (pos_from 0 0 (sers (be_C E) L) ! k)"
  by (simp add: infos_def flip: map_concat)

lemma sers_concat: "concat (sers C L) = map (ser C) (concat L)"
  by (simp add: map_concat)

lemma idx_view_snoc:
  "idx_view items (is @ [i]) k = (case map_of (rev (info_pairs items i)) k of None \<Rightarrow> idx_view items is k | Some v \<Rightarrow> v)"
  by (simp add: idx_view_def map_add_def split: option.splits)

text \<open>Positions of frames in the files.\<close>

lemma file_positions_bounds:
  "p \<in> set (file_positions f off bs) \<Longrightarrow>
     fst p = f \<and> off \<le> snd p \<and> snd p \<le> off + int (length (concat (map frame bs)))"
  by (induction bs arbitrary: off) force+

lemma pos_from_bounds:
  "p \<in> set (pos_from f 0 bss) \<Longrightarrow>
     f \<le> fst p \<and> fst p < f + int (length bss) \<and> 0 \<le> snd p
     \<and> (\<exists>bs \<in> set bss. snd p \<le> int (length (concat (map frame bs))))"
proof (induction bss arbitrary: f)
  case (Cons bs bss)
  from Cons.prems consider "p \<in> set (file_positions f 0 bs)" | "p \<in> set (pos_from (f + 1) 0 bss)" by auto
  then show ?case
  proof cases
    case 1 then show ?thesis using file_positions_bounds[OF 1] by auto
  next
    case 2 then show ?thesis using Cons.IH[OF 2] by auto
  qed
qed simp

text \<open>The content of the file around a frame.\<close>

lemma file_positions_split:
  "k < length bs \<Longrightarrow> file_positions f off bs ! k = (f, off + int (length (concat (map frame (take k bs)))))"
  by (induction bs arbitrary: off k) (auto simp: nth_Cons split: nat.splits)

lemma length_file_positions [simp]: "length (file_positions f off bs) = length bs"
  by (induction bs arbitrary: off) auto

lemma pos_from_split:
  assumes "k < length (concat bss)"
  shows "\<exists>i j. i < length bss \<and> j < length (bss ! i) \<and> bss ! i ! j = concat bss ! k
    \<and> pos_from f 0 bss ! k = (f + int i, int (length (concat (map frame (take j (bss ! i))))))"
  using assms
proof (induction bss arbitrary: f k)
  case (Cons bs bss)
  show ?case
  proof (cases "k < length bs")
    case True
    then show ?thesis using file_positions_split[OF True, of f 0]
      by (intro exI[of _ 0] exI[of _ k]) (simp add: nth_append)
  next
    case False
    with Cons.prems have "k - length bs < length (concat bss)" by simp
    from Cons.IH[OF this, of "f + 1"] obtain i j where ij: "i < length bss" "j < length (bss ! i)"
      "bss ! i ! j = concat bss ! (k - length bs)"
      "pos_from (f + 1) 0 bss ! (k - length bs) = (f + 1 + int i, int (length (concat (map frame (take j (bss ! i))))))"
      by blast
    then show ?thesis using False by (intro exI[of _ "Suc i"] exI[of _ j]) (simp add: nth_append)
  qed
qed simp

lemma frames_split: "xs = a @ b # c \<Longrightarrow> concat (map frame xs) = concat (map frame a) @ frame b @ concat (map frame c)"
  by simp

lemma files_hold_at:
  assumes h: "files_hold files bss" and k: "k < length (concat bss)"
  shows "\<exists>f pre post. pos_from 0 0 bss ! k = (f, int (length pre)) \<and> map_get files f = Some (pre @ frame (concat bss ! k) @ post)"
proof -
  obtain i j where ij: "i < length bss" "j < length (bss ! i)" "bss ! i ! j = concat bss ! k"
    "pos_from 0 0 bss ! k = (0 + int i, int (length (concat (map frame (take j (bss ! i))))))"
    using pos_from_split[OF k] by blast
  have "bss ! i = take j (bss ! i) @ concat bss ! k # drop (Suc j) (bss ! i)" by (rule id_take_nth_drop[OF ij(2), unfolded ij(3)])
  then have "concat (map frame (bss ! i)) = concat (map frame (take j (bss ! i))) @ frame (concat bss ! k)
      @ concat (map frame (drop (Suc j) (bss ! i)))" by (rule frames_split)
  moreover have "map_get files (int i) = Some (concat (map frame (bss ! i)))" using h ij(1) by (simp add: files_hold_def)
  ultimately show ?thesis using ij(4) by auto
qed


lemma blk_okD:
  assumes "blk_ok C b"
  shows "serializeBlock C b = Inr (ser C b, ser_info C b)" "block_small b" "frame_ok (ser C b)"
    "deserializeBlock C (ser C b) = Inr b" "extractSerializedBlockInfo C (ser C b) = Inr (ser_info C b)"
    "sbi_blockHeader (ser_info C b) = block_header b" "sbi_metadata (ser_info C b) = blk_Metadata b"
    "length (sbi_txOffsets (ser_info C b)) = length (blk_Data b)"
proof -
  show s: "serializeBlock C b = Inr (ser C b, ser_info C b)" "block_small b" "frame_ok (ser C b)"
    using assms by (simp_all add: blk_ok_def)
  show "deserializeBlock C (ser C b) = Inr b" "extractSerializedBlockInfo C (ser C b) = Inr (ser_info C b)"
    using deserialize_serializeBlock[OF s(1,2)] by simp_all
  show "sbi_blockHeader (ser_info C b) = block_header b" "sbi_metadata (ser_info C b) = blk_Metadata b"
    "length (sbi_txOffsets (ser_info C b)) = length (blk_Data b)"
    by (rule serializeBlock_parts[OF s(1,2)]; simp)+
qed

lemma blk_tx_at:
  assumes b: "blk_ok C b" and i: "i < length (blk_Data b)"
  defines "t \<equiv> sbi_txOffsets (ser_info C b) ! i"
  shows "take (lp_bytesLength (ti_loc t)) (drop (lp_offset (ti_loc t)) (ser C b)) = EncodeRawBytes (blk_Data b ! i)"
    "extractTxID C (blk_Data b ! i) = Inr (ti_txID t)"
    "lp_bytesLength (ti_loc t) = length (EncodeRawBytes (blk_Data b ! i))"
    "lp_offset (ti_loc t) + lp_bytesLength (ti_loc t) \<le> length (ser C b)"
proof -
  show a: "take (lp_bytesLength (ti_loc t)) (drop (lp_offset (ti_loc t)) (ser C b)) = EncodeRawBytes (blk_Data b ! i)"
    "extractTxID C (blk_Data b ! i) = Inr (ti_txID t)"
    "lp_bytesLength (ti_loc t) = length (EncodeRawBytes (blk_Data b ! i))"
    by (rule serializeBlock_parts[OF blk_okD(1,2)[OF b]]; use i in \<open>simp add: t_def\<close>)+
  have "0 < lp_bytesLength (ti_loc t)" by (simp add: a(3) EncodeRawBytes_def)
  moreover have "length (take (lp_bytesLength (ti_loc t)) (drop (lp_offset (ti_loc t)) (ser C b))) = lp_bytesLength (ti_loc t)"
    unfolding a(1) by (simp only: a(3))
  ultimately show "lp_offset (ti_loc t) + lp_bytesLength (ti_loc t) \<le> length (ser C b)" by auto
qed

lemma blk_info_simps [simp]:
  "bii_blockNum (blk_info E b p) = blk_Number b" "bii_blockHash (blk_info E b p) = be_hash E (block_header b)"
  "bii_flp (blk_info E b p) = \<lparr>flp_fileSuffixNum = fst p, flp_offset = snd p, flp_bytesLength = 0\<rparr>"
  "bii_metadata (blk_info E b p) = blk_Metadata b"
  by (simp_all add: blk_info_def Let_def)

lemma blk_info_flags: "blk_ok (be_C E) b \<Longrightarrow> idx_flags (blk_info E b p) (blk_flags b)"
  by (simp add: idx_flags_def blk_info_def Let_def blk_flags_def shift_offsets_def blk_ok_def blk_okD(8))

lemma blk_info_tx:
  assumes "blk_ok (be_C E) b" "i < length (blk_Data b)"
  shows "tx_flp (bii_flp (blk_info E b p)) (bii_txOffsets (blk_info E b p) ! i)
    = \<lparr>flp_fileSuffixNum = fst p,
       flp_offset = snd p + int (length (frame (ser (be_C E) b)) - length (ser (be_C E) b)
          + lp_offset (ti_loc (sbi_txOffsets (ser_info (be_C E) b) ! i))),
       flp_bytesLength = int (length (EncodeRawBytes (blk_Data b ! i)))\<rparr>"
  using assms blk_tx_at(3)[OF assms]
  by (simp add: tx_flp_def newFileLocationPointer_def blk_info_def Let_def shift_offsets_def blk_okD(8))

lemma blk_info_small:
  assumes b: "blk_ok (be_C E) b" and p: "0 \<le> fst p" "fst p < 2 ^ 63" "0 \<le> snd p"
    "snd p + int (length (frame (ser (be_C E) b))) < 2 ^ 63"
  shows "idx_small (blk_info E b p)"
proof -
  have "flp_small (tx_flp (bii_flp (blk_info E b p)) (bii_txOffsets (blk_info E b p) ! i))" if "i < length (blk_Data b)" for i
  proof -
    let ?t = "ti_loc (sbi_txOffsets (ser_info (be_C E) b) ! i)"
    have "lp_offset ?t + length (EncodeRawBytes (blk_Data b ! i)) \<le> length (ser (be_C E) b)"
      using blk_tx_at(3,4)[OF b that] by simp
    then show ?thesis unfolding blk_info_tx[OF b that] using p by (simp add: flp_small_def frame_def)
  qed
  moreover have l: "length (bii_txOffsets (blk_info E b p)) = length (blk_Data b)"
    by (simp add: blk_info_def Let_def shift_offsets_def blk_okD(8)[OF b])
  ultimately have "\<forall>t \<in> set (bii_txOffsets (blk_info E b p)). flp_small (tx_flp (bii_flp (blk_info E b p)) t)"
    by (simp add: all_set_conv_all_nth)
  moreover have "length (blk_Data b) \<le> 2 ^ 64" using blk_okD(2)[OF b] by (simp add: block_small_def)
  moreover have "flp_small (bii_flp (blk_info E b p))" using p by (simp add: flp_small_def)
  ultimately show ?thesis by (simp add: idx_small_def l)
qed

lemma chunk_sers: "concat (map frame (map (ser C) bl)) = chunk C bl"
  by (simp add: comp_def)

lemma chunk_part:
  assumes "k < length (concat L)"
  shows "\<exists>i bl n. i < length L \<and> bl \<in> set L \<and> pos_from 0 0 (sers C L) ! k = (int i, int n)
    \<and> n + length (frame (ser C (concat L ! k))) \<le> length (chunk C bl)"
proof -
  let ?S = "sers C L"
  have k: "k < length (concat ?S)" "concat ?S ! k = ser C (concat L ! k)" using assms by (simp_all add: sers_concat)
  obtain i j where ij: "i < length ?S" "j < length (?S ! i)" "?S ! i ! j = concat ?S ! k"
    "pos_from 0 0 ?S ! k = (0 + int i, int (length (concat (map frame (take j (?S ! i))))))"
    using pos_from_split[OF k(1)] by blast
  have "?S ! i = take j (?S ! i) @ concat ?S ! k # drop (Suc j) (?S ! i)"
    by (rule id_take_nth_drop[OF ij(2), unfolded ij(3)])
  then have e: "concat (map frame (?S ! i)) = concat (map frame (take j (?S ! i))) @ frame (concat ?S ! k)
      @ concat (map frame (drop (Suc j) (?S ! i)))" by (rule frames_split)
  have "concat (map frame (?S ! i)) = chunk C (L ! i)" using ij(1) by (simp add: chunk_sers)
  then have "length (concat (map frame (take j (?S ! i)))) + length (frame (concat ?S ! k)) \<le> length (chunk C (L ! i))"
    using arg_cong[OF e, of length] by (simp only: length_append)
  then show ?thesis using ij(1,4) unfolding k(2)
    by (intro exI[of _ i] exI[of _ "L ! i"] exI[of _ "length (concat (map frame (take j (?S ! i))))"]) simp
qed

lemma infos_small:
  assumes "chain_ok (be_C E) (concat L)" "layout_small (be_C E) L" "k < length (concat L)"
  shows "idx_small (infos E L ! k)" "idx_flags (infos E L ! k) (blk_flags (concat L ! k))"
proof -
  have b: "blk_ok (be_C E) (concat L ! k)" using assms(1,3) by (simp add: chain_ok_def)
  obtain i bl n where p: "i < length L" "bl \<in> set L" "pos_from 0 0 (sers (be_C E) L) ! k = (int i, int n)"
    "n + length (frame (ser (be_C E) (concat L ! k))) \<le> length (chunk (be_C E) bl)"
    using chunk_part[OF assms(3)] by blast
  have l: "length L < 2 ^ 63" "length (chunk (be_C E) bl) < 2 ^ 63" using assms(2) p(2) by (simp_all add: layout_small_def)
  have "i < 2 ^ 63" using p(1) l(1) by (rule less_trans)
  moreover have "n + length (frame (ser (be_C E) (concat L ! k))) < 2 ^ 63" using p(4) l(2) by (rule le_less_trans)
  ultimately have "int i < 2 ^ 63" "int n + int (length (frame (ser (be_C E) (concat L ! k)))) < 2 ^ 63" by simp_all
  then have "idx_small (blk_info E (concat L ! k) (int i, int n))" by (intro blk_info_small b) auto
  then show "idx_small (infos E L ! k)" unfolding nth_infos[OF assms(3)] p(3) .
  show "idx_flags (infos E L ! k) (blk_flags (concat L ! k))"
    unfolding nth_infos[OF assms(3)] by (rule blk_info_flags[OF b])
qed


section \<open>Looking up and extending the index\<close>

lemma idx_view_find:
  "\<forall>i \<in> set is. map_of (rev (info_pairs items i)) key = (if P i then Some (Some (g i)) else None) \<Longrightarrow>
     idx_view items is key = map_option g (find P (rev is))"
  by (induction "is" rule: rev_induct) (simp_all add: idx_view_snoc, simp add: idx_view_def)

lemma find_num:
  assumes "\<forall>k < length is. bii_blockNum (is ! k) = word_of_nat k" "length is \<le> 2 ^ 64"
  shows "find (\<lambda>i. n = bii_blockNum i) (rev is) = (if unat n < length is then Some (is ! unat n) else None)"
  using assms
proof (induction "is" rule: rev_induct)
  case (snoc i "is")
  have "bii_blockNum (is ! k) = word_of_nat k" if "k < length is" for k
    using snoc.prems(1)[rule_format, of k] that by (simp add: nth_append)
  then have IH: "find (\<lambda>i. n = bii_blockNum i) (rev is) = (if unat n < length is then Some (is ! unat n) else None)"
    using snoc.IH snoc.prems(2) by simp
  have i: "bii_blockNum i = word_of_nat (length is)" using snoc.prems(1)[rule_format, of "length is"] by simp
  have u: "unat (word_of_nat (length is) :: uint64) = length is" using snoc.prems(2) by (simp add: unat_of_nat)
  show ?case
  proof (cases "n = bii_blockNum i")
    case True
    then show ?thesis using i u by simp
  next
    case False
    have "unat n \<noteq> length is"
    proof
      assume "unat n = length is"
      then have "bii_blockNum i = n" unfolding i by (simp flip: \<open>unat n = length is\<close>)
      with False show False by simp
    qed
    with False IH show ?thesis by (auto simp: nth_append)
  qed
qed simp

lemma blkMgrInfoKey_txid: "blkMgrInfoKey = constructBlockTxIDKey ''lkMgrInfo''"
  by (simp add: blkMgrInfoKey_def constructBlockTxIDKey_def string_bytes_def)

lemma blkMgrInfoKey_neq [simp]: "num_key n \<noteq> blkMgrInfoKey" "indexCheckpointKey \<noteq> blkMgrInfoKey"
  "tran_key n j \<noteq> blkMgrInfoKey" "constructBlockHashKey h \<noteq> blkMgrInfoKey"
  "constructTxIDKey t \<noteq> blkMgrInfoKey" "constructTxValidationCodeIDKey t \<noteq> blkMgrInfoKey"
  by (simp_all add: blkMgrInfoKey_txid key_defs string_bytes_def)

lemma infos_num: "chain_ok (be_C E) (concat L) \<Longrightarrow> k < length (concat L) \<Longrightarrow> bii_blockNum (infos E L ! k) = word_of_nat k"
  by (simp add: nth_infos chain_ok_def)

lemma infos_txid:
  assumes "chain_ok (be_C E) (concat L)" "k < length (concat L)" "t \<in> set (bii_txOffsets (infos E L ! k))"
  shows "ti_txID t \<noteq> ''lkMgrInfo''"
  using assms by (auto simp: nth_infos blk_info_def Let_def shift_offsets_def chain_ok_def blk_ok_def)

context kv_store_ok
begin

lemma idx_lookup_num:
  assumes ix: "idx_ok items is (kview s)" and items: "IndexableAttrBlockNum \<in> set items"
    and num: "\<forall>k < length is. bii_blockNum (is ! k) = word_of_nat k" "length is \<le> 2 ^ 64"
    and small: "\<forall>i \<in> set is. idx_small i"
  shows "getBlockLocByBlockNum items K s n
    = (if unat n < length is then Inr (bii_flp (is ! unat n)) else Inl ErrNotFoundInIndex)"
proof -
  have "idx_view items is (num_key n) = map_option (flp_marshal \<circ> bii_flp) (find (\<lambda>i. n = bii_blockNum i) (rev is))"
    by (rule idx_view_find) (simp add: info_pairs_def index_pairs_num items)
  then have "kview s (num_key n) = (if unat n < length is then Some (flp_marshal (bii_flp (is ! unat n))) else None)"
    using ix by (simp add: idx_ok_def find_num[OF num])
  moreover have "flp_small (bii_flp (is ! unat n))" if "unat n < length is" using small that by (simp add: idx_small_def)
  ultimately show ?thesis using items by (simp add: getBlockLocByBlockNum_def get_loc_kview)
qed

lemma idx_last:
  assumes "idx_ok items is (kview s)"
  shows "getLastBlockIndexed K s = (if is = [] then Inl errIndexEmpty else Inr (bii_blockNum (last is)))"
proof -
  have "idx_view items is indexCheckpointKey = (if is = [] then None else Some (encodeBlockNum (bii_blockNum (last is))))"
    by (cases "is" rule: rev_cases) (simp_all add: idx_view_snoc, simp_all add: idx_view_def info_pairs_def index_pairs_checkpoint)
  with assms show ?thesis
    by (simp add: getLastBlockIndexed_def Get_kview idx_ok_def decodeBlockNum_def encodeBlockNum_def
        DecodeVarint_EncodeVarint[of _ "[]", simplified])
qed

lemma indexBlock_total: "idx_flags info flags \<Longrightarrow> snd (indexBlock items K s info) = None"
  by (simp add: indexBlock_def index_batch_eq kvs_WriteBatch_total)

lemma idx_step:
  assumes ix: "idx_ok items is (kview s)" and items: "items \<noteq> []" and fl: "idx_flags i flags"
    and tx: "\<forall>t \<in> set (bii_txOffsets i). ti_txID t \<noteq> ''lkMgrInfo''"
  obtains s' where "indexBlock items K s i = (s', None)" "idx_ok items (is @ [i]) (kview s')"
    "kview s' blkMgrInfoKey = kview s blkMgrInfoKey"
proof -
  obtain s' where s': "indexBlock items K s i = (s', None)"
    using indexBlock_total[OF fl, of items s] by (cases "indexBlock items K s i") auto
  note v = indexBlock_view[OF s' items fl]
  have f: "flags = bii_metadata i ! BlockMetadataIndex_TRANSACTIONS_FILTER" using fl by (simp add: idx_flags_def)
  have "last_tx (bii_txOffsets i) ''lkMgrInfo'' = None" unfolding last_tx_None using tx .
  then have "map_of (rev (index_pairs items i flags)) blkMgrInfoKey = None"
    unfolding blkMgrInfoKey_txid index_pairs_block_txid by simp
  then have "kview s' blkMgrInfoKey = kview s blkMgrInfoKey" by (simp add: v)
  moreover have "idx_ok items (is @ [i]) (kview s')"
    using ix by (simp add: idx_ok_def v idx_view_snoc info_pairs_def f split: option.split)
  ultimately show ?thesis using s' that by blast
qed

end


section \<open>Rebuilding the index\<close>

lemma sync_info:
  assumes "blk_ok (be_C E) b"
  shows "\<lparr>bii_blockNum = bh_Number (sbi_blockHeader (ser_info (be_C E) b)),
    bii_blockHash = be_hash E (sbi_blockHeader (ser_info (be_C E) b)),
    bii_flp = \<lparr>flp_fileSuffixNum = f, flp_offset = off, flp_bytesLength = 0\<rparr>,
    bii_txOffsets = shift_offsets (length (frame (ser (be_C E) b)) - length (ser (be_C E) b)) (sbi_txOffsets (ser_info (be_C E) b)),
    bii_metadata = sbi_metadata (ser_info (be_C E) b)\<rparr> = blk_info E b (f, off)"
  using assms by (simp add: blk_info_def Let_def blk_okD block_header_def)

context kv_store_ok
begin

lemma sync_loop_ok:
  assumes E: "be_K E = K" "be_items E \<noteq> []" and ch: "chain_ok (be_C E) (concat L)" and ls: "layout_small (be_C E) L"
    and st: "stream_at files st bss" "0 \<le> bs_endFileNum st" "concat bss = map (ser (be_C E)) (drop k (concat L))"
      "stream_pos st bss = drop k (pos_from 0 0 (sers (be_C E) L))"
    and k: "k \<le> length (concat L)" and ix: "idx_ok (be_items E) (take k (infos E L)) (kview s)"
  shows "\<exists>s'. sync_loop E files st s = (s', None) \<and> idx_ok (be_items E) (infos E L) (kview s')
    \<and> kview s' blkMgrInfoKey = kview s blkMgrInfoKey"
  using st k ix
proof (induction "length (concat L) - k" arbitrary: k st bss s)
  case 0
  then have "concat bss = []" "idx_ok (be_items E) (infos E L) (kview s)" by simp_all
  with bs_next_none[OF "0.prems"(1) _ "0.prems"(2)] show ?case by (subst sync_loop.simps) fastforce
next
  case (Suc n)
  let ?b = "concat L ! k" and ?C = "be_C E"
  have k: "k < length (concat L)" using Suc.hyps(2) by simp
  then have b: "blk_ok ?C ?b" using ch by (simp add: chain_ok_def)
  have "concat bss = ser ?C ?b # map (ser ?C) (drop (Suc k) (concat L))"
    using Suc.prems(3) k by (simp add: Cons_nth_drop_Suc[symmetric])
  from bs_next_some[OF Suc.prems(1) this] obtain f off st' bss' where n:
    "bs_nextBlockBytesAndPlacementInfo files st = Inr (Some (ser ?C ?b, \<lparr>bpi_fileNum = f, bpi_blockStartOffset = off,
       bpi_blockBytesOffset = off + int (length (frame (ser ?C ?b)) - length (ser ?C ?b))\<rparr>), st')"
    "stream_at files st' bss'" "concat bss' = map (ser ?C) (drop (Suc k) (concat L))" "bs_endFileNum st' = bs_endFileNum st"
    "stream_pos st bss = (f, off) # stream_pos st' bss'" by blast
  have kp: "k < length (pos_from 0 0 (sers ?C L))" using k by (simp add: sers_concat)
  have p: "pos_from 0 0 (sers ?C L) ! k = (f, off)" "stream_pos st' bss' = drop (Suc k) (pos_from 0 0 (sers ?C L))"
    using n(5) Suc.prems(4) by (simp_all add: Cons_nth_drop_Suc[OF kp, symmetric])
  have i: "infos E L ! k = blk_info E ?b (f, off)" using nth_infos[OF k, of E] p(1) by simp
  have tx: "\<forall>t \<in> set (bii_txOffsets (infos E L ! k)). ti_txID t \<noteq> ''lkMgrInfo''" using infos_txid[OF ch k] by blast
  obtain s1 where s1: "indexBlock (be_items E) K s (infos E L ! k) = (s1, None)"
    "idx_ok (be_items E) (take k (infos E L) @ [infos E L ! k]) (kview s1)" "kview s1 blkMgrInfoKey = kview s blkMgrInfoKey"
    by (rule idx_step[OF Suc.prems(6) E(2) infos_small(2)[OF ch ls k] tx])
  have "take (Suc k) (infos E L) = take k (infos E L) @ [infos E L ! k]" using k by (simp add: take_Suc_conv_app_nth)
  with s1(2) have ix': "idx_ok (be_items E) (take (Suc k) (infos E L)) (kview s1)" by simp
  have "n = length (concat L) - Suc k" using Suc.hyps(2) by simp
  from Suc.hyps(1)[OF this n(2) _ n(3) p(2) _ ix'] n(4) Suc.prems(2) k obtain s' where
    "sync_loop E files st' s1 = (s', None)" "idx_ok (be_items E) (infos E L) (kview s')"
    "kview s' blkMgrInfoKey = kview s1 blkMgrInfoKey" by auto
  moreover have "sync_loop E files st s = sync_loop E files st' s1"
    by (subst sync_loop.simps) (simp add: n(1) blk_okD[OF b] Let_def sync_info[OF b, simplified blk_okD[OF b]] E(1) s1(1)[unfolded i])
  ultimately show ?case using s1(3) by auto
qed

lemma idx_lookup_infos:
  assumes ch: "chain_ok (be_C E) (concat L)" and ls: "layout_small (be_C E) L" and it: "IndexableAttrBlockNum \<in> set (be_items E)"
    and ix: "idx_ok (be_items E) (take j (infos E L)) (kview s)" "j \<le> length (concat L)"
  shows "getBlockLocByBlockNum (be_items E) K s n = (if unat n < j
    then Inr \<lparr>flp_fileSuffixNum = fst (pos_from 0 0 (sers (be_C E) L) ! unat n),
              flp_offset = snd (pos_from 0 0 (sers (be_C E) L) ! unat n), flp_bytesLength = 0\<rparr>
    else Inl ErrNotFoundInIndex)"
proof -
  have sm: "\<forall>i \<in> set (take j (infos E L)). idx_small i"
    using infos_small(1)[OF ch ls] by (auto simp: in_set_conv_nth)
  have nm: "\<forall>k < length (take j (infos E L)). bii_blockNum (take j (infos E L) ! k) = word_of_nat k"
    using infos_num[OF ch] by auto
  have "length (take j (infos E L)) \<le> 2 ^ 64" using ch ix(2) by (simp add: chain_ok_def)
  from idx_lookup_num[OF ix(1) it nm this sm, of n] ix(2) show ?thesis by (simp add: nth_infos)
qed

lemma syncIndex_resume:
  assumes E: "be_K E = K" "IndexableAttrBlockNum \<in> set (be_items E)" and ch: "chain_ok (be_C E) (concat L)"
    and ls: "layout_small (be_C E) L" and fh: "files_hold files (sers (be_C E) L)"
    and cp: "cp_latestFileChunkSuffixNum cp = int (length L) - 1" "cp_lastBlockNumber cp \<noteq> word_of_nat j"
    and ix: "idx_ok (be_items E) (take (Suc j) (infos E L)) (kview s)" "Suc j \<le> length (concat L)"
    and li: "getLastBlockIndexed K s = Inr (word_of_nat j)" and u: "unat (word_of_nat j :: uint64) = j"
  shows "\<exists>s'. syncIndex E files s cp = (s', None) \<and> idx_ok (be_items E) (infos E L) (kview s')
    \<and> kview s' blkMgrInfoKey = kview s blkMgrInfoKey"
proof -
  let ?S = "sers (be_C E) L"
  have L: "L \<noteq> []" "be_items E \<noteq> []" using ix(2) E(2) by auto
  then have e: "int (length L) - 1 = int (length ?S) - 1 \<or> int (length L) - 1 < 0" "0 \<le> int (length L) - 1" by (cases L; simp)+
  obtain f off where p: "pos_from 0 0 ?S ! j = (f, off)" by fastforce
  have loc: "getBlockLocByBlockNum (be_items E) K s (word_of_nat j)
      = Inr \<lparr>flp_fileSuffixNum = f, flp_offset = off, flp_bytesLength = 0\<rparr>"
    using idx_lookup_infos[OF ch ls E(2) ix, of "word_of_nat j"] p by (simp add: u)
  have jS: "j < length (concat ?S)" using ix(2) by (simp add: sers_concat)
  from stream_from[OF fh jS e(1) p] obtain st bss where st: "newBlockStream files f off (int (length L) - 1) = Inr st"
    "stream_at files st bss" "concat bss = drop j (concat ?S)" "stream_pos st bss = drop j (pos_from 0 0 ?S)"
    "bs_endFileNum st = int (length L) - 1" by blast
  have "concat bss = concat ?S ! j # drop (Suc j) (concat ?S)" using st(3) jS by (simp add: Cons_nth_drop_Suc)
  from bs_next_some[OF st(2) this] obtain pl st' bss' where n: "bs_nextBlockBytesAndPlacementInfo files st = Inr (Some pl, st')"
    "stream_at files st' bss'" "concat bss' = drop (Suc j) (concat ?S)" "bs_endFileNum st' = bs_endFileNum st"
    "tl (stream_pos st bss) = stream_pos st' bss'" by (metis list.sel(3))
  have "stream_pos st' bss' = drop (Suc j) (pos_from 0 0 ?S)" using n(5) st(4) by (simp add: drop_Suc tl_drop)
  moreover have "syncIndex E files s cp = sync_loop E files st' s"
    using li cp loc st(1) n(1) by (simp add: syncIndex_def Let_def E(1))
  ultimately show ?thesis
    using sync_loop_ok[OF E(1) L(2) ch ls n(2) _ _ _ ix(2,1)] n(3,4) st(5) e(2) by (simp add: sers_concat drop_map)
qed

lemma syncIndex_ok:
  assumes E: "be_K E = K" "IndexableAttrBlockNum \<in> set (be_items E)" and ch: "chain_ok (be_C E) (concat L)"
    and ls: "layout_small (be_C E) L" and fh: "files_hold files (sers (be_C E) L)"
    and cp: "cp_latestFileChunkSuffixNum cp = int (length L) - 1" "cp_lastBlockNumber cp = word_of_nat (length (concat L) - 1)"
    and ne: "concat L \<noteq> []" and ix: "idx_ok (be_items E) (take j (infos E L)) (kview s)" "j \<le> length (concat L)"
  shows "\<exists>s'. syncIndex E files s cp = (s', None) \<and> idx_ok (be_items E) (infos E L) (kview s')
    \<and> kview s' blkMgrInfoKey = kview s blkMgrInfoKey"
proof (cases j)
  case 0
  let ?S = "sers (be_C E) L"
  have L: "L \<noteq> []" "be_items E \<noteq> []" using ne E(2) by auto
  then have e: "int (length L) - 1 = int (length ?S) - 1 \<or> int (length L) - 1 < 0" "0 \<le> int (length L) - 1" by (cases L; simp)+
  from stream_begin[OF fh e(1)] obtain st where st: "newBlockStream files 0 0 (int (length L) - 1) = Inr st"
    "stream_at files st ?S" "stream_pos st ?S = pos_from 0 0 ?S" "bs_endFileNum st = int (length L) - 1" by blast
  then have "syncIndex E files s cp = sync_loop E files st s"
    using idx_last[OF ix(1)] 0 cp by (simp add: syncIndex_def Let_def E(1))
  with sync_loop_ok[OF E(1) L(2) ch ls st(2), of 0] st e(2) ix(1) 0 show ?thesis by (simp add: sers_concat)
next
  case (Suc j')
  let ?n = "length (concat L)"
  have cn: "?n < 2 ^ 64" using ch by (simp add: chain_ok_def)
  then have u: "unat (word_of_nat k :: uint64) = k" if "k < ?n" for k using that by (simp add: unat_of_nat)
  have j': "j' < ?n" "length (take j (infos E L)) = Suc j'" using ix(2) Suc by simp_all
  then have "last (take j (infos E L)) = infos E L ! j'" "take j (infos E L) \<noteq> []"
    by (simp_all add: last_conv_nth flip: length_greater_0_conv)
  then have li: "getLastBlockIndexed K s = Inr (word_of_nat j')" using idx_last[OF ix(1)] infos_num[OF ch j'(1)] by simp
  show ?thesis
  proof (cases "j = ?n")
    case True
    then have "?n - 1 = j'" using Suc by simp
    then have "cp_lastBlockNumber cp = word_of_nat j'" using cp(2) by metis
    then show ?thesis using li ix(1) True by (simp add: syncIndex_def E(1))
  next
    case False
    then have "unat (word_of_nat (?n - 1) :: uint64) \<noteq> unat (word_of_nat j' :: uint64)"
      using u[of "?n - 1"] u[OF j'(1)] Suc j'(1) by simp
    then have "cp_lastBlockNumber cp \<noteq> word_of_nat j'" using cp(2) by metis
    from syncIndex_resume[OF E ch ls fh cp(1) this ix(1,2)[unfolded Suc] li u[OF j'(1)]] show ?thesis .
  qed
qed

end


section \<open>The invariant of the store\<close>

definition cp_of :: "tx_codec \<Rightarrow> Block list list \<Rightarrow> checkpointInfo" where
  "cp_of C L = \<lparr>cp_latestFileChunkSuffixNum = int (length L) - 1, cp_latestFileChunksize = int (length (chunk C (last L))),
     cp_isChainEmpty = (concat L = []), cp_lastBlockNumber = word_of_nat (length (concat L) - 1)\<rparr>"

definition bc_of :: "'s blk_env \<Rightarrow> Block list \<Rightarrow> BlockchainInfo" where
  "bc_of E bl = (if bl = [] then \<lparr>bci_Height = 0, bci_CurrentBlockHash = [], bci_PreviousBlockHash = []\<rparr>
     else \<lparr>bci_Height = word_of_nat (length bl), bci_CurrentBlockHash = be_hash E (block_header (last bl)),
           bci_PreviousBlockHash = blk_PreviousHash (last bl)\<rparr>)"

definition rest_empty :: "blockfiles \<Rightarrow> nat \<Rightarrow> bool" where
  "rest_empty files n \<longleftrightarrow> (\<forall>f \<ge> int n. map_get files f = None \<or> map_get files f = Some [])"

definition store_inv :: "'s blk_env \<Rightarrow> ('s \<Rightarrow> bytes \<rightharpoonup> bytes) \<Rightarrow> Block list list \<Rightarrow> 's blockfileMgr \<Rightarrow> bool" where
  "store_inv E kview L m \<longleftrightarrow> L \<noteq> [] \<and> chain_ok (be_C E) (concat L) \<and> layout_small (be_C E) L
     \<and> files_hold (mgr_files m) (sers (be_C E) L) \<and> rest_empty (mgr_files m) (length L)
     \<and> mgr_cpInfo m = cp_of (be_C E) L \<and> mgr_writer m = int (length L) - 1 \<and> mgr_bcInfo m = bc_of E (concat L)
     \<and> kview (mgr_db m) blkMgrInfoKey = Some (cp_marshal (cp_of (be_C E) L))
     \<and> idx_ok (be_items E) (infos E L) (kview (mgr_db m))"

text \<open>What a crash can leave: the last file has a frame cut off, the checkpoint has only the first
  \<open>n\<close> blocks of the last file and the index the first \<open>j\<close> blocks.\<close>

definition disk_inv :: "'s blk_env \<Rightarrow> ('s \<Rightarrow> bytes \<rightharpoonup> bytes) \<Rightarrow> Block list list \<Rightarrow> nat \<Rightarrow> bytes \<Rightarrow> nat \<Rightarrow> blockfiles \<Rightarrow> 's \<Rightarrow> bool" where
  "disk_inv E kview L n p j files db \<longleftrightarrow> L \<noteq> [] \<and> chain_ok (be_C E) (concat L) \<and> layout_small (be_C E) L
     \<and> (\<forall>i < length L - 1. map_get files (int i) = Some (chunk (be_C E) (L ! i)))
     \<and> (map_get files (int (length L) - 1) = Some (chunk (be_C E) (last L) @ p)
        \<or> map_get files (int (length L) - 1) = None \<and> last L = [] \<and> p = [])
     \<and> cut_frame p \<and> rest_empty files (length L)
     \<and> n \<le> length (last L) \<and> kview db blkMgrInfoKey = Some (cp_marshal (cp_of (be_C E) (butlast L @ [take n (last L)])))
     \<and> j \<le> length (concat L) \<and> idx_ok (be_items E) (take j (infos E L)) (kview db)"

lemma cp_roundtrip:
  assumes "0 \<le> cp_latestFileChunkSuffixNum cp" "cp_latestFileChunkSuffixNum cp < 2 ^ 63"
    "0 \<le> cp_latestFileChunksize cp" "cp_latestFileChunksize cp < 2 ^ 63"
  shows "cp_unmarshal (cp_marshal cp) = Inr cp"
  using assms buf_DecodeVarint_Encode[of _ "[]"]
  by (cases cp) (simp add: cp_unmarshal_def cp_marshal_def sint_of_int)

lemma chunk_take_le: "length (chunk C (take n bl)) \<le> length (chunk C bl)"
  by (metis append_take_drop_id concat_append le_add1 length_append map_append)

lemma cp_of_roundtrip:
  assumes "layout_small C L" "L \<noteq> []" "n \<le> length (last L)"
  shows "cp_unmarshal (cp_marshal (cp_of C (butlast L @ [take n (last L)]))) = Inr (cp_of C (butlast L @ [take n (last L)]))"
proof (rule cp_roundtrip)
  have l: "length L < 2 ^ 63" "length (chunk C (last L)) < 2 ^ 63" using assms by (simp_all add: layout_small_def)
  show "0 \<le> cp_latestFileChunkSuffixNum (cp_of C (butlast L @ [take n (last L)]))"
    "cp_latestFileChunkSuffixNum (cp_of C (butlast L @ [take n (last L)])) < 2 ^ 63"
    using l(1) by (simp_all add: cp_of_def)
  show "0 \<le> cp_latestFileChunksize (cp_of C (butlast L @ [take n (last L)]))" by (simp add: cp_of_def)
  show "cp_latestFileChunksize (cp_of C (butlast L @ [take n (last L)])) < 2 ^ 63"
    using le_less_trans[OF chunk_take_le l(2), of n] by (simp add: cp_of_def)
qed

lemma chunk_Nil_iff [simp]: "chunk C bl = [] \<longleftrightarrow> bl = []"
  by (cases bl) (simp_all add: frame_def)

lemma butlast_take_last: "L \<noteq> [] \<Longrightarrow> butlast L @ [take (length (last L)) (last L)] = L"
  by simp

lemma concat_last: "L \<noteq> [] \<Longrightarrow> concat L = concat (butlast L) @ last L"
  by (metis append_butlast_last_id concat.simps(2) concat.simps(1) concat_append append_Nil2)

lemma chain_ok_mem: "chain_ok C bl \<Longrightarrow> x \<in> set bl \<Longrightarrow> blk_ok C x"
  by (auto simp: chain_ok_def in_set_conv_nth)

text \<open>Adding to the checkpoint the blocks found behind it.\<close>

lemma cp_of_extend:
  fixes C :: tx_codec
  assumes L: "L \<noteq> []" "n \<le> length (last L)" and r: "drop n (last L) \<noteq> []"
  defines "cp \<equiv> cp_of C (butlast L @ [take n (last L)])" and "r \<equiv> int (length (drop n (last L)))"
  shows "cp\<lparr>cp_latestFileChunksize := int (length (chunk C (last L))),
    cp_lastBlockNumber := (if cp_isChainEmpty cp then word_of_int (r - 1) else cp_lastBlockNumber cp + word_of_int r),
    cp_isChainEmpty := False\<rparr> = cp_of C L"
proof -
  let ?B = "concat (butlast L @ [take n (last L)])" and ?r = "length (drop n (last L))"
  have len: "length (concat L) = length ?B + ?r" using L(2) by (simp add: concat_last[OF L(1)])
  have ne: "concat L \<noteq> []" using r L by (auto simp: concat_last[OF L(1)])
  have num: "(if ?B = [] then word_of_int (r - 1) else word_of_nat (length ?B - 1) + word_of_int r)
      = (word_of_nat (length (concat L) - 1) :: uint64)"
  proof (cases "?B = []")
    case True
    have "word_of_nat (?r - 1) = (word_of_int (int (?r - 1)) :: uint64)" by simp
    moreover have "int (?r - 1) = r - 1" using r by (simp add: r_def of_nat_diff Suc_le_eq)
    ultimately show ?thesis using True len by (simp only: if_True list.size(3) add_0 simp_thms)
  next
    case False
    then have "0 < length ?B" by (rule length_greater_0_conv[THEN iffD2])
    then have e: "length (concat L) - 1 = (length ?B - 1) + ?r" using len by linarith
    show ?thesis using False unfolding e r_def by (auto simp only: if_False of_nat_add of_int_of_nat_eq)
  qed
  show ?thesis using ne L(1)
    unfolding cp_def cp_of_def checkpointInfo.select_convs checkpointInfo.update_convs num by simp
qed

lemma syncCP_ok:
  assumes d: "disk_inv E kview L n p j files db"
  shows "syncCPInfoFromFS files (cp_of (be_C E) (butlast L @ [take n (last L)])) = Inr (cp_of (be_C E) L)"
proof -
  let ?C = "be_C E" let ?r = "drop n (last L)" let ?cp = "cp_of ?C (butlast L @ [take n (last L)])"
  have L: "L \<noteq> []" "n \<le> length (last L)" "cut_frame p" and ch: "chain_ok ?C (concat L)" using d by (simp_all add: disk_inv_def)
  have sfx: "cp_latestFileChunkSuffixNum ?cp = int (length L) - 1" using L(1) by (simp add: cp_of_def)
  consider (none) "map_get files (int (length L) - 1) = None" "last L = []"
    | (some) "map_get files (int (length L) - 1) = Some (chunk ?C (last L) @ p)" using d by (auto simp: disk_inv_def)
  then show ?thesis
  proof cases
    case none
    then have "butlast L @ [take n (last L)] = L" using L(1) by (metis append_butlast_last_id take_Nil)
    then show ?thesis using none sfx by (simp add: syncCPInfoFromFS_def)
  next
    case some
    have c: "chunk ?C (last L) = chunk ?C (take n (last L)) @ concat (map frame (map (ser ?C) ?r))"
      unfolding map_map concat_append[symmetric] map_append[symmetric] by simp
    have sz: "cp_latestFileChunksize ?cp = int (length (chunk ?C (take n (last L))))" by (simp add: cp_of_def)
    have "\<forall>x \<in> set (concat L). frame_ok (ser ?C x)" using chain_ok_mem[OF ch] blk_okD(3) by blast
    then have fo: "\<forall>b \<in> set (map (ser ?C) ?r). frame_ok b" using concat_last[OF L(1)] by (auto dest: in_set_dropD)
    have sc: "scanForLastCompleteBlock files (int (length L) - 1) (int (length (chunk ?C (take n (last L)))))
      = Inr (if ?r = [] then None else Some (last (map (ser ?C) ?r)), int (length (chunk ?C (last L))), int (length ?r))"
      using scan_frames[of files "int (length L) - 1" "chunk ?C (take n (last L))" "map (ser ?C) ?r" p, OF _ fo L(3)] some c
      by simp
    show ?thesis
    proof (cases "?r = []")
      case True
      then have dn: "butlast L @ [take n (last L)] = L" using L by simp
      have "(cp_of ?C L)\<lparr>cp_latestFileChunksize := int (length (chunk ?C (last L)))\<rparr> = cp_of ?C L" by (simp add: cp_of_def)
      then show ?thesis using sc some sz sfx True unfolding dn
        by (simp add: syncCPInfoFromFS_def Let_def)
    next
      case False
      then have "length (chunk ?C (last L) @ p) \<noteq> length (chunk ?C (take n (last L)))" unfolding c by (auto simp: frame_def)
      then show ?thesis using sc some sz cp_of_extend[OF L(1,2) False, of ?C] False
        by (simp add: syncCPInfoFromFS_def sfx Let_def del: length_drop)
    qed
  qed
qed


section \<open>The start of the store\<close>

lemma files_hold_intro:
  assumes "L \<noteq> []" "\<forall>b \<in> set (concat L). frame_ok (ser C b)" "\<forall>i < length L - 1. map_get files (int i) = Some (chunk C (L ! i))"
    "map_get files (int (length L) - 1) = Some (chunk C (last L))"
  shows "files_hold files (sers C L)"
proof -
  have "map_get files (int i) = Some (chunk C (L ! i))" if "i < length L" for i
  proof (cases "i = length L - 1")
    case True
    then have "int i = int (length L) - 1" using assms(1) by (cases L) auto
    then show ?thesis using assms(1,4) True by (simp add: last_conv_nth)
  next
    case False then show ?thesis using assms(3) that by simp
  qed
  then show ?thesis using assms(1,2) by (auto simp: files_hold_def chunk_sers)
qed

lemma start_files:
  assumes d: "disk_inv E kview L n p j files db"
  defines "files2 \<equiv> truncateFile (newBlockfileWriter files (int (length L) - 1)) (int (length L) - 1) (int (length (chunk (be_C E) (last L))))"
  shows "files_hold files2 (sers (be_C E) L)" "rest_empty files2 (length L)"
proof -
  let ?l = "int (length L) - 1"
  have l: "map_get files2 ?l = Some (chunk (be_C E) (last L))"
    using d by (auto simp: disk_inv_def files2_def newBlockfileWriter_def truncateFile_def update_conv')
  have o: "map_get files2 f = map_get files f" if "f \<noteq> ?l" for f
    using that by (auto simp: files2_def newBlockfileWriter_def truncateFile_def update_conv' split: option.split)
  have "\<forall>b \<in> set (concat L). frame_ok (ser (be_C E) b)"
    using d chain_ok_mem blk_okD(3) unfolding disk_inv_def by blast
  then show "files_hold files2 (sers (be_C E) L)" using d l o by (intro files_hold_intro) (auto simp: disk_inv_def)
  show "rest_empty files2 (length L)" using d o by (simp add: disk_inv_def rest_empty_def)
qed

lemma fetch_block_bytes:
  assumes "files_hold files (sers C L)" "k < length (concat L)"
  shows "fetchBlockBytes files \<lparr>flp_fileSuffixNum = fst (pos_from 0 0 (sers C L) ! k), flp_offset = snd (pos_from 0 0 (sers C L) ! k),
    flp_bytesLength = x\<rparr> = Inr (ser C (concat L ! k))"
proof -
  have k: "k < length (concat (sers C L))" using assms(2) by (simp add: sers_concat)
  obtain f pre post where p: "pos_from 0 0 (sers C L) ! k = (f, int (length pre))"
    "map_get files f = Some (pre @ frame (concat (sers C L) ! k) @ post)" using files_hold_at[OF assms(1) k] by blast
  have "frame_ok (concat (sers C L) ! k)" using assms(1) nth_mem[OF k] by (simp only: files_hold_def)
  from bfs_next_frame[OF p(2) this] p assms(2) show ?thesis
    by (simp add: fetchBlockBytes_def newBlockfileStream_def file_open_def bfs_nextBlockBytes_def sers_concat)
qed

context kv_store_ok
begin

lemma save_ok:
  assumes "be_K E = K"
  obtains db' where "saveCurrentInfo E db cp sync = (db', None)" "kview db' = (kview db)(blkMgrInfoKey \<mapsto> cp_marshal cp)"
proof -
  obtain db' where "kvs_Put K db blkMgrInfoKey (cp_marshal cp) sync = (db', None)"
    using kvs_Put_total[of db blkMgrInfoKey "cp_marshal cp" sync] by (cases "kvs_Put K db blkMgrInfoKey (cp_marshal cp) sync") auto
  then show ?thesis using that kvs_Put assms by (simp add: saveCurrentInfo_def)
qed

lemma idx_ok_save: "idx_ok items is v \<Longrightarrow> idx_ok items is (v(blkMgrInfoKey \<mapsto> x))"
  by (simp add: idx_ok_def)

lemma loc_all:
  assumes "IndexableAttrBlockNum \<in> set (be_items E)" "chain_ok (be_C E) (concat L)" "layout_small (be_C E) L"
    "idx_ok (be_items E) (infos E L) (kview db)"
  shows "getBlockLocByBlockNum (be_items E) K db n = (if unat n < length (concat L)
    then Inr \<lparr>flp_fileSuffixNum = fst (pos_from 0 0 (sers (be_C E) L) ! unat n),
              flp_offset = snd (pos_from 0 0 (sers (be_C E) L) ! unat n), flp_bytesLength = 0\<rparr>
    else Inl ErrNotFoundInIndex)"
  by (rule idx_lookup_infos[OF assms(2,3,1), of "length (concat L)"]) (simp_all add: assms(4))

lemma header_at:
  assumes "be_K E = K" "IndexableAttrBlockNum \<in> set (be_items E)" "chain_ok (be_C E) (concat L)" "layout_small (be_C E) L"
    "files_hold files (sers (be_C E) L)" "idx_ok (be_items E) (infos E L) (kview db)" "k < length (concat L)"
  shows "retrieveBlockHeaderByNumber E files db (word_of_nat k) = Inr (block_header (concat L ! k))"
proof -
  have "unat (word_of_nat k :: uint64) = k" using assms(3,7) by (simp add: chain_ok_def unat_of_nat)
  with loc_all[OF assms(2,3,4,6), of "word_of_nat k"] fetch_block_bytes[OF assms(5,7)] assms(7)
    blk_okD(5,6)[OF chain_ok_mem[OF assms(3) nth_mem[OF assms(7)]]]
  show ?thesis by (simp add: retrieveBlockHeaderByNumber_def assms(1))
qed

theorem newBlockfileMgr_ok:
  assumes E: "be_K E = K" "IndexableAttrBlockNum \<in> set (be_items E)" and d: "disk_inv E kview L n p j files db"
  shows "\<exists>m. newBlockfileMgr E files db = Inr m \<and> store_inv E kview L m"
proof -
  let ?C = "be_C E" let ?l = "int (length L) - 1"
  let ?f2 = "truncateFile (newBlockfileWriter files ?l) ?l (int (length (chunk ?C (last L))))"
  have dd: "L \<noteq> []" "layout_small ?C L" "n \<le> length (last L)" "chain_ok ?C (concat L)"
    "kview db blkMgrInfoKey = Some (cp_marshal (cp_of ?C (butlast L @ [take n (last L)])))"
    "idx_ok (be_items E) (take j (infos E L)) (kview db)" "j \<le> length (concat L)" using d by (simp_all add: disk_inv_def)
  have load: "loadCurrentInfo E db = Inr (Some (cp_of ?C (butlast L @ [take n (last L)])))"
    by (simp add: loadCurrentInfo_def E(1) Get_kview dd(5) cp_of_roundtrip[OF dd(2,1,3)])
  obtain db1 where db1: "saveCurrentInfo E db (cp_of ?C L) True = (db1, None)"
    "kview db1 = (kview db)(blkMgrInfoKey \<mapsto> cp_marshal (cp_of ?C L))" by (rule save_ok[OF E(1)])
  have ix: "idx_ok (be_items E) (take j (infos E L)) (kview db1)" using idx_ok_save[OF dd(6)] db1(2) by simp
  have cp: "cp_latestFileChunkSuffixNum (cp_of ?C L) = ?l" "cp_latestFileChunksize (cp_of ?C L) = int (length (chunk ?C (last L)))"
    "cp_isChainEmpty (cp_of ?C L) = (concat L = [])" "cp_lastBlockNumber (cp_of ?C L) = word_of_nat (length (concat L) - 1)"
    by (simp_all add: cp_of_def)
  note f2 = start_files[OF d] and new = newBlockfileMgr_def load syncCP_ok[OF d] db1(1) cp(1-3)
  show ?thesis
  proof (cases "concat L = []")
    case True
    have "infos E L = []" using length_infos[of E L] True by (metis length_0_conv)
    then show ?thesis using True f2 ix db1(2) dd by (simp add: new Let_def store_inv_def bc_of_def)
  next
    case False
    let ?k = "length (concat L) - 1"
    have k: "?k < length (concat L)" "?k < 2 ^ 64" using False dd(4) by (auto simp: chain_ok_def)
    obtain db2 where db2: "syncIndex E ?f2 db1 (cp_of ?C L) = (db2, None)" "idx_ok (be_items E) (infos E L) (kview db2)"
      "kview db2 blkMgrInfoKey = kview db1 blkMgrInfoKey"
      using syncIndex_ok[OF E dd(4,2) f2(1) cp(1,4) False ix dd(7)] by blast
    have hdr: "retrieveBlockHeaderByNumber E ?f2 db2 (cp_lastBlockNumber (cp_of ?C L)) = Inr (block_header (last (concat L)))"
      unfolding last_conv_nth[OF False] cp(4) by (rule header_at[OF E dd(4,2) f2(1) db2(2) k(1)])
    have "word_of_nat (?k + 1) = (word_of_nat ?k + 1 :: uint64)" by (simp only: of_nat_add of_nat_1)
    moreover have "?k + 1 = length (concat L)" using k(1) by linarith
    ultimately have h: "cp_lastBlockNumber (cp_of ?C L) + 1 = word_of_nat (length (concat L))" unfolding cp(4) by metis
    show ?thesis using f2 db2 db1(2) dd False
      by (simp add: new Let_def hdr h store_inv_def bc_of_def block_header_def del: concat_eq_Nil_conv)
  qed
qed

end


section \<open>Appending\<close>

text \<open>The layout after a block has been added to the last file.\<close>

definition add_last :: "Block list list \<Rightarrow> Block \<Rightarrow> Block list list" where
  "add_last L b = butlast L @ [last L @ [b]]"

lemma length_add_last: "L \<noteq> [] \<Longrightarrow> length (add_last L b) = length L" "add_last L b \<noteq> []"
  by (simp_all add: add_last_def)

lemma concat_add_last: "L \<noteq> [] \<Longrightarrow> concat (add_last L b) = concat L @ [b]"
  using concat_last[of L] by (simp add: add_last_def)

lemma file_positions_snoc:
  "file_positions f off (bs @ [b]) = file_positions f off bs @ [(f, off + int (length (concat (map frame bs))))]"
  by (induction bs arbitrary: off) auto

lemma pos_from_append: "pos_from f 0 (bss @ [bs]) = pos_from f 0 bss @ file_positions (f + int (length bss)) 0 bs"
  by (induction bss arbitrary: f) (simp_all add: algebra_simps)

lemma pos_from_add:
  assumes "L \<noteq> []"
  shows "pos_from 0 0 (sers C (add_last L b))
    = pos_from 0 0 (sers C L) @ [(int (length L) - 1, int (length (chunk C (last L))))]"
proof -
  have L: "sers C L = sers C (butlast L) @ [map (ser C) (last L)]"
    using append_butlast_last_id[of "sers C L"] assms by (simp add: map_butlast last_map)
  have "pos_from 0 0 (sers C L) = pos_from 0 0 (sers C (butlast L)) @ file_positions (int (length L) - 1) 0 (map (ser C) (last L))"
    using pos_from_append[of 0 "sers C (butlast L)" "map (ser C) (last L)"] assms
    by (subst L) (simp add: of_nat_diff Suc_le_eq)
  then show ?thesis
    using pos_from_append[of 0 "sers C (butlast L)" "map (ser C) (last L @ [b])"] assms
    by (simp add: add_last_def file_positions_snoc chunk_sers of_nat_diff Suc_le_eq)
qed

lemma infos_add:
  assumes "L \<noteq> []"
  shows "infos E (add_last L b) = infos E L @ [blk_info E b (int (length L) - 1, int (length (chunk (be_C E) (last L))))]"
  using assms by (simp add: infos_def pos_from_add concat_add_last sers_concat)

lemma infos_next: "infos E (L @ [[]]) = infos E L"
  by (simp add: infos_def pos_from_append)

lemma cp_of_add:
  assumes "L \<noteq> []"
  shows "cp_of C (add_last L b) = \<lparr>cp_latestFileChunkSuffixNum = int (length L) - 1,
    cp_latestFileChunksize = int (length (chunk C (last L))) + int (length (frame (ser C b))), cp_isChainEmpty = False,
    cp_lastBlockNumber = word_of_nat (length (concat L))\<rparr>"
proof -
  have "length (add_last L b) = length L" "last (add_last L b) = last L @ [b]" using assms by (simp_all add: add_last_def)
  then show ?thesis using assms by (simp add: cp_of_def concat_add_last del: concat_eq_Nil_conv)
qed

lemma chain_ok_add:
  "chain_ok C bl \<Longrightarrow> blk_ok C b \<Longrightarrow> blk_Number b = word_of_nat (length bl) \<Longrightarrow> length bl + 1 < 2 ^ 64 \<Longrightarrow> chain_ok C (bl @ [b])"
  by (auto simp: chain_ok_def nth_append less_Suc_eq)

lemma layout_small_add:
  assumes "layout_small C L" "L \<noteq> []" "length (chunk C (last L)) + length (frame (ser C b)) < 2 ^ 63"
  shows "layout_small C (add_last L b)"
  using assms in_set_butlastD[of _ L] by (auto simp: layout_small_def add_last_def)

lemma files_hold_chunk:
  assumes "files_hold files (sers C L)" "i < length L"
  shows "map_get files (int i) = Some (chunk C (L ! i))"
proof -
  have "map_get files (int i) = Some (concat (map frame (sers C L ! i)))" using assms by (simp add: files_hold_def)
  then show ?thesis using assms(2) by (simp add: chunk_sers)
qed

lemma files_hold_last:
  assumes "files_hold files (sers C L)"
  shows "map_get files (int (length L) - 1) = Some (chunk C (last L))"
proof -
  have L: "L \<noteq> []" using assms by (simp add: files_hold_def)
  then have e: "int (length L) - 1 = int (length L - 1)" by (cases L) auto
  show ?thesis unfolding e last_conv_nth[OF L] by (rule files_hold_chunk[OF assms]) (use L in simp)
qed


lemma append_frame_ok:
  assumes "map_get files w = Some c"
  shows "\<exists>files'. append_frame files w v b None None = (files', None) \<and> map_get files' = (map_get files)(w \<mapsto> c @ v @ b)"
  using assms by (simp add: append_frame_def writer_append_def update_conv')

lemma append_frame_err:
  assumes "map_get files w = Some c" "f1 \<noteq> None \<or> f2 \<noteq> None"
  shows "\<exists>files' e p. append_frame files w v b f1 f2 = (files', Some e) \<and> map_get files' = (map_get files)(w \<mapsto> c @ p)"
  using assms by (cases f1; cases f2) (auto simp: append_frame_def writer_append_def update_conv' Let_def)

lemma truncate_undo:
  assumes "map_get files' = (map_get files)(w \<mapsto> c @ p)" "map_get files w = Some c"
  shows "map_get (truncateFile files' w (int (length c))) = map_get files"
  using assms by (auto simp: truncateFile_def update_conv' fun_eq_iff)

lemma files_hold_get: "map_get files' = map_get files \<Longrightarrow> files_hold files' bss = files_hold files bss"
  by (simp add: files_hold_def)

lemma rest_empty_get: "map_get files' = map_get files \<Longrightarrow> rest_empty files' n = rest_empty files n"
  by (simp add: rest_empty_def)

lemma files_after_add:
  assumes f: "files_hold files (sers C L)" "rest_empty files (length L)" and b: "frame_ok (ser C b)"
    and u: "map_get files' = (map_get files)(int (length L) - 1 \<mapsto> chunk C (last L) @ frame (ser C b))"
  shows "files_hold files' (sers C (add_last L b))" "rest_empty files' (length (add_last L b))"
proof -
  have L: "L \<noteq> []" using f(1) by (simp add: files_hold_def)
  have len: "length (add_last L b) = length L" "last (add_last L b) = last L @ [b]" using L by (simp_all add: add_last_def)
  have nth: "add_last L b ! i = L ! i" if "i < length L - 1" for i using that by (simp add: add_last_def nth_append nth_butlast)
  show "files_hold files' (sers C (add_last L b))"
  proof (rule files_hold_intro)
    show "add_last L b \<noteq> []" by (simp add: add_last_def)
    show "\<forall>x \<in> set (concat (add_last L b)). frame_ok (ser C x)"
      using f(1) b unfolding concat_add_last[OF L] files_hold_def sers_concat by simp
    show "\<forall>i < length (add_last L b) - 1. map_get files' (int i) = Some (chunk C (add_last L b ! i))"
      using files_hold_chunk[OF f(1)] nth unfolding len u by auto
    show "map_get files' (int (length (add_last L b)) - 1) = Some (chunk C (last (add_last L b)))"
      unfolding len u by simp
  qed
  show "rest_empty files' (length (add_last L b))" using f(2) unfolding rest_empty_def len u by simp
qed

context kv_store_ok
begin

lemma addBlock_append_ok:
  assumes E: "be_K E = K" "IndexableAttrBlockNum \<in> set (be_items E)" and st: "store_inv E kview L m"
    and b: "blk_ok (be_C E) b" "blk_Number b = word_of_nat (length (concat L))" "length (concat L) + 1 < 2 ^ 64"
      "length (chunk (be_C E) (last L)) + length (frame (ser (be_C E) b)) < 2 ^ 63"
  shows "\<exists>m'. addBlock_append E m b (ser (be_C E) b) (ser_info (be_C E) b) (int (length (chunk (be_C E) (last L)))) None None = (m', None)
    \<and> store_inv E kview (add_last L b) m'"
proof -
  let ?C = "be_C E" let ?s = "ser ?C b" let ?v = "EncodeVarint (word_of_nat (length ?s))" let ?c = "chunk ?C (last L)"
  have s: "L \<noteq> []" "chain_ok ?C (concat L)" "layout_small ?C L" "files_hold (mgr_files m) (sers ?C L)" "rest_empty (mgr_files m) (length L)"
    "mgr_cpInfo m = cp_of ?C L" "mgr_writer m = int (length L) - 1" "mgr_bcInfo m = bc_of E (concat L)"
    "idx_ok (be_items E) (infos E L) (kview (mgr_db m))" using st by (simp_all add: store_inv_def)
  obtain files' where f: "append_frame (mgr_files m) (int (length L) - 1) ?v ?s None None = (files', None)"
    "map_get files' = (map_get (mgr_files m))(int (length L) - 1 \<mapsto> ?c @ ?v @ ?s)"
    using append_frame_ok[OF files_hold_last[OF s(4)]] by blast
  have fr: "frame ?s = ?v @ ?s" by (simp add: frame_def)
  note fa = files_after_add[OF s(4,5) blk_okD(3)[OF b(1)] f(2)[folded fr]]
  let ?cp = "cp_of ?C (add_last L b)"
  have cp: "\<lparr>cp_latestFileChunkSuffixNum = cp_latestFileChunkSuffixNum (cp_of ?C L),
      cp_latestFileChunksize = cp_latestFileChunksize (cp_of ?C L) + (int (length ?s) + int (length ?v)),
      cp_isChainEmpty = False, cp_lastBlockNumber = blk_Number b\<rparr> = ?cp"
    using s(1) by (simp add: cp_of_add b(2) fr) (simp add: cp_of_def)
  obtain db1 where db1: "saveCurrentInfo E (mgr_db m) ?cp False = (db1, None)"
    "kview db1 = (kview (mgr_db m))(blkMgrInfoKey \<mapsto> cp_marshal ?cp)" by (rule save_ok[OF E(1)])
  let ?i = "blk_info E b (int (length L) - 1, int (length ?c))"
  have i: "\<lparr>bii_blockNum = blk_Number b, bii_blockHash = be_hash E (block_header b),
      bii_flp = \<lparr>flp_fileSuffixNum = cp_latestFileChunkSuffixNum ?cp, flp_offset = int (length ?c), flp_bytesLength = 0\<rparr>,
      bii_txOffsets = shift_offsets (length ?v) (sbi_txOffsets (ser_info ?C b)), bii_metadata = blk_Metadata b\<rparr> = ?i"
    using s(1) by (simp add: blk_info_def Let_def fr cp_of_add)
  have tx: "\<forall>t \<in> set (bii_txOffsets ?i). ti_txID t \<noteq> ''lkMgrInfo''"
    using b(1) by (auto simp: blk_info_def Let_def shift_offsets_def blk_ok_def)
  obtain db2 where db2: "indexBlock (be_items E) K db1 ?i = (db2, None)" "idx_ok (be_items E) (infos E L @ [?i]) (kview db2)"
    "kview db2 blkMgrInfoKey = kview db1 blkMgrInfoKey"
    by (rule idx_step[OF _ _ blk_info_flags[OF b(1)] tx, of "be_items E" "infos E L" db1])
      (use idx_ok_save[OF s(9)] E(2) in \<open>auto simp: db1(2)\<close>)
  have "bci_Height (bc_of E (concat L)) = word_of_nat (length (concat L))"
    by (simp add: bc_of_def del: concat_eq_Nil_conv)
  then have bc: "updateBlockchainInfo (bc_of E (concat L)) (be_hash E (block_header b)) b = bc_of E (concat (add_last L b))"
    by (simp add: updateBlockchainInfo_def bc_of_def concat_add_last[OF s(1)] add.commute del: concat_eq_Nil_conv)
  have "chain_ok ?C (concat (add_last L b))" unfolding concat_add_last[OF s(1)] by (rule chain_ok_add[OF s(2) b(1-3)])
  then have "store_inv E kview (add_last L b) (m\<lparr>mgr_files := files', mgr_db := db2, mgr_cpInfo := ?cp, mgr_bcInfo := bc_of E (concat (add_last L b))\<rparr>)"
    using layout_small_add[OF s(3,1) b(4)] fa db2(2,3) db1(2) s(7) infos_add[OF s(1), of E b]
    by (simp add: store_inv_def length_add_last s(1))
  moreover have "addBlock_append E m b ?s (ser_info ?C b) (int (length ?c)) None None
      = (m\<lparr>mgr_files := files', mgr_db := db2, mgr_cpInfo := ?cp, mgr_bcInfo := bc_of E (concat (add_last L b))\<rparr>, None)"
    unfolding addBlock_append_def Let_def s(6,7,8) f(1) prod.case option.case cp db1(1) i E(1) db2(1) bc ..
  ultimately show ?thesis by blast
qed

lemma addBlock_append_err:
  assumes st: "store_inv E kview L m" and f: "f1 \<noteq> None \<or> f2 \<noteq> None"
  shows "\<exists>m' e. addBlock_append E m b bs info off f1 f2 = (m', Some e) \<and> store_inv E kview L m'"
proof -
  let ?C = "be_C E" let ?v = "EncodeVarint (word_of_nat (length bs))"
  have s: "files_hold (mgr_files m) (sers ?C L)" "mgr_writer m = int (length L) - 1" "mgr_cpInfo m = cp_of ?C L"
    using st by (simp_all add: store_inv_def)
  note l = files_hold_last[OF s(1)]
  obtain files' e p where a: "append_frame (mgr_files m) (int (length L) - 1) ?v bs f1 f2 = (files', Some e)"
    "map_get files' = (map_get (mgr_files m))(int (length L) - 1 \<mapsto> chunk ?C (last L) @ p)" using append_frame_err[OF l f] by blast
  note t = truncate_undo[OF a(2) l]
  have "cp_latestFileChunksize (cp_of ?C L) = int (length (chunk ?C (last L)))" by (simp add: cp_of_def)
  then show ?thesis using st a(1) files_hold_get[OF t] rest_empty_get[OF t]
    by (simp add: addBlock_append_def Let_def s store_inv_def)
qed

lemma moveToNextFile_ok:
  assumes E: "be_K E = K" and st: "store_inv E kview L m" "concat L \<noteq> []" "length L + 1 < 2 ^ 63"
  shows "\<exists>m1. moveToNextFile E m = Inr m1 \<and> store_inv E kview (L @ [[]]) m1 \<and> mgr_bcInfo m1 = mgr_bcInfo m"
proof -
  let ?C = "be_C E" let ?f = "newBlockfileWriter (mgr_files m) (int (length L))"
  have s: "L \<noteq> []" "chain_ok ?C (concat L)" "layout_small ?C L" "files_hold (mgr_files m) (sers ?C L)" "rest_empty (mgr_files m) (length L)"
    "mgr_cpInfo m = cp_of ?C L" "mgr_writer m = int (length L) - 1" "mgr_bcInfo m = bc_of E (concat L)"
    "idx_ok (be_items E) (infos E L) (kview (mgr_db m))" using st by (simp_all add: store_inv_def)
  have "map_get (mgr_files m) (int (length L)) = None \<or> map_get (mgr_files m) (int (length L)) = Some []"
    using s(5) by (simp add: rest_empty_def)
  then have g: "map_get ?f = (map_get (mgr_files m))(int (length L) \<mapsto> [])"
    by (auto simp: newBlockfileWriter_def update_conv' fun_eq_iff)
  have cp: "\<lparr>cp_latestFileChunkSuffixNum = cp_latestFileChunkSuffixNum (cp_of ?C L) + 1, cp_latestFileChunksize = 0,
      cp_isChainEmpty = False, cp_lastBlockNumber = cp_lastBlockNumber (cp_of ?C L)\<rparr> = cp_of ?C (L @ [[]])"
    using st(2) by (simp add: cp_of_def)
  have sfx: "cp_latestFileChunkSuffixNum (cp_of ?C (L @ [[]])) = int (length L)" by (simp add: cp_of_def)
  obtain db1 where db1: "saveCurrentInfo E (mgr_db m) (cp_of ?C (L @ [[]])) True = (db1, None)"
    "kview db1 = (kview (mgr_db m))(blkMgrInfoKey \<mapsto> cp_marshal (cp_of ?C (L @ [[]])))" by (rule save_ok[OF E])
  have "files_hold ?f (sers ?C (L @ [[]]))"
    using s(4) unfolding files_hold_def g by (auto simp: nth_append less_Suc_eq)
  moreover have "rest_empty ?f (length (L @ [[]]))" using s(5) unfolding rest_empty_def g by simp
  moreover have "layout_small ?C (L @ [[]])" using s(3) st(3) by (simp add: layout_small_def)
  ultimately have "store_inv E kview (L @ [[]]) (m\<lparr>mgr_files := ?f, mgr_db := db1, mgr_writer := int (length L), mgr_cpInfo := cp_of ?C (L @ [[]])\<rparr>)"
    using s idx_ok_save[OF s(9)] by (simp add: store_inv_def infos_next db1(2))
  moreover have "moveToNextFile E m = Inr (m\<lparr>mgr_files := ?f, mgr_db := db1, mgr_writer := int (length L), mgr_cpInfo := cp_of ?C (L @ [[]])\<rparr>)"
    unfolding moveToNextFile_def Let_def s(6) cp sfx db1(1) prod.case option.case ..
  ultimately show ?thesis by simp
qed

end


text \<open>The layout once a block of this size has its file.\<close>

definition room_layout :: "'s blk_env \<Rightarrow> 's blockfileMgr \<Rightarrow> Block list list \<Rightarrow> Block \<Rightarrow> Block list list" where
  "room_layout E m L b = (if needs_next_file E m (ser (be_C E) b) then L @ [[]] else L)"

text \<open>A block that may be added to a store with this layout. The first block must fit into the
  first file: \<open>first_block_in_next_file\<close> of the theory on retrieval shows why.\<close>

definition addable :: "'s blk_env \<Rightarrow> 's blockfileMgr \<Rightarrow> Block list list \<Rightarrow> Block \<Rightarrow> bool" where
  "addable E m L b \<longleftrightarrow> blk_ok (be_C E) b \<and> blk_Number b = bci_Height (mgr_bcInfo m)
     \<and> length (concat L) + 1 < 2 ^ 64 \<and> length L + 1 < 2 ^ 63 \<and> be_maxBlockfileSize E < 2 ^ 63
     \<and> (concat L \<noteq> [] \<or> \<not> needs_next_file E m (ser (be_C E) b))"

lemma concat_room: "concat (room_layout E m L b) = concat L"
  by (simp add: room_layout_def)

lemma bc_of_height: "bci_Height (bc_of E bl) = word_of_nat (length bl)"
  by (simp add: bc_of_def)

lemma length_frame_small: "frame_ok b \<Longrightarrow> length (frame b) < 2 ^ 63"
  using frame_head(1)[of b] by (simp add: frame_def frame_ok_def)

lemma room_size:
  assumes "store_inv E kview L m" "addable E m L b"
  shows "length (chunk (be_C E) (last (room_layout E m L b))) + length (frame (ser (be_C E) b)) < 2 ^ 63"
proof (cases "needs_next_file E m (ser (be_C E) b)")
  case True
  have "blk_ok (be_C E) b" using assms(2) by (simp add: addable_def)
  from length_frame_small[OF blk_okD(3)[OF this]] True show ?thesis by (simp add: room_layout_def)
next
  case False
  have "be_maxBlockfileSize E < 2 ^ 63" "mgr_cpInfo m = cp_of (be_C E) L"
    using assms by (simp_all add: addable_def store_inv_def)
  with False show ?thesis by (simp add: room_layout_def needs_next_file_def cp_of_def frame_def)
qed

context kv_store_ok
begin

lemma addBlock_room:
  assumes E: "be_K E = K" and st: "store_inv E kview L m" and a: "addable E m L b"
  shows "\<exists>m1. (if needs_next_file E m (ser (be_C E) b) then moveToNextFile E m else Inr m) = Inr m1
    \<and> store_inv E kview (room_layout E m L b) m1
    \<and> addBlock E m b f1 f2 = addBlock_append E m1 b (ser (be_C E) b) (ser_info (be_C E) b)
        (int (length (chunk (be_C E) (last (room_layout E m L b))))) f1 f2"
proof -
  have s: "serializeBlock (be_C E) b = Inr (ser (be_C E) b, ser_info (be_C E) b)" "blk_Number b = bci_Height (mgr_bcInfo m)"
    using a blk_okD(1) by (auto simp: addable_def)
  show ?thesis
  proof (cases "needs_next_file E m (ser (be_C E) b)")
    case True
    obtain m1 where "moveToNextFile E m = Inr m1" "store_inv E kview (L @ [[]]) m1"
      using moveToNextFile_ok[OF E st] a True by (auto simp: addable_def simp del: concat_eq_Nil_conv)
    with s True show ?thesis by (simp add: addBlock_def room_layout_def)
  next
    case False
    have "cp_latestFileChunksize (mgr_cpInfo m) = int (length (chunk (be_C E) (last L)))"
      using st by (simp add: store_inv_def cp_of_def)
    with s st False show ?thesis by (simp add: addBlock_def room_layout_def)
  qed
qed

lemma addBlock_ok:
  assumes E: "be_K E = K" "IndexableAttrBlockNum \<in> set (be_items E)" and st: "store_inv E kview L m" and a: "addable E m L b"
  shows "\<exists>m'. addBlock E m b None None = (m', None) \<and> store_inv E kview (add_last (room_layout E m L b) b) m'"
proof -
  obtain m1 where m1: "store_inv E kview (room_layout E m L b) m1" "addBlock E m b None None = addBlock_append E m1 b (ser (be_C E) b)
      (ser_info (be_C E) b) (int (length (chunk (be_C E) (last (room_layout E m L b))))) None None"
    using addBlock_room[OF E(1) st a] by blast
  have "blk_Number b = word_of_nat (length (concat (room_layout E m L b)))"
    using a st by (simp add: addable_def store_inv_def concat_room bc_of_height)
  moreover have "blk_ok (be_C E) b" "length (concat (room_layout E m L b)) + 1 < 2 ^ 64"
    using a by (simp_all add: addable_def concat_room)
  ultimately show ?thesis using addBlock_append_ok[OF E m1(1) _ _ _ room_size[OF st a]] m1(2) by metis
qed

lemma addBlock_fault:
  assumes E: "be_K E = K" and st: "store_inv E kview L m" and a: "addable E m L b" and f: "f1 \<noteq> None \<or> f2 \<noteq> None"
  shows "\<exists>m' e. addBlock E m b f1 f2 = (m', Some e) \<and> store_inv E kview (room_layout E m L b) m'"
  using addBlock_room[OF E st a, of f1 f2] addBlock_append_err[OF _ f] by metis

end

section \<open>Crashes\<close>

text \<open>The files and the database as a crash during \<^verbatim>\<open>addBlock\<close> can leave them, in the order of the
  writes: the next file created, the checkpoint that names it saved, a part of the frame
  written, the new checkpoint saved, the index written.\<close>

inductive addBlock_crash :: "'s blk_env \<Rightarrow> 's blockfileMgr \<Rightarrow> Block \<Rightarrow> blockfiles \<Rightarrow> 's \<Rightarrow> bool" for E m b where
  crash_before: "addBlock_crash E m b (mgr_files m) (mgr_db m)"
| crash_created: "needs_next_file E m (ser (be_C E) b) \<Longrightarrow>
    addBlock_crash E m b (newBlockfileWriter (mgr_files m) (cp_latestFileChunkSuffixNum (mgr_cpInfo m) + 1)) (mgr_db m)"
| crash_writing: "(if needs_next_file E m (ser (be_C E) b) then moveToNextFile E m else Inr m) = Inr m1 \<Longrightarrow>
    map_get (mgr_files m1) (mgr_writer m1) = Some c \<Longrightarrow>
    addBlock_crash E m b (map_put (mgr_writer m1) (c @ take k (frame (ser (be_C E) b))) (mgr_files m1)) (mgr_db m1)"
| crash_saved: "(if needs_next_file E m (ser (be_C E) b) then moveToNextFile E m else Inr m) = Inr m1 \<Longrightarrow>
    map_get (mgr_files m1) (mgr_writer m1) = Some c \<Longrightarrow>
    saveCurrentInfo E (mgr_db m1)
      \<lparr>cp_latestFileChunkSuffixNum = cp_latestFileChunkSuffixNum (mgr_cpInfo m1),
       cp_latestFileChunksize = cp_latestFileChunksize (mgr_cpInfo m1) + int (length (frame (ser (be_C E) b))),
       cp_isChainEmpty = False, cp_lastBlockNumber = blk_Number b\<rparr> False = (db', None) \<Longrightarrow>
    addBlock_crash E m b (map_put (mgr_writer m1) (c @ frame (ser (be_C E) b)) (mgr_files m1)) db'"
| crash_after: "addBlock E m b None None = (m', None) \<Longrightarrow> addBlock_crash E m b (mgr_files m') (mgr_db m')"


lemma disk_intro:
  assumes st: "store_inv E kview L m" and p: "cut_frame p"
    and f: "\<And>i. i < int (length L) - 1 \<Longrightarrow> map_get files i = map_get (mgr_files m) i"
      "map_get files (int (length L) - 1) = Some (chunk (be_C E) (last L) @ p)" "rest_empty files (length L)"
  shows "disk_inv E kview L (length (last L)) p (length (concat L)) files (mgr_db m)"
proof -
  have s: "L \<noteq> []" "files_hold (mgr_files m) (sers (be_C E) L)" using st by (simp_all add: store_inv_def)
  have "map_get files (int i) = Some (chunk (be_C E) (L ! i))" if "i < length L - 1" for i
  proof -
    have "int i < int (length L) - 1" "i < length L" using that by linarith+
    then show ?thesis using f(1) files_hold_chunk[OF s(2)] by metis
  qed
  then show ?thesis using st p f(2,3) s(1) by (simp add: disk_inv_def store_inv_def)
qed

lemma disk_added:
  assumes st: "store_inv E kview L m" and b: "blk_ok (be_C E) b" "blk_Number b = word_of_nat (length (concat L))"
      "length (concat L) + 1 < 2 ^ 64" "length (chunk (be_C E) (last L)) + length (frame (ser (be_C E) b)) < 2 ^ 63"
    and f: "map_get files = (map_get (mgr_files m))(int (length L) - 1 \<mapsto> chunk (be_C E) (last L) @ frame (ser (be_C E) b))"
    and n: "n \<le> length (last L) + 1"
      "kview db blkMgrInfoKey = Some (cp_marshal (cp_of (be_C E) (butlast L @ [take n (last L @ [b])])))"
    and ix: "idx_ok (be_items E) (infos E L) (kview db)"
  shows "disk_inv E kview (add_last L b) n [] (length (concat L)) files db"
proof -
  let ?C = "be_C E" let ?A = "add_last L b"
  have s: "L \<noteq> []" "files_hold (mgr_files m) (sers ?C L)" "rest_empty (mgr_files m) (length L)" "chain_ok ?C (concat L)" "layout_small ?C L"
    using st by (simp_all add: store_inv_def)
  have l: "length ?A = length L" "last ?A = last L @ [b]" "butlast ?A = butlast L" "?A \<noteq> []" using s(1) by (simp_all add: add_last_def)
  note fa = files_after_add[OF s(2,3) blk_okD(3)[OF b(1)] f]
  have ch: "chain_ok ?C (concat ?A)" unfolding concat_add_last[OF s(1)] by (rule chain_ok_add[OF s(4) b(1-3)])
  have fc: "map_get files (int i) = Some (chunk ?C (?A ! i))" if "i < length ?A - 1" for i
  proof -
    have "i < length ?A" using that by linarith
    then show ?thesis by (rule files_hold_chunk[OF fa(1)])
  qed
  have "take (length (concat L)) (infos E ?A) = infos E L" using infos_add[OF s(1), of E b] length_infos[of E L] by simp
  then have "idx_ok (be_items E) (take (length (concat L)) (infos E ?A)) (kview db)" using ix by simp
  moreover have "length (concat L) \<le> length (concat ?A)" by (simp add: concat_add_last[OF s(1)])
  moreover have "n \<le> length (last ?A)" "kview db blkMgrInfoKey = Some (cp_marshal (cp_of ?C (butlast ?A @ [take n (last ?A)])))"
    using n by (simp_all add: l(2,3))
  ultimately show ?thesis
    using l(4) ch layout_small_add[OF s(5,1) b(4)] fc files_hold_last[OF fa(1)] fa(2) unfolding disk_inv_def by simp
qed

context kv_store_ok
begin

lemma addBlock_crash_disk:
  assumes E: "be_K E = K" "IndexableAttrBlockNum \<in> set (be_items E)" and st: "store_inv E kview L m" and a: "addable E m L b"
    and c: "addBlock_crash E m b files db"
  shows "\<exists>L' n p j. disk_inv E kview L' n p j files db \<and> (concat L' = concat L \<or> concat L' = concat L @ [b])"
proof -
  let ?C = "be_C E" let ?R = "room_layout E m L b" let ?w = "int (length ?R) - 1" let ?s = "ser ?C b"
  have inv: "cp_latestFileChunkSuffixNum (mgr_cpInfo m) + 1 = int (length L)" "files_hold (mgr_files m) (sers ?C L)"
    "rest_empty (mgr_files m) (length L)" using st by (simp_all add: store_inv_def cp_of_def)
  obtain m1 where m1: "(if needs_next_file E m ?s then moveToNextFile E m else Inr m) = Inr m1" "store_inv E kview ?R m1"
    using addBlock_room[OF E(1) st a] by blast
  have i1: "mgr_writer m1 = ?w" "files_hold (mgr_files m1) (sers ?C ?R)" "rest_empty (mgr_files m1) (length ?R)" "mgr_cpInfo m1 = cp_of ?C ?R"
    "?R \<noteq> []" "kview (mgr_db m1) blkMgrInfoKey = Some (cp_marshal (cp_of ?C ?R))"
    "idx_ok (be_items E) (infos E ?R) (kview (mgr_db m1))" using m1(2) by (simp_all add: store_inv_def)
  have bR: "blk_ok ?C b" "blk_Number b = word_of_nat (length (concat ?R))" "length (concat ?R) + 1 < 2 ^ 64"
    using a st by (simp_all add: addable_def concat_room store_inv_def bc_of_height)
  note added = disk_added[OF m1(2) bR room_size[OF st a]]
  show ?thesis using c
  proof cases
    case crash_before
    have "disk_inv E kview L (length (last L)) [] (length (concat L)) (mgr_files m) (mgr_db m)"
      by (rule disk_intro[OF st]) (use inv files_hold_last[OF inv(2)] in auto)
    then show ?thesis using crash_before by blast
  next
    case crash_created
    have g: "map_get files f = (if f = int (length L) then Some [] else map_get (mgr_files m) f)" for f
      using inv(1,3) crash_created(1) by (auto simp: newBlockfileWriter_def update_conv' rest_empty_def split: option.split)
    have "disk_inv E kview L (length (last L)) [] (length (concat L)) files (mgr_db m)"
      by (rule disk_intro[OF st]) (use inv(3) files_hold_last[OF inv(2)] in \<open>auto simp: g rest_empty_def\<close>)
    then show ?thesis using crash_created(2) by blast
  next
    case (crash_writing m1' c k)
    then have m1': "m1' = m1" using m1(1) by simp
    have cc: "c = chunk ?C (last ?R)" using crash_writing(4) files_hold_last[OF i1(2)] i1(1) m1' by simp
    have g: "map_get files = (map_get (mgr_files m1))(?w \<mapsto> chunk ?C (last ?R) @ take k (frame ?s))"
      using crash_writing(1) cc i1(1) m1' by (simp add: update_conv')
    show ?thesis
    proof (cases "k < length (frame ?s)")
      case True
      then have "cut_frame (take k (frame ?s))" using blk_okD(3)[OF bR(1)] by (auto simp: cut_frame_def)
      then have "disk_inv E kview ?R (length (last ?R)) (take k (frame ?s)) (length (concat ?R)) files (mgr_db m1)"
        by (rule disk_intro[OF m1(2)]) (use i1(3) in \<open>auto simp: g rest_empty_def\<close>)
      then show ?thesis using crash_writing(2) m1' concat_room by metis
    next
      case False
      then have "take k (frame ?s) = frame ?s" by simp
      with g i1 have "disk_inv E kview (add_last ?R b) (length (last ?R)) [] (length (concat ?R)) files (mgr_db m1)"
        by (intro added) simp_all
      then show ?thesis using crash_writing(2) m1' concat_add_last[OF i1(5)] concat_room by metis
    qed
  next
    case (crash_saved m1' c)
    then have m1': "m1' = m1" using m1(1) by simp
    have cc: "c = chunk ?C (last ?R)" using crash_saved(3) files_hold_last[OF i1(2)] i1(1) m1' by simp
    have g: "map_get files = (map_get (mgr_files m1))(?w \<mapsto> chunk ?C (last ?R) @ frame ?s)"
      using crash_saved(1) cc i1(1) m1' by (simp add: update_conv')
    have "saveCurrentInfo E (mgr_db m1) (cp_of ?C (add_last ?R b)) False = (db, None)"
      using crash_saved(4) m1' i1(4) bR(2) by (simp add: cp_of_add[OF i1(5)]) (simp add: cp_of_def)
    then have v: "kview db = (kview (mgr_db m1))(blkMgrInfoKey \<mapsto> cp_marshal (cp_of ?C (add_last ?R b)))"
      using kvs_Put by (simp add: saveCurrentInfo_def E(1))
    then have "disk_inv E kview (add_last ?R b) (length (last ?R) + 1) [] (length (concat ?R)) files db"
      using g i1(7) by (intro added) (simp_all add: add_last_def idx_ok_save)
    then show ?thesis using concat_add_last[OF i1(5)] concat_room by metis
  next
    case (crash_after m')
    from addBlock_ok[OF E st a] crash_after have st': "store_inv E kview (add_last ?R b) m'" by simp
    then have f: "files_hold (mgr_files m') (sers ?C (add_last ?R b))" "rest_empty (mgr_files m') (length (add_last ?R b))"
      by (simp_all add: store_inv_def)
    have "disk_inv E kview (add_last ?R b) (length (last (add_last ?R b))) [] (length (concat (add_last ?R b))) (mgr_files m') (mgr_db m')"
      by (rule disk_intro[OF st']) (use f files_hold_last[OF f(1)] in auto)
    then show ?thesis using crash_after(1,2) concat_add_last[OF i1(5)] concat_room by metis
  qed
qed

end


end
