(* ===== verification/Block_Retrieval.thy ===== *)
theory Block_Retrieval
  imports Block_Recovery
begin

text \<open>
  Retrieval from the block store: what the lookups by number, by transaction number and by
  transaction identifier return on a store that satisfies the invariant.
\<close>

section \<open>Retrieval\<close>

lemma find_rev_last:
  assumes "k < length xs" "P (xs ! k)" "\<And>k'. k < k' \<Longrightarrow> k' < length xs \<Longrightarrow> \<not> P (xs ! k')"
  shows "find P (rev xs) = Some (xs ! k)"
proof -
  have "rev xs = rev (take k xs @ xs ! k # drop (Suc k) xs)" by (rule arg_cong[OF id_take_nth_drop[OF assms(1)]])
  then have e: "rev xs = rev (drop (Suc k) xs) @ xs ! k # rev (take k xs)" by (simp only: rev_append rev.simps append_assoc append.simps)
  have "\<not> P x" if m: "x \<in> set (drop (Suc k) xs)" for x
  proof -
    obtain i where i: "i < length (drop (Suc k) xs)" "x = drop (Suc k) xs ! i" using m unfolding in_set_conv_nth by auto
    then show ?thesis using assms(3)[of "Suc k + i"] by simp
  qed
  then have "find P (rev (drop (Suc k) xs)) = None" by (simp add: find_None_iff)
  moreover have "find P (ys @ zs) = (case find P ys of None \<Rightarrow> find P zs | Some y \<Rightarrow> Some y)" for ys zs
    by (induction ys) auto
  ultimately show ?thesis using assms(2) unfolding e by simp
qed

text \<open>The last transaction of the chain with an identifier: the \<open>i\<close>-th of block \<open>k\<close>.\<close>

definition last_with_txid :: "tx_codec \<Rightarrow> Block list \<Rightarrow> string \<Rightarrow> nat \<Rightarrow> nat \<Rightarrow> bool" where
  "last_with_txid C bl txID k i \<longleftrightarrow> k < length bl \<and> i < length (blk_Data (bl ! k)) \<and> extractTxID C (blk_Data (bl ! k) ! i) = Inr txID
     \<and> (\<forall>k' i'. k' < length bl \<longrightarrow> i' < length (blk_Data (bl ! k')) \<longrightarrow> k < k' \<or> k = k' \<and> i < i' \<longrightarrow>
          extractTxID C (blk_Data (bl ! k') ! i') \<noteq> Inr txID)"

lemma last_tx_eq:
  assumes "i < length offs" "ti_txID (offs ! i) = txID" "\<And>i'. i < i' \<Longrightarrow> i' < length offs \<Longrightarrow> ti_txID (offs ! i') \<noteq> txID"
  shows "last_tx offs txID = Some (i, offs ! i)"
proof -
  have "find (\<lambda>(i, t). ti_txID t = txID) (rev (enumerate 0 offs)) = Some (enumerate 0 offs ! i)"
    by (rule find_rev_last) (use assms in \<open>auto simp: nth_enumerate_eq\<close>)
  then show ?thesis using assms(1) by (simp add: last_tx_def nth_enumerate_eq)
qed

lemma blk_info_txids:
  assumes "blk_ok (be_C E) b"
  shows "length (bii_txOffsets (blk_info E b p)) = length (blk_Data b)"
    "i < length (blk_Data b) \<Longrightarrow> extractTxID (be_C E) (blk_Data b ! i) = Inr (ti_txID (bii_txOffsets (blk_info E b p) ! i))"
  using blk_tx_at(2)[OF assms] by (simp_all add: blk_info_def Let_def shift_offsets_def blk_okD(8)[OF assms])

lemma reader_read_at:
  assumes "map_get files f = Some c" "off + n \<le> length c"
  shows "reader_read files f (int off) (int n) = Inr (take n (drop off c))"
proof -
  have "\<not> int (length c) < int off + int n" using assms(2) by linarith
  then show ?thesis using assms(1) by (simp add: reader_read_def file_open_def)
qed

lemma fetch_tx:
  assumes f: "files_hold files (sers C L)" and k: "k < length (concat L)" and b: "blk_ok C (concat L ! k)"
    and i: "i < length (blk_Data (concat L ! k))" and C: "C = be_C E"
  shows "fetchTransactionEnvelope C files (tx_flp (bii_flp (infos E L ! k)) (bii_txOffsets (infos E L ! k) ! i))
    = GetEnvelopeFromBlock C (blk_Data (concat L ! k) ! i)"
proof -
  let ?b = "concat L ! k" let ?s = "ser C ?b" let ?t = "ti_loc (sbi_txOffsets (ser_info C ?b) ! i)"
  let ?v = "EncodeVarint (word_of_nat (length ?s))" let ?r = "EncodeRawBytes (blk_Data ?b ! i)"
  have kS: "k < length (concat (sers C L))" "concat (sers C L) ! k = ?s" using k by (simp_all add: sers_concat)
  obtain f pre post where p: "pos_from 0 0 (sers C L) ! k = (f, int (length pre))" "map_get files f = Some (pre @ frame ?s @ post)"
    using files_hold_at[OF f kS(1)] kS(2) by auto
  note t = blk_tx_at[OF b i]
  have flp: "tx_flp (bii_flp (infos E L ! k)) (bii_txOffsets (infos E L ! k) ! i) = \<lparr>flp_fileSuffixNum = f,
      flp_offset = int (length pre + (length ?v + lp_offset ?t)), flp_bytesLength = int (length ?r)\<rparr>"
    using blk_info_tx[OF b[unfolded C] i, of "(f, int (length pre))"] p(1) k C by (simp add: nth_infos frame_def)
  have "take (length ?r) (drop (length pre + (length ?v + lp_offset ?t)) (pre @ frame ?s @ post)) = take (length ?r) (drop (lp_offset ?t) ?s @ post)"
    using t(3,4) by (simp add: frame_def)
  also have "\<dots> = ?r" using t(1,3,4) by simp
  finally have "fetchRawBytes files (tx_flp (bii_flp (infos E L ! k)) (bii_txOffsets (infos E L ! k) ! i)) = Inr ?r"
    using reader_read_at[OF p(2), of "length pre + (length ?v + lp_offset ?t)" "length ?r"] t(3,4)
    unfolding flp fetchRawBytes_def by (simp only: fileLocPointer.simps frame_def length_append)
  then show ?thesis by (simp add: fetchTransactionEnvelope_def EncodeRawBytes_def)
qed



text \<open>What the clients of the store see of a chain.\<close>

definition serves :: "'s blk_env \<Rightarrow> 's blockfileMgr \<Rightarrow> Block list \<Rightarrow> bool" where
  "serves E m bl \<longleftrightarrow> bci_Height (mgr_bcInfo m) = word_of_nat (length bl)
     \<and> (\<forall>n. n \<noteq> MaxUint64 \<longrightarrow> retrieveBlockByNumber E m n = (if unat n < length bl then Inr (bl ! unat n) else Inl ErrNotFoundInIndex))
     \<and> (bl \<noteq> [] \<longrightarrow> retrieveBlockByNumber E m MaxUint64 = Inr (last bl))
     \<and> (IndexableAttrBlockNumTranNum \<in> set (be_items E) \<longrightarrow> (\<forall>k < length bl. \<forall>i < length (blk_Data (bl ! k)).
          retrieveTransactionByBlockNumTranNum E m (word_of_nat k) (word_of_nat i) = GetEnvelopeFromBlock (be_C E) (blk_Data (bl ! k) ! i)))
     \<and> (\<forall>txID k i. last_with_txid (be_C E) bl txID k i \<longrightarrow>
          (IndexableAttrBlockTxID \<in> set (be_items E) \<longrightarrow> retrieveBlockByTxID E m txID = Inr (bl ! k))
          \<and> (IndexableAttrTxID \<in> set (be_items E) \<longrightarrow>
               retrieveTransactionByID E m txID = GetEnvelopeFromBlock (be_C E) (blk_Data (bl ! k) ! i))
          \<and> (IndexableAttrTxValidationCode \<in> set (be_items E) \<longrightarrow>
               retrieveTxValidationCodeByTxID E m txID = Inr (uint (blk_flags (bl ! k) ! i))))"

lemma infos_txids:
  assumes "chain_ok (be_C E) (concat L)" "k < length (concat L)"
  shows "length (bii_txOffsets (infos E L ! k)) = length (blk_Data (concat L ! k))"
    "i < length (blk_Data (concat L ! k)) \<Longrightarrow>
       extractTxID (be_C E) (blk_Data (concat L ! k) ! i) = Inr (ti_txID (bii_txOffsets (infos E L ! k) ! i))"
proof -
  have b: "blk_ok (be_C E) (concat L ! k)" using assms by (simp add: chain_ok_def)
  show "length (bii_txOffsets (infos E L ! k)) = length (blk_Data (concat L ! k))"
    unfolding nth_infos[OF assms(2)] by (rule blk_info_txids(1)[OF b])
  show "i < length (blk_Data (concat L ! k)) \<Longrightarrow>
      extractTxID (be_C E) (blk_Data (concat L ! k) ! i) = Inr (ti_txID (bii_txOffsets (infos E L ! k) ! i))"
    unfolding nth_infos[OF assms(2)] by (rule blk_info_txids(2)[OF b])
qed

lemma last_tx_infos:
  assumes ch: "chain_ok (be_C E) (concat L)" and l: "last_with_txid (be_C E) (concat L) txID k i"
  shows "last_tx (bii_txOffsets (infos E L ! k)) txID = Some (i, bii_txOffsets (infos E L ! k) ! i)"
    "k < k' \<Longrightarrow> k' < length (concat L) \<Longrightarrow> last_tx (bii_txOffsets (infos E L ! k')) txID = None"
proof -
  have k: "k < length (concat L)" "i < length (blk_Data (concat L ! k))" "extractTxID (be_C E) (blk_Data (concat L ! k) ! i) = Inr txID"
    and later: "\<And>k' i'. k' < length (concat L) \<Longrightarrow> i' < length (blk_Data (concat L ! k')) \<Longrightarrow> k < k' \<or> k = k' \<and> i < i' \<Longrightarrow>
      extractTxID (be_C E) (blk_Data (concat L ! k') ! i') \<noteq> Inr txID" using l by (auto simp: last_with_txid_def)
  have ids: "ti_txID (bii_txOffsets (infos E L ! k') ! i') \<noteq> txID"
    if "k' < length (concat L)" "i' < length (bii_txOffsets (infos E L ! k'))" "k < k' \<or> k = k' \<and> i < i'" for k' i'
    using later[OF that(1) _ that(3)] infos_txids[OF ch that(1)] that(2) by auto
  show "last_tx (bii_txOffsets (infos E L ! k)) txID = Some (i, bii_txOffsets (infos E L ! k) ! i)"
    by (rule last_tx_eq) (use k ids infos_txids[OF ch k(1)] in auto)
  assume "k < k'" "k' < length (concat L)"
  then show "last_tx (bii_txOffsets (infos E L ! k')) txID = None"
    unfolding last_tx_None all_set_conv_all_nth using ids by blast
qed

context kv_store_ok
begin

lemma idx_view_txid:
  assumes ch: "chain_ok (be_C E) (concat L)" and l: "last_with_txid (be_C E) (concat L) txID k i"
    and ix: "idx_ok items (infos E L) (kview s)" and key: "key \<noteq> blkMgrInfoKey"
    and p: "\<And>info. map_of (rev (info_pairs items info)) key = map_option (\<lambda>(i, t). Some (g info i t)) (last_tx (bii_txOffsets info) txID)"
  shows "kview s key = Some (g (infos E L ! k) i (bii_txOffsets (infos E L ! k) ! i))"
proof -
  have k: "k < length (infos E L)" using l by (simp add: last_with_txid_def)
  let ?P = "\<lambda>info. last_tx (bii_txOffsets info) txID \<noteq> None"
  let ?g = "\<lambda>info. (case the (last_tx (bii_txOffsets info) txID) of (i, t) \<Rightarrow> g info i t)"
  have "idx_view items (infos E L) key = map_option ?g (find ?P (rev (infos E L)))"
  proof (intro idx_view_find ballI)
    show "map_of (rev (info_pairs items info)) key = (if ?P info then Some (Some (?g info)) else None)" for info
      by (cases "last_tx (bii_txOffsets info) txID") (simp_all add: p case_prod_unfold)
  qed
  moreover have "find ?P (rev (infos E L)) = Some (infos E L ! k)"
    by (rule find_rev_last[OF k]) (use last_tx_infos[OF ch l] in auto)
  ultimately show ?thesis using ix key last_tx_infos(1)[OF ch l] by (simp add: idx_ok_def)
qed

lemma by_txid:
  assumes E: "be_K E = K" and st: "store_inv E kview L m" and l: "last_with_txid (be_C E) (concat L) txID k i"
  shows "IndexableAttrBlockTxID \<in> set (be_items E) \<Longrightarrow> txID \<noteq> ''lkMgrInfo'' \<Longrightarrow> retrieveBlockByTxID E m txID = Inr (concat L ! k)"
    and "IndexableAttrTxID \<in> set (be_items E) \<Longrightarrow>
      retrieveTransactionByID E m txID = GetEnvelopeFromBlock (be_C E) (blk_Data (concat L ! k) ! i)"
    and "IndexableAttrTxValidationCode \<in> set (be_items E) \<Longrightarrow>
      retrieveTxValidationCodeByTxID E m txID = Inr (uint (blk_flags (concat L ! k) ! i))"
proof -
  have s: "chain_ok (be_C E) (concat L)" "layout_small (be_C E) L" "files_hold (mgr_files m) (sers (be_C E) L)"
    "idx_ok (be_items E) (infos E L) (kview (mgr_db m))" using st by (simp_all add: store_inv_def)
  have k: "k < length (concat L)" "i < length (blk_Data (concat L ! k))" using l by (simp_all add: last_with_txid_def)
  have b: "blk_ok (be_C E) (concat L ! k)" using s(1) k(1) by (simp add: chain_ok_def)
  have sm: "flp_small (bii_flp (infos E L ! k))" "flp_small (tx_flp (bii_flp (infos E L ! k)) (bii_txOffsets (infos E L ! k) ! i))"
    using infos_small(1)[OF s(1,2) k(1)] k(2) blk_info_txids(1)[OF b] by (simp_all add: idx_small_def nth_infos[OF k(1)])
  note v = idx_view_txid[OF s(1) l s(4)]
  show "retrieveBlockByTxID E m txID = Inr (concat L ! k)" if "IndexableAttrBlockTxID \<in> set (be_items E)" "txID \<noteq> ''lkMgrInfo''"
  proof -
    have "constructBlockTxIDKey txID \<noteq> blkMgrInfoKey" using that(2) by (simp add: blkMgrInfoKey_txid txid_keys_inj)
    from v[OF this, of "\<lambda>info _ _. flp_marshal (bii_flp info)"] that(1)
    have "kview (mgr_db m) (constructBlockTxIDKey txID) = Some (flp_marshal (bii_flp (infos E L ! k)))"
      by (simp add: info_pairs_def index_pairs_block_txid case_prod_unfold)
    then show ?thesis using that(1) sm(1) fetch_block_bytes[OF s(3) k(1)] blk_okD(4)[OF b]
      by (simp add: retrieveBlockByTxID_def getBlockLocByTxID_def get_loc_kview E fetchBlock_def nth_infos[OF k(1)])
  qed
  show "retrieveTransactionByID E m txID = GetEnvelopeFromBlock (be_C E) (blk_Data (concat L ! k) ! i)"
    if "IndexableAttrTxID \<in> set (be_items E)"
  proof -
    from v[of "constructTxIDKey txID" "\<lambda>info _ t. flp_marshal (tx_flp (bii_flp info) t)"] that
    have "kview (mgr_db m) (constructTxIDKey txID)
        = Some (flp_marshal (tx_flp (bii_flp (infos E L ! k)) (bii_txOffsets (infos E L ! k) ! i)))"
      by (simp add: info_pairs_def index_pairs_txid)
    then show ?thesis using that sm(2) fetch_tx[OF s(3) k(1) b k(2) refl]
      by (simp add: retrieveTransactionByID_def getTxLoc_def get_loc_kview E)
  qed
  show "retrieveTxValidationCodeByTxID E m txID = Inr (uint (blk_flags (concat L ! k) ! i))"
    if "IndexableAttrTxValidationCode \<in> set (be_items E)"
  proof -
    from v[of "constructTxValidationCodeIDKey txID" "\<lambda>info i t. [bii_metadata info ! BlockMetadataIndex_TRANSACTIONS_FILTER ! i]"] that
    have "kview (mgr_db m) (constructTxValidationCodeIDKey txID) = Some [blk_flags (concat L ! k) ! i]"
      by (simp add: info_pairs_def index_pairs_code nth_infos[OF k(1)] blk_flags_def)
    then show ?thesis using that by (simp add: retrieveTxValidationCodeByTxID_def getTxValidationCodeByTxID_def E Get_kview)
  qed
qed

end


context kv_store_ok
begin

lemma by_number:
  assumes E: "be_K E = K" "IndexableAttrBlockNum \<in> set (be_items E)" and st: "store_inv E kview L m"
  shows "n \<noteq> MaxUint64 \<Longrightarrow> retrieveBlockByNumber E m n
      = (if unat n < length (concat L) then Inr (concat L ! unat n) else Inl ErrNotFoundInIndex)"
    and "concat L \<noteq> [] \<Longrightarrow> retrieveBlockByNumber E m MaxUint64 = Inr (last (concat L))"
proof -
  have s: "chain_ok (be_C E) (concat L)" "layout_small (be_C E) L" "files_hold (mgr_files m) (sers (be_C E) L)"
    "idx_ok (be_items E) (infos E L) (kview (mgr_db m))" "mgr_bcInfo m = bc_of E (concat L)" using st by (simp_all add: store_inv_def)
  have f: "res_bind (getBlockLocByBlockNum (be_items E) K (mgr_db m) n) (fetchBlock (be_C E) (mgr_files m))
      = (if unat n < length (concat L) then Inr (concat L ! unat n) else Inl ErrNotFoundInIndex)" for n
    using fetch_block_bytes[OF s(3)] blk_okD(4)[OF chain_ok_mem[OF s(1) nth_mem]]
    by (simp add: loc_all[OF E(2) s(1,2,4)] fetchBlock_def)
  show "n \<noteq> MaxUint64 \<Longrightarrow> retrieveBlockByNumber E m n
      = (if unat n < length (concat L) then Inr (concat L ! unat n) else Inl ErrNotFoundInIndex)"
    using f by (simp add: retrieveBlockByNumber_def E(1))
  assume ne: "concat L \<noteq> []"
  let ?k = "length (concat L) - 1"
  have k: "?k < length (concat L)" "length (concat L) < 2 ^ 64" using ne s(1) by (auto simp: chain_ok_def)
  have "?k + 1 = length (concat L)" using k(1) by linarith
  then have "bci_Height (mgr_bcInfo m) = word_of_nat ?k + (1 :: uint64)"
    unfolding s(5) bc_of_height by (metis of_nat_1 of_nat_add)
  then have h: "bci_Height (mgr_bcInfo m) - 1 = word_of_nat ?k" by (simp only: add_diff_cancel_right')
  have "?k < 2 ^ 64" using k by linarith
  then have u: "unat (word_of_nat ?k :: uint64) = ?k" by (simp only: unat_of_nat) simp
  show "retrieveBlockByNumber E m MaxUint64 = Inr (last (concat L))"
    using f[of "bci_Height (mgr_bcInfo m) - 1"] k(1) unfolding retrieveBlockByNumber_def Let_def E(1) last_conv_nth[OF ne] h u
    by (simp only: if_True simp_thms)
qed

lemma by_tran:
  assumes E: "be_K E = K" "IndexableAttrBlockNumTranNum \<in> set (be_items E)" and st: "store_inv E kview L m"
    and k: "k < length (concat L)" and i: "i < length (blk_Data (concat L ! k))"
  shows "retrieveTransactionByBlockNumTranNum E m (word_of_nat k) (word_of_nat i)
    = GetEnvelopeFromBlock (be_C E) (blk_Data (concat L ! k) ! i)"
proof -
  have s: "chain_ok (be_C E) (concat L)" "layout_small (be_C E) L" "files_hold (mgr_files m) (sers (be_C E) L)"
    "idx_ok (be_items E) (infos E L) (kview (mgr_db m))" using st by (simp_all add: store_inv_def)
  have b: "blk_ok (be_C E) (concat L ! k)" using s(1) k by (simp add: chain_ok_def)
  have sm: "\<forall>k < length (infos E L). idx_small (infos E L ! k)" using infos_small(1)[OF s(1,2)] by simp
  have len: "\<forall>k < length (infos E L). length (bii_txOffsets (infos E L ! k)) \<le> 2 ^ 64" using sm by (simp add: idx_small_def)
  have ui: "unat (word_of_nat i :: uint64) = i"
  proof -
    have "length (blk_Data (concat L ! k)) < 2 ^ 64" using blk_okD(2)[OF b] by (simp add: block_small_def)
    then show ?thesis using i by (simp add: unat_of_nat)
  qed
  let ?n = "word_of_nat k :: uint64" and ?j = "word_of_nat i :: uint64"
  let ?P = "\<lambda>info. ?n = bii_blockNum info \<and> unat ?j < length (bii_txOffsets info)"
  let ?g = "\<lambda>info. flp_marshal (tx_flp (bii_flp info) (bii_txOffsets info ! unat ?j))"
  have "idx_view (be_items E) (infos E L) (tran_key ?n ?j) = map_option ?g (find ?P (rev (infos E L)))"
  proof (rule idx_view_find, unfold all_set_conv_all_nth, intro allI impI)
    fix k assume "k < length (infos E L)"
    then show "map_of (rev (info_pairs (be_items E) (infos E L ! k))) (tran_key ?n ?j)
        = (if ?P (infos E L ! k) then Some (Some (?g (infos E L ! k))) else None)"
      using len E(2) by (simp add: info_pairs_def index_pairs_tran)
  qed
  moreover have "find ?P (rev (infos E L)) = Some (infos E L ! k)"
  proof (rule find_rev_last)
    show "k < length (infos E L)" using k by simp
    show "?P (infos E L ! k)" using infos_num[OF s(1) k] infos_txids(1)[OF s(1) k] i ui by simp
    show "\<not> ?P (infos E L ! k')" if "k < k'" "k' < length (infos E L)" for k'
    proof -
      have "unat (word_of_nat k :: uint64) = k" "unat (word_of_nat k' :: uint64) = k'"
        using that s(1) by (simp_all add: chain_ok_def unat_of_nat)
      then have "word_of_nat k \<noteq> (word_of_nat k' :: uint64)" using that(1) by (metis less_irrefl)
      then show ?thesis using infos_num[OF s(1), of k'] that(2) by simp
    qed
  qed
  ultimately have "kview (mgr_db m) (tran_key ?n ?j) = Some (?g (infos E L ! k))" using s(4) by (simp add: idx_ok_def)
  moreover have "flp_small (tx_flp (bii_flp (infos E L ! k)) (bii_txOffsets (infos E L ! k) ! i))"
    using sm k infos_txids(1)[OF s(1) k] i by (simp add: idx_small_def)
  ultimately show ?thesis using fetch_tx[OF s(3) k b i refl] E(2)
    by (simp add: retrieveTransactionByBlockNumTranNum_def getTXLocByBlockNumTranNum_def get_loc_kview E(1) ui)
qed

theorem store_serves:
  assumes E: "be_K E = K" "IndexableAttrBlockNum \<in> set (be_items E)" and st: "store_inv E kview L m"
  shows "serves E m (concat L)"
proof -
  have "chain_ok (be_C E) (concat L)" "mgr_bcInfo m = bc_of E (concat L)" using st by (simp_all add: store_inv_def)
  then have "txID \<noteq> ''lkMgrInfo''" if "last_with_txid (be_C E) (concat L) txID k i" for txID k i
    using that infos_txid[of E L k] infos_txids[of E L k] by (force simp: last_with_txid_def)
  then show ?thesis using by_number[OF E st] by_tran[OF E(1) _ st] by_txid[OF E(1) st] \<open>mgr_bcInfo m = _\<close>
    unfolding serves_def by (auto simp: bc_of_height)
qed

end


section \<open>Runs of the store\<close>

lemma fresh_infos: "infos E [[]] = []"
  by (simp add: infos_def)

context kv_store_ok
begin

lemma newBlockfileMgr_fresh:
  assumes E: "be_K E = K" and db: "kview db = Map.empty"
  shows "\<exists>m. newBlockfileMgr E [] db = Inr m \<and> store_inv E kview [[]] m"
proof -
  let ?cp = "\<lparr>cp_latestFileChunkSuffixNum = 0, cp_latestFileChunksize = 0, cp_isChainEmpty = True, cp_lastBlockNumber = 0\<rparr>"
  have cp: "cp_of (be_C E) [[]] = ?cp" by (simp add: cp_of_def)
  have l: "loadCurrentInfo E db = Inr None" by (simp add: loadCurrentInfo_def E Get_kview db)
  have c: "constructCheckpointInfoFromBlockFiles (be_C E) [] = Inr ?cp"
    by (simp add: constructCheckpointInfoFromBlockFiles_def retrieveLastFileSuffix_def)
  obtain db1 where db1: "saveCurrentInfo E db ?cp True = (db1, None)" "kview db1 = (kview db)(blkMgrInfoKey \<mapsto> cp_marshal ?cp)"
    by (rule save_ok[OF E])
  have "idx_ok (be_items E) [] (kview db1)" by (simp add: idx_ok_def db1(2) db idx_view_def)
  then show ?thesis using db1
    by (simp add: newBlockfileMgr_def l c Let_def store_inv_def cp fresh_infos bc_of_def chain_ok_def layout_small_def
        files_hold_def rest_empty_def newBlockfileWriter_def truncateFile_def)
qed

end

text \<open>A block the run may hand to the store, in terms of the manager: it has the next number, it serializes, it
  has flags for its transactions, none of its transactions has the identifier \<^verbatim>\<open>lkMgrInfo\<close>, the counters do not
  overflow, and the first block of the chain fits into the first file. This is a condition on the
  caller, not a check of the code.\<close>

definition can_add :: "'s blk_env \<Rightarrow> 's blockfileMgr \<Rightarrow> Block \<Rightarrow> bool" where
  "can_add E m b \<longleftrightarrow> blk_ok (be_C E) b \<and> blk_Number b = bci_Height (mgr_bcInfo m) \<and> bci_Height (mgr_bcInfo m) \<noteq> MaxUint64
     \<and> cp_latestFileChunkSuffixNum (mgr_cpInfo m) + 2 < 2 ^ 63 \<and> be_maxBlockfileSize E < 2 ^ 63
     \<and> (bci_Height (mgr_bcInfo m) = 0 \<longrightarrow> \<not> needs_next_file E m (ser (be_C E) b))"

lemma can_add_addable:
  assumes st: "store_inv E kview L m"
  shows "can_add E m b \<longleftrightarrow> addable E m L b"
proof -
  have s: "mgr_cpInfo m = cp_of (be_C E) L" "mgr_bcInfo m = bc_of E (concat L)" "length (concat L) < 2 ^ 64"
    using st by (simp_all add: store_inv_def chain_ok_def)
  let ?n = "length (concat L)"
  have u: "unat (word_of_nat ?n :: uint64) = ?n" using s(3) by (simp add: unat_of_nat)
  have "(word_of_nat ?n :: uint64) \<noteq> MaxUint64 \<longleftrightarrow> ?n + 1 < 2 ^ 64"
  proof -
    have "(word_of_nat ?n :: uint64) = MaxUint64 \<longleftrightarrow> unat (word_of_nat ?n :: uint64) = unat MaxUint64"
      by (rule word_unat_eq_iff)
    then show ?thesis unfolding u using s(3) by auto
  qed
  moreover have "(word_of_nat ?n :: uint64) = 0 \<longleftrightarrow> concat L = []"
    using unat_eq_0[of "word_of_nat ?n :: uint64"] unfolding u length_0_conv by (rule sym)
  moreover have "cp_latestFileChunkSuffixNum (mgr_cpInfo m) + 2 < 2 ^ 63 \<longleftrightarrow> length L + 1 < 2 ^ 63"
    by (auto simp: s(1) cp_of_def)
  ultimately show ?thesis unfolding can_add_def addable_def s(2) bc_of_height by blast
qed

text \<open>A run: the store is created, blocks are added, with and without write errors, and a crash
  during an addition is followed by a restart on what the crash has left. The list has the
  blocks whose addition has returned without an error.\<close>

inductive store_run :: "'s blk_env \<Rightarrow> 's \<Rightarrow> 's blockfileMgr \<Rightarrow> Block list \<Rightarrow> bool" for E db0 where
  run_new: "newBlockfileMgr E [] db0 = Inr m \<Longrightarrow> store_run E db0 m []"
| run_add: "store_run E db0 m acked \<Longrightarrow> can_add E m b \<Longrightarrow> addBlock E m b f1 f2 = (m', e) \<Longrightarrow>
    store_run E db0 m' (if e = None then acked @ [b] else acked)"
| run_crash: "store_run E db0 m acked \<Longrightarrow> can_add E m b \<Longrightarrow> addBlock_crash E m b files db \<Longrightarrow>
    newBlockfileMgr E files db = Inr m' \<Longrightarrow> store_run E db0 m' acked"

context kv_store_ok
begin

lemma crash_restart:
  assumes E: "be_K E = K" "IndexableAttrBlockNum \<in> set (be_items E)" and st: "store_inv E kview L m" and a: "can_add E m b"
    and c: "addBlock_crash E m b files db"
  shows "\<exists>m' L'. newBlockfileMgr E files db = Inr m' \<and> store_inv E kview L' m' \<and> (concat L' = concat L \<or> concat L' = concat L @ [b])"
proof -
  obtain L' n p j where d: "disk_inv E kview L' n p j files db" "concat L' = concat L \<or> concat L' = concat L @ [b]"
    using addBlock_crash_disk[OF E st a[unfolded can_add_addable[OF st]] c] by blast
  from newBlockfileMgr_ok[OF E d(1)] d(2) show ?thesis by blast
qed

lemma store_run_inv:
  assumes E: "be_K E = K" "IndexableAttrBlockNum \<in> set (be_items E)" and db0: "kview db0 = Map.empty"
    and r: "store_run E db0 m acked"
  shows "\<exists>L. store_inv E kview L m \<and> set acked \<subseteq> set (concat L)"
  using r
proof induction
  case (run_new m)
  then show ?case using newBlockfileMgr_fresh[OF E(1) db0] by auto
next
  case (run_add m acked b f1 f2 m' e)
  then obtain L where L: "store_inv E kview L m" "set acked \<subseteq> set (concat L)" by blast
  note a = run_add.hyps(2)[unfolded can_add_addable[OF L(1)]]
  show ?case
  proof (cases "f1 = None \<and> f2 = None")
    case True
    then have "e = None" "store_inv E kview (add_last (room_layout E m L b) b) m'"
      using addBlock_ok[OF E L(1) a] run_add.hyps(3) by auto
    moreover have R: "room_layout E m L b \<noteq> []" using L(1) by (simp add: store_inv_def room_layout_def)
    have "concat (add_last (room_layout E m L b) b) = concat L @ [b]" unfolding concat_add_last[OF R] concat_room ..
    then have "set (acked @ [b]) \<subseteq> set (concat (add_last (room_layout E m L b) b))"
      using L(2) by (simp only: set_append) (rule Un_mono, simp_all)
    ultimately show ?thesis by (metis (full_types))
  next
    case False
    then have "e \<noteq> None" "store_inv E kview (room_layout E m L b) m'"
      using addBlock_fault[OF E(1) L(1) a, of f1 f2] run_add.hyps(3) by auto
    moreover have "set acked \<subseteq> set (concat (room_layout E m L b))" using L(2) unfolding concat_room .
    ultimately show ?thesis by auto
  qed
next
  case (run_crash m acked b files db m')
  then obtain L where L: "store_inv E kview L m" "set acked \<subseteq> set (concat L)" by blast
  from crash_restart[OF E L(1) run_crash.hyps(2,3)] run_crash.hyps(4) obtain L' where
    "store_inv E kview L' m'" "concat L' = concat L \<or> concat L' = concat L @ [b]" by auto
  moreover from this(2) have "set acked \<subseteq> set (concat L')" using L(2) by (elim disjE) (simp_all only: set_append le_supI1)
  ultimately show ?case by blast
qed

end


section \<open>Properties\<close>

text \<open>C3. Durability of the block store. Whatever sequence of additions of blocks it can take, faults of the appends
  to the block files, crashes in the middle of an addition and restarts has happened, over an index
  database that does not fail, the store serves a chain, by number and by transaction, and every block
  whose addition was acknowledged is in it and is retrieved under its number. A block the store can take is
  one as \<^const>\<open>can_add\<close> says; in particular no transaction of it is named \<^verbatim>\<open>lkMgrInfo\<close>, and the first block
  fits into the first file.\<close>

theorem block_store_durable:
  assumes "kv_store_ok (be_K E) kview" "IndexableAttrBlockNum \<in> set (be_items E)" "kview db0 = Map.empty" "store_run E db0 m acked"
  shows "\<exists>bl. serves E m bl \<and> set acked \<subseteq> set bl \<and> (\<forall>b \<in> set acked. retrieveBlockByNumber E m (blk_Number b) = Inr b)"
proof -
  obtain L where L: "store_inv E kview L m" "set acked \<subseteq> set (concat L)"
    using kv_store_ok.store_run_inv[OF assms(1) refl assms(2-4)] by blast
  note sv = kv_store_ok.store_serves[OF assms(1) refl assms(2) L(1)]
  have ch: "chain_ok (be_C E) (concat L)" using L(1) by (simp add: store_inv_def)
  have "retrieveBlockByNumber E m (blk_Number b) = Inr b" if b: "b \<in> set acked" for b
  proof -
    obtain k where k: "k < length (concat L)" "b = concat L ! k"
      using subsetD[OF L(2) b] unfolding in_set_conv_nth by blast
    have n: "blk_Number b = word_of_nat k" "length (concat L) < 2 ^ 64" using ch k by (simp_all add: chain_ok_def)
    then have u: "unat (word_of_nat k :: uint64) = k" "k \<noteq> unat (MaxUint64 :: uint64)" using k(1) by (simp_all add: unat_of_nat)
    then have "word_of_nat k \<noteq> MaxUint64" by metis
    then show ?thesis using sv u(1) k unfolding serves_def n(1) by simp
  qed
  with sv L(2) show ?thesis by blast
qed


text \<open>C7. Crash recovery. In every reachable state, if the peer stops at any point of the addition of the next block,
  and the block is one the store can take (\<^const>\<open>can_add\<close>: it serializes, it has flags for its transactions,
  none of which is named \<^verbatim>\<open>lkMgrInfo\<close>, and if it is the first block it fits into the first file), and the
  index database does not fail, then the restart succeeds, and the store serves the chain as it was or the
  chain with the new block; nothing is lost and nothing is torn. Without these conditions the restart can
  fail: a first block that does not fit into the first file leaves a checkpoint of a chain that is not
  empty, and the index entry of a transaction named \<^verbatim>\<open>lkMgrInfo\<close> overwrites the checkpoint.\<close>

theorem block_store_recovers:
  assumes "kv_store_ok (be_K E) kview" "IndexableAttrBlockNum \<in> set (be_items E)" "kview db0 = Map.empty" "store_run E db0 m acked"
    "can_add E m b" "addBlock_crash E m b files db"
  shows "\<exists>bl m' bl'. serves E m bl \<and> newBlockfileMgr E files db = Inr m' \<and> serves E m' bl' \<and> (bl' = bl \<or> bl' = bl @ [b])"
proof -
  obtain L where L: "store_inv E kview L m" using kv_store_ok.store_run_inv[OF assms(1) refl assms(2-4)] by blast
  obtain m' L' where "newBlockfileMgr E files db = Inr m'" "store_inv E kview L' m'" "concat L' = concat L \<or> concat L' = concat L @ [b]"
    using kv_store_ok.crash_restart[OF assms(1) refl assms(2) L assms(5,6)] by blast
  then show ?thesis using kv_store_ok.store_serves[OF assms(1) refl assms(2)] L by blast
qed

text \<open>C13. Adding a block. In every reachable state the next block, if it is one the store can take, is added without
  an error when the two appends of the block succeed, and the store then serves the longer chain; when one
  of them fails, \<^verbatim>\<open>addBlock\<close> returns an error and the store serves the chain it served before. The index
  database is assumed not to fail: the error of writing to it is not looked at by the code.\<close>

theorem block_store_adds:
  assumes "kv_store_ok (be_K E) kview" "IndexableAttrBlockNum \<in> set (be_items E)" "kview db0 = Map.empty" "store_run E db0 m acked"
    "can_add E m b"
  shows "\<exists>bl m' e. serves E m bl \<and> addBlock E m b f1 f2 = (m', e)
    \<and> (if f1 = None \<and> f2 = None then e = None \<and> serves E m' (bl @ [b]) else e \<noteq> None \<and> serves E m' bl)"
proof -
  obtain L where L: "store_inv E kview L m" using kv_store_ok.store_run_inv[OF assms(1) refl assms(2-4)] by blast
  note a = assms(5)[unfolded can_add_addable[OF L]] and sv = kv_store_ok.store_serves[OF assms(1) refl assms(2)]
  have R: "room_layout E m L b \<noteq> []" using L by (simp add: store_inv_def room_layout_def)
  show ?thesis
  proof (cases "f1 = None \<and> f2 = None")
    case True
    obtain m' where m': "addBlock E m b f1 f2 = (m', None)" "store_inv E kview (add_last (room_layout E m L b) b) m'"
      using kv_store_ok.addBlock_ok[OF assms(1) refl assms(2) L a] True by auto
    then have "serves E m' (concat L @ [b])" using sv[OF m'(2)] by (simp only: concat_add_last[OF R] concat_room)
    then show ?thesis using sv[OF L] m'(1) True by auto
  next
    case False
    obtain m' e where m': "addBlock E m b f1 f2 = (m', Some e)" "store_inv E kview (room_layout E m L b) m'"
      using kv_store_ok.addBlock_fault[OF assms(1) refl L a, of f1 f2] False by auto
    then have "serves E m' (concat L)" using sv[OF m'(2)] by (simp only: concat_room)
    then show ?thesis using sv[OF L] m'(1) False by auto
  qed
qed

section \<open>A concrete run\<close>

definition ex_benv :: "memdb_state blk_env" where
  "ex_benv = \<lparr>be_C = ex_tx_codec, be_K = DBHandle memdb ''mychannel'',
     be_items = [IndexableAttrBlockHash, IndexableAttrBlockNum, IndexableAttrTxID, IndexableAttrBlockNumTranNum,
                 IndexableAttrBlockTxID, IndexableAttrTxValidationCode],
     be_maxBlockfileSize = 100, be_hash = (\<lambda>h. EncodeVarint (bh_Number h))\<rparr>"

definition ex_b0 :: Block where
  "ex_b0 = \<lparr>blk_Number = 0, blk_Data = [[1], [2]], blk_Metadata = [[], [], [0, 11], []], blk_PreviousHash = [], blk_DataHash = []\<rparr>"

definition ex_m0 :: "memdb_state blockfileMgr" where
  "ex_m0 = projr (newBlockfileMgr ex_benv [] [])"

lemma ex_kvs: "kv_store_ok (be_K ex_benv) (handle_view map_of ''mychannel'')"
  using mem_ch.handle_kv_store by (simp add: ex_benv_def)

lemma ex_new: "newBlockfileMgr ex_benv [] [] = Inr ex_m0"
proof -
  have "\<not> isl (newBlockfileMgr ex_benv [] [])" by code_simp
  then show ?thesis unfolding ex_m0_def by (cases "newBlockfileMgr ex_benv [] []") simp_all
qed

lemma ex_items: "IndexableAttrBlockNum \<in> set (be_items ex_benv)" "handle_view map_of ''mychannel'' ([] :: memdb_state) = Map.empty"
  by (simp_all add: ex_benv_def handle_view_def fun_eq_iff)

lemma ex_run0: "store_run ex_benv [] ex_m0 []"
  by (rule run_new[OF ex_new])

lemma ex_ser: "serializeBlock (be_C ex_benv) ex_b0 = Inr (ser (be_C ex_benv) ex_b0, ser_info (be_C ex_benv) ex_b0)"
  "length (ser (be_C ex_benv) ex_b0) = 15"
  "\<forall>t \<in> set (sbi_txOffsets (ser_info (be_C ex_benv) ex_b0)). ti_txID t \<noteq> ''lkMgrInfo''"
  by code_simp+


lemma ex_can_add: "can_add ex_benv ex_m0 ex_b0"
proof -
  have "block_small ex_b0" "length (blk_Data ex_b0) \<le> length (blk_flags ex_b0)"
    "BlockMetadataIndex_TRANSACTIONS_FILTER < length (blk_Metadata ex_b0)" "be_maxBlockfileSize ex_benv < 2 ^ 63"
    by (simp_all add: block_small_def blk_flags_def ex_b0_def ex_benv_def BlockMetadataIndex_TRANSACTIONS_FILTER_def)
  then have "blk_ok (be_C ex_benv) ex_b0" using ex_ser by (simp add: blk_ok_def frame_ok_def)
  moreover have "blk_Number ex_b0 = bci_Height (mgr_bcInfo ex_m0)" "bci_Height (mgr_bcInfo ex_m0) = 0"
    "cp_latestFileChunkSuffixNum (mgr_cpInfo ex_m0) = 0" "\<not> needs_next_file ex_benv ex_m0 (ser (be_C ex_benv) ex_b0)" by code_simp+
  ultimately show ?thesis using \<open>be_maxBlockfileSize ex_benv < 2 ^ 63\<close> by (simp add: can_add_def)
qed

lemma ex_run1: "\<exists>m. addBlock ex_benv ex_m0 ex_b0 None None = (m, None) \<and> store_run ex_benv [] m [ex_b0]"
proof -
  obtain m e where a: "addBlock ex_benv ex_m0 ex_b0 None None = (m, e)" by fastforce
  have "snd (addBlock ex_benv ex_m0 ex_b0 None None) = None" by code_simp
  then have "e = None" using a by simp
  then show ?thesis using a run_add[OF ex_run0 ex_can_add a] by simp
qed

theorem block_store_durable_witness:
  "\<exists>m bl. store_run ex_benv [] m [ex_b0] \<and> serves ex_benv m bl \<and> ex_b0 \<in> set bl \<and> retrieveBlockByNumber ex_benv m 0 = Inr ex_b0"
proof -
  obtain m where m: "store_run ex_benv [] m [ex_b0]" using ex_run1 by blast
  from block_store_durable[OF ex_kvs ex_items m] m show ?thesis by (auto simp: ex_b0_def)
qed

text \<open>The peer stops when three bytes of the block are in the file.\<close>

theorem block_store_recovers_witness:
  "\<exists>bl files db m' bl'. addBlock_crash ex_benv ex_m0 ex_b0 files db \<and> map_get files 0 = Some (take 3 (frame (ser (be_C ex_benv) ex_b0)))
     \<and> serves ex_benv ex_m0 bl \<and> newBlockfileMgr ex_benv files db = Inr m' \<and> serves ex_benv m' bl' \<and> (bl' = bl \<or> bl' = bl @ [ex_b0])"
proof -
  have n: "\<not> needs_next_file ex_benv ex_m0 (ser (be_C ex_benv) ex_b0)" "map_get (mgr_files ex_m0) (mgr_writer ex_m0) = Some []"
    "mgr_writer ex_m0 = 0" by code_simp+
  let ?f = "map_put (mgr_writer ex_m0) ([] @ take 3 (frame (ser (be_C ex_benv) ex_b0))) (mgr_files ex_m0)"
  have c: "addBlock_crash ex_benv ex_m0 ex_b0 ?f (mgr_db ex_m0)"
    by (rule crash_writing[OF _ n(2)]) (simp add: n(1))
  from block_store_recovers[OF ex_kvs ex_items ex_run0 ex_can_add c] c n(3) show ?thesis
    by (metis append_Nil fun_upd_same update_conv')
qed

theorem block_store_adds_witness:
  "\<exists>bl m' e. serves ex_benv ex_m0 bl \<and> addBlock ex_benv ex_m0 ex_b0 (Some 1) None = (m', Some e) \<and> serves ex_benv m' bl"
  using block_store_adds[OF ex_kvs ex_items ex_run0 ex_can_add, of "Some 1" None] by auto

end
