(* ===== verification/Blocks_Iterator.thy ===== *)
theory Blocks_Iterator
  imports Block_Retrieval
begin

text \<open>
  The blocking iterator over the blocks of the store,
  \<^verbatim>\<open>common/ledger/blkstorage/fsblkstorage/blocks_itr.go\<close>. The manager is shared with the writer: the
  operations take its current state. A call that waits for a newer block is \<^const>\<open>None\<close>. The
  results: whatever blocks are added between the calls, the iterator delivers the blocks of the
  chain from its start on, in order and without a gap, it never waits for a block that is there, and
  it waits for the next one.
\<close>

section \<open>The iterator\<close>

record blocksItr =
  itr_maxBlockNumAvailable :: uint64
  itr_blockNumToRetrieve :: uint64
  itr_stream :: "blockStream option"
  itr_closeMarker :: bool

definition newBlockItr :: "'s blockfileMgr \<Rightarrow> uint64 \<Rightarrow> blocksItr" where
  "newBlockItr m startBlockNum = \<lparr>itr_maxBlockNumAvailable = cp_lastBlockNumber (mgr_cpInfo m),
     itr_blockNumToRetrieve = startBlockNum, itr_stream = None, itr_closeMarker = False\<rparr>"

definition waitForBlock :: "'s blockfileMgr \<Rightarrow> blocksItr \<Rightarrow> uint64 \<Rightarrow> uint64 option" where
  "waitForBlock m itr blockNum =
     (if cp_lastBlockNumber (mgr_cpInfo m) < blockNum \<and> \<not> itr_closeMarker itr then None
      else Some (cp_lastBlockNumber (mgr_cpInfo m)))"

definition initStream :: "'s blk_env \<Rightarrow> 's blockfileMgr \<Rightarrow> blocksItr \<Rightarrow> blockStream res" where
  "initStream E m itr =
     res_bind (getBlockLocByBlockNum (be_items E) (be_K E) (mgr_db m) (itr_blockNumToRetrieve itr)) (\<lambda>lp.
       newBlockStream (mgr_files m) (flp_fileSuffixNum lp) (flp_offset lp) (-1))"

text \<open>The iterator is not used any more after an error, so an error has no new state.\<close>

definition itr_Next :: "'s blk_env \<Rightarrow> 's blockfileMgr \<Rightarrow> blocksItr \<Rightarrow> (Block option \<times> blocksItr) res option" where
  "itr_Next E m itr =
     Option.bind (if itr_maxBlockNumAvailable itr < itr_blockNumToRetrieve itr
                  then waitForBlock m itr (itr_blockNumToRetrieve itr)
                  else Some (itr_maxBlockNumAvailable itr)) (\<lambda>available.
       let itr1 = itr\<lparr>itr_maxBlockNumAvailable := available\<rparr> in
       if itr_closeMarker itr1 then Some (Inr (None, itr1))
       else Some (
         res_bind (case itr_stream itr1 of Some s \<Rightarrow> Inr s | None \<Rightarrow> initStream E m itr1) (\<lambda>stream.
         res_bind (bs_nextBlockBytes (mgr_files m) stream) (\<lambda>(nextBlockBytes, stream').
         res_bind (deserializeBlock (be_C E) (case nextBlockBytes of None \<Rightarrow> [] | Some b \<Rightarrow> b)) (\<lambda>block.
           Inr (Some block, itr1\<lparr>itr_stream := Some stream',
                                 itr_blockNumToRetrieve := itr_blockNumToRetrieve itr1 + 1\<rparr>))))))"

definition itr_Close :: "blocksItr \<Rightarrow> blocksItr" where
  "itr_Close itr = itr\<lparr>itr_closeMarker := True\<rparr>"

definition retrieveBlocks :: "'s blockfileMgr \<Rightarrow> uint64 \<Rightarrow> blocksItr" where
  "retrieveBlocks m startNum = newBlockItr m startNum"

section \<open>A stream in a growing chain\<close>

text \<open>The stream is in front of the \<open>k\<close>-th block of the layout, possibly still at the end of an
  earlier file.\<close>

definition itr_at :: "tx_codec \<Rightarrow> Block list list \<Rightarrow> blockStream \<Rightarrow> nat \<Rightarrow> bool" where
  "itr_at C L s k \<longleftrightarrow> (\<exists>f j. f < length L \<and> j \<le> length (L ! f) \<and> k = length (concat (take f L)) + j
     \<and> s = \<lparr>bs_currentFileNum = int f, bs_endFileNum = -1,
            bs_currentFileStream = \<lparr>bfs_fileNum = int f, bfs_currentOffset = int (length (chunk C (take j (L ! f))))\<rparr>\<rparr>)"

text \<open>A longer layout: every file but new ones has its blocks as a prefix, and only the last of
  the old ones is longer.\<close>

definition layout_grows :: "Block list list \<Rightarrow> Block list list \<Rightarrow> bool" where
  "layout_grows L L' \<longleftrightarrow> L \<noteq> [] \<and> (\<exists>x M. L' = butlast L @ (last L @ x) # M)"

lemma layout_grows_refl: "L \<noteq> [] \<Longrightarrow> layout_grows L L"
  unfolding layout_grows_def by (rule conjI, assumption, rule exI[of _ "[]"], rule exI[of _ "[]"]) simp

lemma layout_grows_trans: "layout_grows L L' \<Longrightarrow> layout_grows L' L'' \<Longrightarrow> layout_grows L L''"
proof -
  assume "layout_grows L L'" and g: "layout_grows L' L''"
  then obtain x M where L': "L \<noteq> []" "L' = butlast L @ (last L @ x) # M" by (auto simp: layout_grows_def)
  obtain y N where L'': "L'' = butlast L' @ (last L' @ y) # N" using g by (auto simp: layout_grows_def)
  show "layout_grows L L''"
  proof (cases M)
    case Nil
    then have "L'' = butlast L @ (last L @ x @ y) # N" using L'' L'(2) by simp
    with L'(1) show ?thesis unfolding layout_grows_def by blast
  next
    case (Cons a A)
    then have "L'' = butlast L @ (last L @ x) # (butlast M @ (last M @ y) # N)" using L'' L'(2) by (simp add: butlast_append)
    with L'(1) show ?thesis unfolding layout_grows_def by blast
  qed
qed

lemma layout_grows_add: "L \<noteq> [] \<Longrightarrow> layout_grows L (add_last L b)"
  unfolding layout_grows_def add_last_def by blast

lemma layout_grows_room: "L \<noteq> [] \<Longrightarrow> layout_grows L (room_layout E m L b)"
proof -
  assume "L \<noteq> []"
  then have "L @ [[]] = butlast L @ (last L @ []) # [[]]" by simp
  with \<open>L \<noteq> []\<close> show ?thesis using layout_grows_refl unfolding room_layout_def layout_grows_def by metis
qed

lemma itr_at_grows:
  assumes "itr_at C L s k" "layout_grows L L'"
  shows "itr_at C L' s k"
proof -
  obtain x M where L': "L \<noteq> []" "L' = butlast L @ (last L @ x) # M" using assms(2) by (auto simp: layout_grows_def)
  obtain f j where f: "f < length L" "j \<le> length (L ! f)" "k = length (concat (take f L)) + j"
    "s = \<lparr>bs_currentFileNum = int f, bs_endFileNum = -1,
      bs_currentFileStream = \<lparr>bfs_fileNum = int f, bfs_currentOffset = int (length (chunk C (take j (L ! f))))\<rparr>\<rparr>"
    using assms(1) unfolding itr_at_def by blast
  have t: "take f L' = take f L" using f(1) L' by (simp add: take_butlast)
  have "\<exists>y. L' ! f = L ! f @ y"
  proof (cases "f < length L - 1")
    case True
    then show ?thesis using L' by (simp add: nth_append nth_butlast)
  next
    case False
    then have "f = length (butlast L)" using f(1) by simp
    then show ?thesis using L' by (simp add: nth_append last_conv_nth)
  qed
  then obtain y where y: "L' ! f = L ! f @ y" ..
  have "f < length L'" using f(1) L' by auto
  then show ?thesis unfolding itr_at_def using f t y by (intro exI[of _ f] exI[of _ j]) simp
qed


lemma nth_concat_split: "f < length L \<Longrightarrow> j < length (L ! f) \<Longrightarrow> concat L ! (length (concat (take f L)) + j) = L ! f ! j"
proof -
  assume f: "f < length L" "j < length (L ! f)"
  have "concat L = concat (take f L) @ L ! f @ concat (drop (Suc f) L)"
    using arg_cong[OF id_take_nth_drop[OF f(1)], of concat] by (simp only: concat_append concat.simps)
  then show ?thesis using f(2) by (simp add: nth_append)
qed

lemma stream_next_at:
  assumes h: "files_hold files (sers C L)" and s: "itr_at C L s k" and k: "k < length (concat L)"
  shows "\<exists>s'. bs_nextBlockBytes files s = Inr (Some (ser C (concat L ! k)), s') \<and> itr_at C L s' (Suc k)"
proof -
  obtain f0 j0 where f0: "f0 < length L" "j0 \<le> length (L ! f0)" "k = length (concat (take f0 L)) + j0"
    "s = \<lparr>bs_currentFileNum = int f0, bs_endFileNum = -1,
      bs_currentFileStream = \<lparr>bfs_fileNum = int f0, bfs_currentOffset = int (length (chunk C (take j0 (L ! f0))))\<rparr>\<rparr>"
    using s unfolding itr_at_def by blast
  have fc: "map_get files (int f) = Some (chunk C (L ! f))" if "f < length L" for f
    using h that by (simp add: files_hold_def chunk_sers)
  have step: "\<exists>p s'. bs_nextBlockBytesAndPlacementInfo files \<lparr>bs_currentFileNum = int f, bs_endFileNum = -1,
      bs_currentFileStream = \<lparr>bfs_fileNum = int f, bfs_currentOffset = int (length (chunk C (take j (L ! f))))\<rparr>\<rparr>
      = Inr (Some (ser C (concat L ! k), p), s') \<and> itr_at C L s' (Suc k)"
    if "f < length L" "j \<le> length (L ! f)" "k = length (concat (take f L)) + j" for f j
    using that
  proof (induction "length L - f" arbitrary: f j rule: less_induct)
    case less
    let ?st = "\<lparr>bfs_fileNum = int f, bfs_currentOffset = int (length (chunk C (take j (L ! f))))\<rparr>"
    show ?case
    proof (cases "j < length (L ! f)")
      case True
      have b: "concat L ! k = L ! f ! j" unfolding less.prems(3) by (rule nth_concat_split[OF less.prems(1) True])
      have "chunk C (L ! f) = chunk C (take j (L ! f)) @ frame (ser C (L ! f ! j)) @ chunk C (drop (Suc j) (L ! f))"
        using arg_cong[OF id_take_nth_drop[OF True], of "chunk C"] by (simp only: map_append list.map concat_append concat.simps comp_apply)
      then have c: "map_get files (int f) = Some (chunk C (take j (L ! f)) @ frame (ser C (concat L ! k)) @ chunk C (drop (Suc j) (L ! f)))"
        using fc[OF less.prems(1)] b by simp
      have "ser C (concat L ! k) \<in> set (concat (sers C L))" using k by (simp only: sers_concat set_map) (rule imageI, rule nth_mem)
      then have "frame_ok (ser C (concat L ! k))" using h by (simp only: files_hold_def)
      note n = bfs_next_frame[OF c this]
      have "length (chunk C (take j (L ! f))) + length (frame (ser C (concat L ! k))) = length (chunk C (take (Suc j) (L ! f)))"
        using True by (simp add: take_Suc_conv_app_nth b)
      moreover let ?s = "\<lparr>bs_currentFileNum = int f, bs_endFileNum = -1,
          bs_currentFileStream = \<lparr>bfs_fileNum = int f, bfs_currentOffset = int (length (chunk C (take (Suc j) (L ! f))))\<rparr>\<rparr>"
      have "itr_at C L ?s (Suc k)"
        unfolding itr_at_def by (rule exI[of _ f], rule exI[of _ "Suc j"]) (use less.prems True in simp)
      ultimately show ?thesis using n
        by (subst bs_nextBlockBytesAndPlacementInfo.simps) (auto simp: Let_def)
    next
      case False
      then have j: "j = length (L ! f)" using less.prems(2) by simp
      have tf: "length (concat (take (Suc f) L)) = k" using less.prems(1,3) j by (simp add: take_Suc_conv_app_nth)
      have f': "Suc f < length L"
      proof (rule ccontr)
        assume "\<not> Suc f < length L"
        then have "take (Suc f) L = L" by simp
        then show False using tf k by simp
      qed
      have e: "int (Suc f) = int f + 1" by simp
      have "moveToNextBlockfileStream files \<lparr>bs_currentFileNum = int f, bs_endFileNum = -1, bs_currentFileStream = ?st\<rparr>
          = Inr \<lparr>bs_currentFileNum = int (Suc f), bs_endFileNum = -1,
              bs_currentFileStream = \<lparr>bfs_fileNum = int (Suc f), bfs_currentOffset = int (length (chunk C (take 0 (L ! Suc f))))\<rparr>\<rparr>"
        using fc[OF f'] unfolding e by (simp add: moveToNextBlockfileStream_def newBlockfileStream_def file_open_def)
      moreover have "bfs_nextBlockBytesAndPlacementInfo files ?st = Inr (None, ?st)"
        using bfs_next_end[OF fc[OF less.prems(1)]] j by simp
      moreover have "length L - Suc f < length L - f" using less.prems(1) by simp
      from less.hyps[OF this f', of 0] tf
      obtain p s' where "bs_nextBlockBytesAndPlacementInfo files \<lparr>bs_currentFileNum = int (Suc f), bs_endFileNum = -1,
        bs_currentFileStream = \<lparr>bfs_fileNum = int (Suc f), bfs_currentOffset = int (length (chunk C (take 0 (L ! Suc f))))\<rparr>\<rparr>
        = Inr (Some (ser C (concat L ! k), p), s') \<and> itr_at C L s' (Suc k)" by auto
      ultimately show ?thesis
        by (subst bs_nextBlockBytesAndPlacementInfo.simps) (simp add: Let_def)
    qed
  qed
  from step[OF f0(1-3)] show ?thesis unfolding f0(4) bs_nextBlockBytes_def by auto
qed

lemma stream_init_at:
  assumes h: "files_hold files (sers C L)" and k: "k < length (concat L)"
  shows "\<exists>s. newBlockStream files (fst (pos_from 0 0 (sers C L) ! k)) (snd (pos_from 0 0 (sers C L) ! k)) (-1) = Inr s \<and> itr_at C L s k"
proof -
  have pos: "\<exists>i j. i < length M \<and> j < length (M ! i) \<and> k = length (concat (take i M)) + j
      \<and> pos_from g 0 (sers C M) ! k = (g + int i, int (length (chunk C (take j (M ! i)))))"
    if "k < length (concat M)" for M k g
    using that
  proof (induction M arbitrary: g k)
    case (Cons bs M)
    show ?case
    proof (cases "k < length bs")
      case True
      then show ?thesis using file_positions_split[of k "map (ser C) bs" g 0]
        by (rule_tac exI[of _ 0], rule_tac exI[of _ k]) (simp add: nth_append take_map[symmetric] comp_def)
    next
      case False
      with Cons.prems have "k - length bs < length (concat M)" by simp
      from Cons.IH[OF this, of "g + 1"] obtain i j where ij: "i < length M" "j < length (M ! i)"
        "k - length bs = length (concat (take i M)) + j"
        "pos_from (g + 1) 0 (sers C M) ! (k - length bs) = (g + 1 + int i, int (length (chunk C (take j (M ! i)))))" by blast
      then show ?thesis using False by (rule_tac exI[of _ "Suc i"], rule_tac exI[of _ j]) (auto simp: nth_append comp_def)
    qed
  qed simp
  obtain i j where ij: "i < length L" "j < length (L ! i)" "k = length (concat (take i L)) + j"
    "pos_from 0 0 (sers C L) ! k = (0 + int i, int (length (chunk C (take j (L ! i)))))" using pos[OF k] by blast
  have "map_get files (int i) = Some (chunk C (L ! i))" using h ij(1) by (simp add: files_hold_def chunk_sers)
  moreover have "itr_at C L \<lparr>bs_currentFileNum = int i, bs_endFileNum = -1,
      bs_currentFileStream = \<lparr>bfs_fileNum = int i, bfs_currentOffset = int (length (chunk C (take j (L ! i))))\<rparr>\<rparr> k"
    unfolding itr_at_def by (rule exI[of _ i], rule exI[of _ j]) (use ij in simp)
  ultimately show ?thesis using ij(4) by (simp add: newBlockStream_def newBlockfileStream_def file_open_def)
qed


section \<open>An iterator beside a writer\<close>

text \<open>The calls of \<^verbatim>\<open>Next\<close> and \<^verbatim>\<open>Close\<close> of one iterator, interleaved with additions of blocks, which
  may fail. The list has the blocks that the calls of \<^verbatim>\<open>Next\<close> have returned.\<close>

inductive itr_run :: "'s blk_env \<Rightarrow> 's \<Rightarrow> uint64 \<Rightarrow> 's blockfileMgr \<Rightarrow> blocksItr \<Rightarrow> Block list \<Rightarrow> bool" for E db0 n0 where
  it_new: "store_run E db0 m acked \<Longrightarrow> itr_run E db0 n0 m (newBlockItr m n0) []"
| it_add: "itr_run E db0 n0 m itr got \<Longrightarrow> can_add E m b \<Longrightarrow> addBlock E m b f1 f2 = (m', e) \<Longrightarrow> itr_run E db0 n0 m' itr got"
| it_next: "itr_run E db0 n0 m itr got \<Longrightarrow> itr_Next E m itr = Some (Inr (Some b, itr')) \<Longrightarrow> itr_run E db0 n0 m itr' (got @ [b])"
| it_close: "itr_run E db0 n0 m itr got \<Longrightarrow> itr_run E db0 n0 m (itr_Close itr) got"

definition itr_ok :: "tx_codec \<Rightarrow> Block list list \<Rightarrow> uint64 \<Rightarrow> blocksItr \<Rightarrow> Block list \<Rightarrow> bool" where
  "itr_ok C L n0 itr got \<longleftrightarrow> itr_blockNumToRetrieve itr = n0 + word_of_nat (length got)
     \<and> unat (itr_maxBlockNumAvailable itr) \<le> length (concat L) - 1
     \<and> got = take (length got) (drop (unat n0) (concat L))
     \<and> (case itr_stream itr of None \<Rightarrow> got = [] | Some s \<Rightarrow> got \<noteq> [] \<and> itr_at C L s (unat n0 + length got))"

lemma layout_grows_concat: "layout_grows L L' \<Longrightarrow> \<exists>x. concat L' = concat L @ x"
  unfolding layout_grows_def using concat_last[of L] by auto

lemma itr_ok_grows:
  assumes "itr_ok C L n0 itr got" "layout_grows L L'"
  shows "itr_ok C L' n0 itr got"
proof -
  obtain x where x: "concat L' = concat L @ x" using layout_grows_concat[OF assms(2)] ..
  have l: "length got \<le> length (drop (unat n0) (concat L))"
    using assms(1) unfolding itr_ok_def by (metis length_take min.cobounded1 min.commute)
  have "got = take (length got) (drop (unat n0) (concat L'))" 
  proof (cases "unat n0 \<le> length (concat L)")
    case True
    then have "drop (unat n0) (concat L') = drop (unat n0) (concat L) @ x" using x by simp
    then show ?thesis using assms(1) l by (simp add: itr_ok_def)
  next
    case False
    then show ?thesis using l by simp
  qed
  with assms itr_at_grows[OF _ assms(2)] x show ?thesis
    by (auto simp: itr_ok_def split: option.splits)
qed

lemma itr_num:
  assumes "itr_ok C L n0 itr got" "length (concat L) < 2 ^ 64"
  shows "unat (itr_blockNumToRetrieve itr) = unat n0 + length got \<and> (got \<noteq> [] \<longrightarrow> unat n0 + length got \<le> length (concat L))"
proof (cases "got = []")
  case True
  then show ?thesis using assms(1) by (simp add: itr_ok_def)
next
  case False
  have "length got \<le> length (drop (unat n0) (concat L))"
    using assms(1) unfolding itr_ok_def by (metis length_take min.cobounded1 min.commute)
  then have l: "unat n0 + length got \<le> length (concat L)" using False by (cases got) auto
  have "itr_blockNumToRetrieve itr = word_of_nat (unat n0 + length got)" using assms(1) by (simp add: itr_ok_def)
  then show ?thesis using l assms(2) by (simp add: unat_of_nat del: of_nat_add)
qed

lemma cp_last_num:
  assumes "store_inv E kview L m"
  shows "unat (cp_lastBlockNumber (mgr_cpInfo m)) = length (concat L) - 1"
proof -
  have c: "cp_lastBlockNumber (mgr_cpInfo m) = word_of_nat (length (concat L) - 1)" "length (concat L) < 2 ^ 64"
    using assms by (simp_all add: store_inv_def chain_ok_def cp_of_def)
  then have "length (concat L) - 1 < 2 ^ 64" by linarith
  then show ?thesis unfolding c(1) unat_of_nat by simp
qed

text \<open>A call of \<^verbatim>\<open>Next\<close> on an iterator that is not closed: it returns the next block of the chain when
  there is one, it waits when there is none, and on an empty chain it may do neither.\<close>

context kv_store_ok
begin

lemma itr_Next_open:
  assumes E: "be_K E = K" "IndexableAttrBlockNum \<in> set (be_items E)" and st: "store_inv E kview L m"
    and ok: "itr_ok (be_C E) L n0 itr got" and cl: "\<not> itr_closeMarker itr"
  defines "k \<equiv> unat n0 + length got"
  shows "k < length (concat L) \<Longrightarrow> \<exists>itr'. itr_Next E m itr = Some (Inr (Some (concat L ! k), itr'))
      \<and> itr_ok (be_C E) L n0 itr' (got @ [concat L ! k]) \<and> \<not> itr_closeMarker itr'"
    and "length (concat L) \<le> k \<Longrightarrow> concat L \<noteq> [] \<Longrightarrow> itr_Next E m itr = None"
    and "concat L = [] \<Longrightarrow> itr_Next E m itr = (if n0 = 0 then Some (Inl ErrNotFoundInIndex) else None)"
proof -
  have s: "chain_ok (be_C E) (concat L)" "layout_small (be_C E) L" "files_hold (mgr_files m) (sers (be_C E) L)"
    "idx_ok (be_items E) (infos E L) (kview (mgr_db m))" "mgr_cpInfo m = cp_of (be_C E) L" using st by (simp_all add: store_inv_def)
  have len: "length (concat L) < 2 ^ 64" using s(1) by (simp add: chain_ok_def)
  have num: "unat (itr_blockNumToRetrieve itr) = k" "got \<noteq> [] \<Longrightarrow> k \<le> length (concat L)"
    using itr_num[OF ok len] by (simp_all add: k_def)
  note last = cp_last_num[OF st]
  have avail: "unat (itr_maxBlockNumAvailable itr) \<le> length (concat L) - 1" using ok by (simp add: itr_ok_def)
  { assume k: "k < length (concat L)"
    have w: "waitForBlock m itr (itr_blockNumToRetrieve itr) = Some (cp_lastBlockNumber (mgr_cpInfo m))"
      using k last num(1) by (auto simp: waitForBlock_def word_less_nat_alt)
    obtain av where av: "(if itr_maxBlockNumAvailable itr < itr_blockNumToRetrieve itr
        then waitForBlock m itr (itr_blockNumToRetrieve itr) else Some (itr_maxBlockNumAvailable itr)) = Some av"
      "unat av \<le> length (concat L) - 1"
      using w last avail by (cases "itr_maxBlockNumAvailable itr < itr_blockNumToRetrieve itr") auto
    let ?itr = "itr\<lparr>itr_maxBlockNumAvailable := av\<rparr>"
    obtain sm where sm: "(case itr_stream itr of Some s \<Rightarrow> Inr s | None \<Rightarrow> initStream E m ?itr) = Inr sm" "itr_at (be_C E) L sm k"
    proof (cases "itr_stream itr")
      case None
      from stream_init_at[OF s(3) k] obtain sm where "initStream E m ?itr = Inr sm" "itr_at (be_C E) L sm k"
        using loc_all[OF E(2) s(1,2,4), of "itr_blockNumToRetrieve itr"] num(1) k by (auto simp: initStream_def E(1))
      with None that show ?thesis by simp
    qed (use ok that in \<open>simp add: itr_ok_def k_def\<close>)
    from stream_next_at[OF s(3) sm(2) k] obtain s' where s': "bs_nextBlockBytes (mgr_files m) sm = Inr (Some (ser (be_C E) (concat L ! k)), s')"
      "itr_at (be_C E) L s' (Suc k)" by blast
    let ?itr' = "?itr\<lparr>itr_stream := Some s', itr_blockNumToRetrieve := itr_blockNumToRetrieve itr + 1\<rparr>"
    have "deserializeBlock (be_C E) (ser (be_C E) (concat L ! k)) = Inr (concat L ! k)"
      using blk_okD(4)[OF chain_ok_mem[OF s(1) nth_mem[OF k]]] .
    then have "itr_Next E m itr = Some (Inr (Some (concat L ! k), ?itr'))"
      using av(1) sm(1) s'(1) cl by (simp add: itr_Next_def Let_def)
    moreover have g: "got @ [concat L ! k] = take (Suc (length got)) (drop (unat n0) (concat L))"
      using ok k by (simp add: itr_ok_def k_def take_Suc_conv_app_nth)
    have "itr_ok (be_C E) L n0 ?itr' (got @ [concat L ! k])"
      unfolding itr_ok_def length_append_singleton
    proof (intro conjI)
      show "itr_blockNumToRetrieve ?itr' = n0 + word_of_nat (Suc (length got))" using ok by (simp add: itr_ok_def add.assoc)
      show "got @ [concat L ! k] = take (Suc (length got)) (drop (unat n0) (concat L))" by (rule g)
    qed (use av(2) s'(2) in \<open>simp_all add: k_def\<close>)
    ultimately show "\<exists>itr'. itr_Next E m itr = Some (Inr (Some (concat L ! k), itr'))
      \<and> itr_ok (be_C E) L n0 itr' (got @ [concat L ! k]) \<and> \<not> itr_closeMarker itr'" using cl by auto }
  { assume k: "length (concat L) \<le> k" "concat L \<noteq> []"
    then have "length (concat L) - 1 < k" by (cases "concat L") (auto simp del: concat_eq_Nil_conv)
    then show "itr_Next E m itr = None"
      using avail last num(1) cl by (auto simp: itr_Next_def waitForBlock_def word_less_nat_alt) }
  assume e: "concat L = []"
  then have g: "got = []" "itr_maxBlockNumAvailable itr = 0" "cp_lastBlockNumber (mgr_cpInfo m) = 0" "itr_blockNumToRetrieve itr = n0"
    using ok avail last by (auto simp: itr_ok_def unat_eq_0 simp del: concat_eq_Nil_conv)
  then have "itr_stream itr = None"
    using ok by (auto simp: itr_ok_def split: option.splits)
  then show "itr_Next E m itr = (if n0 = 0 then Some (Inl ErrNotFoundInIndex) else None)"
    using g cl loc_all[OF E(2) s(1,2,4), of 0] e
    by (auto simp: itr_Next_def waitForBlock_def initStream_def E(1) word_neq_0_conv simp del: concat_eq_Nil_conv)
qed

end


context kv_store_ok
begin

lemma itr_run_inv:
  assumes E: "be_K E = K" "IndexableAttrBlockNum \<in> set (be_items E)" and db0: "kview db0 = Map.empty"
    and r: "itr_run E db0 n0 m itr got"
  shows "\<exists>L. store_inv E kview L m \<and> itr_ok (be_C E) L n0 itr got"
  using r
proof induction
  case (it_new m acked)
  then obtain L where L: "store_inv E kview L m" using store_run_inv[OF E db0] by blast
  with cp_last_num[OF L] show ?case by (auto simp: itr_ok_def newBlockItr_def)
next
  case (it_add m itr got b f1 f2 m' e)
  then obtain L where L: "store_inv E kview L m" "itr_ok (be_C E) L n0 itr got" by blast
  note a = it_add.hyps(2)[unfolded can_add_addable[OF L(1)]]
  have ne: "L \<noteq> []" "room_layout E m L b \<noteq> []" using L(1) by (simp_all add: store_inv_def room_layout_def)
  note g = layout_grows_room[OF ne(1), of E m b]
  show ?case
  proof (cases "f1 = None \<and> f2 = None")
    case True
    then have "store_inv E kview (add_last (room_layout E m L b) b) m'"
      using addBlock_ok[OF E L(1) a] it_add.hyps(3) by auto
    then show ?thesis using itr_ok_grows[OF L(2) layout_grows_trans[OF g layout_grows_add[OF ne(2)]]] by blast
  next
    case False
    then have "store_inv E kview (room_layout E m L b) m'"
      using addBlock_fault[OF E(1) L(1) a, of f1 f2] it_add.hyps(3) by auto
    then show ?thesis using itr_ok_grows[OF L(2) g] by blast
  qed
next
  case (it_next m itr got b itr')
  then obtain L where L: "store_inv E kview L m" "itr_ok (be_C E) L n0 itr got" by blast
  have cl: "\<not> itr_closeMarker itr" using it_next.hyps(2) by (auto simp: itr_Next_def Let_def bind_eq_Some_conv)
  note n = itr_Next_open[OF E L cl]
  have "unat n0 + length got < length (concat L)"
    using n(2,3) it_next.hyps(2) by (cases "concat L = []") (auto simp del: concat_eq_Nil_conv split: if_splits intro: leI)
  from n(1)[OF this] it_next.hyps(2) L(1) show ?case by auto
next
  case (it_close m itr got)
  then show ?case by (auto simp: itr_ok_def itr_Close_def)
qed

end

section \<open>Properties\<close>

text \<open>C16. Iteration beside a writer. However the calls of an iterator are interleaved with additions of
  blocks the store can take (\<^const>\<open>can_add\<close>), over an index database that does not fail, the blocks it has returned are those of the chain from its start on, in order and without a
  gap. The next call returns the next block of the chain when it is there, and waits for it when it
  is not; after \<^verbatim>\<open>Close\<close> it returns the end of the iteration. The exception is the start at block 0 of
  an empty chain, where the call fails instead of waiting: the last block number of an empty chain is 0
  too.\<close>

theorem blocks_iterator:
  assumes "kv_store_ok (be_K E) kview" "IndexableAttrBlockNum \<in> set (be_items E)" "kview db0 = Map.empty"
    "itr_run E db0 n0 m itr got"
  shows "\<exists>bl. serves E m bl \<and> got = take (length got) (drop (unat n0) bl)
    \<and> (if itr_closeMarker itr then \<exists>itr'. itr_Next E m itr = Some (Inr (None, itr'))
       else if unat n0 + length got < length bl
       then \<exists>itr'. itr_Next E m itr = Some (Inr (Some (bl ! (unat n0 + length got)), itr'))
       else itr_Next E m itr = (if bl = [] \<and> n0 = 0 then Some (Inl ErrNotFoundInIndex) else None))"
proof -
  obtain L where L: "store_inv E kview L m" "itr_ok (be_C E) L n0 itr got"
    using kv_store_ok.itr_run_inv[OF assms(1) refl assms(2-4)] by blast
  note n = kv_store_ok.itr_Next_open[OF assms(1) refl assms(2) L]
  have "itr_Next E m itr = (if concat L = [] \<and> n0 = 0 then Some (Inl ErrNotFoundInIndex) else None)"
    if "\<not> itr_closeMarker itr" "\<not> unat n0 + length got < length (concat L)"
    using n(2,3)[OF that(1)] that(2) by (cases "concat L = []") (auto simp del: concat_eq_Nil_conv)
  moreover have "\<exists>itr'. itr_Next E m itr = Some (Inr (None, itr'))" if "itr_closeMarker itr"
    using that by (simp add: itr_Next_def waitForBlock_def)
  moreover have "got = take (length got) (drop (unat n0) (concat L))" using L(2) by (simp add: itr_ok_def)
  ultimately show ?thesis using n(1) kv_store_ok.store_serves[OF assms(1) refl assms(2) L(1)]
    by (intro exI[of _ "concat L"]) (auto simp del: concat_eq_Nil_conv)
qed

text \<open>An iterator that is opened on the empty chain at block 0 and used once the first block is there.\<close>

theorem blocks_iterator_witness:
  "\<exists>m itr'. addBlock ex_benv ex_m0 ex_b0 None None = (m, None)
     \<and> itr_Next ex_benv ex_m0 (newBlockItr ex_m0 0) = Some (Inl ErrNotFoundInIndex)
     \<and> itr_Next ex_benv m (newBlockItr ex_m0 0) = Some (Inr (Some ex_b0, itr'))"
proof -
  obtain m where m: "addBlock ex_benv ex_m0 ex_b0 None None = (m, None)" using ex_run1 by blast
  have r0: "itr_run ex_benv [] 0 ex_m0 (newBlockItr ex_m0 0) []" by (rule it_new[OF ex_run0])
  have e: "itr_Next ex_benv ex_m0 (newBlockItr ex_m0 0) = Some (Inl ErrNotFoundInIndex)" by code_simp
  have "\<not> isl (the (itr_Next ex_benv (fst (addBlock ex_benv ex_m0 ex_b0 None None)) (newBlockItr ex_m0 0)))
    \<and> itr_Next ex_benv (fst (addBlock ex_benv ex_m0 ex_b0 None None)) (newBlockItr ex_m0 0) \<noteq> None"
    "retrieveBlockByNumber ex_benv (fst (addBlock ex_benv ex_m0 ex_b0 None None)) 0 = Inr ex_b0" by code_simp+
  with m have n: "\<not> isl (the (itr_Next ex_benv m (newBlockItr ex_m0 0)))" "itr_Next ex_benv m (newBlockItr ex_m0 0) \<noteq> None"
    "retrieveBlockByNumber ex_benv m 0 = Inr ex_b0" by simp_all
  have "\<not> itr_closeMarker (newBlockItr ex_m0 0)" by (simp add: newBlockItr_def)
  with blocks_iterator[OF ex_kvs ex_items it_add[OF r0 ex_can_add m]] n(1) obtain bl itr' where bl: "serves ex_benv m bl" "0 < length bl"
    "itr_Next ex_benv m (newBlockItr ex_m0 0) = Some (Inr (Some (bl ! 0), itr'))"
    by (fastforce split: if_splits)
  with n(3) m e show ?thesis by (auto simp: serves_def)
qed

end
