(* ===== verification/Block_Store_API.thy ===== *)
theory Block_Store_API
  imports Blocks_Iterator
begin

text \<open>
  The interface \<^verbatim>\<open>blkstorage.BlockStore\<close> that the ledger is written against, its implementation
  \<^verbatim>\<open>fsBlockStore\<close> on the block file manager, and the contract between the two as a locale: what the
  store returns of the chain it holds, what an addition does, and what is there when the store is
  opened again after a stop in the middle of an addition. \<open>fs_block_store\<close> shows that the
  file based store keeps the contract.
\<close>

section \<open>The interface\<close>

record 'b BlockStore =
  bst_AddBlock :: "'b \<Rightarrow> Block \<Rightarrow> 'b \<times> go_err option"
  bst_GetBlockchainInfo :: "'b \<Rightarrow> BlockchainInfo res"
  bst_RetrieveBlocks :: "'b \<Rightarrow> uint64 \<Rightarrow> blocksItr res"
  bst_RetrieveBlockByHash :: "'b \<Rightarrow> bytes \<Rightarrow> Block res"
  bst_RetrieveBlockByNumber :: "'b \<Rightarrow> uint64 \<Rightarrow> Block res"
  bst_RetrieveTxByID :: "'b \<Rightarrow> string \<Rightarrow> Envelope res"
  bst_RetrieveTxByBlockNumTranNum :: "'b \<Rightarrow> uint64 \<Rightarrow> uint64 \<Rightarrow> Envelope res"
  bst_RetrieveBlockByTxID :: "'b \<Rightarrow> string \<Rightarrow> Block res"
  bst_RetrieveTxValidationCodeByTxID :: "'b \<Rightarrow> string \<Rightarrow> TxValidationCode res"

section \<open>The file based store\<close>

record 's fsBlockStore =
  fs_id :: string
  fs_fileMgr :: "'s blockfileMgr"

definition newFsBlockStore :: "'s blk_env \<Rightarrow> string \<Rightarrow> blockfiles \<Rightarrow> 's \<Rightarrow> 's fsBlockStore res" where
  "newFsBlockStore E ident files dbHandle =
     res_bind (newBlockfileMgr E files dbHandle) (\<lambda>m. Inr \<lparr>fs_id = ident, fs_fileMgr = m\<rparr>)"

text \<open>The two write faults are those of the appending of the block (\<open>addBlock\<close>).\<close>

definition fs_AddBlock :: "'s blk_env \<Rightarrow> write_fault \<Rightarrow> write_fault \<Rightarrow> 's fsBlockStore \<Rightarrow> Block \<Rightarrow> 's fsBlockStore \<times> go_err option" where
  "fs_AddBlock E f1 f2 store block =
     (case addBlock E (fs_fileMgr store) block f1 f2 of (m, e) \<Rightarrow> (store\<lparr>fs_fileMgr := m\<rparr>, e))"

definition fs_GetBlockchainInfo :: "'s fsBlockStore \<Rightarrow> BlockchainInfo res" where
  "fs_GetBlockchainInfo store = Inr (mgr_bcInfo (fs_fileMgr store))"

definition fs_RetrieveBlocks :: "'s fsBlockStore \<Rightarrow> uint64 \<Rightarrow> blocksItr res" where
  "fs_RetrieveBlocks store startNum = Inr (retrieveBlocks (fs_fileMgr store) startNum)"

definition fs_RetrieveBlockByHash :: "'s blk_env \<Rightarrow> 's fsBlockStore \<Rightarrow> bytes \<Rightarrow> Block res" where
  "fs_RetrieveBlockByHash E store blockHash = retrieveBlockByHash E (fs_fileMgr store) blockHash"

definition fs_RetrieveBlockByNumber :: "'s blk_env \<Rightarrow> 's fsBlockStore \<Rightarrow> uint64 \<Rightarrow> Block res" where
  "fs_RetrieveBlockByNumber E store blockNum = retrieveBlockByNumber E (fs_fileMgr store) blockNum"

definition fs_RetrieveTxByID :: "'s blk_env \<Rightarrow> 's fsBlockStore \<Rightarrow> string \<Rightarrow> Envelope res" where
  "fs_RetrieveTxByID E store txID = retrieveTransactionByID E (fs_fileMgr store) txID"

definition fs_RetrieveTxByBlockNumTranNum :: "'s blk_env \<Rightarrow> 's fsBlockStore \<Rightarrow> uint64 \<Rightarrow> uint64 \<Rightarrow> Envelope res" where
  "fs_RetrieveTxByBlockNumTranNum E store blockNum tranNum = retrieveTransactionByBlockNumTranNum E (fs_fileMgr store) blockNum tranNum"

definition fs_RetrieveBlockByTxID :: "'s blk_env \<Rightarrow> 's fsBlockStore \<Rightarrow> string \<Rightarrow> Block res" where
  "fs_RetrieveBlockByTxID E store txID = retrieveBlockByTxID E (fs_fileMgr store) txID"

definition fs_RetrieveTxValidationCodeByTxID :: "'s blk_env \<Rightarrow> 's fsBlockStore \<Rightarrow> string \<Rightarrow> TxValidationCode res" where
  "fs_RetrieveTxValidationCodeByTxID E store txID = retrieveTxValidationCodeByTxID E (fs_fileMgr store) txID"

definition fsBlockStore_of :: "'s blk_env \<Rightarrow> write_fault \<Rightarrow> write_fault \<Rightarrow> 's fsBlockStore BlockStore" where
  "fsBlockStore_of E f1 f2 = \<lparr>
     bst_AddBlock = fs_AddBlock E f1 f2,
     bst_GetBlockchainInfo = fs_GetBlockchainInfo,
     bst_RetrieveBlocks = fs_RetrieveBlocks,
     bst_RetrieveBlockByHash = fs_RetrieveBlockByHash E,
     bst_RetrieveBlockByNumber = fs_RetrieveBlockByNumber E,
     bst_RetrieveTxByID = fs_RetrieveTxByID E,
     bst_RetrieveTxByBlockNumTranNum = fs_RetrieveTxByBlockNumTranNum E,
     bst_RetrieveBlockByTxID = fs_RetrieveBlockByTxID E,
     bst_RetrieveTxValidationCodeByTxID = fs_RetrieveTxValidationCodeByTxID E\<rparr>"

section \<open>The contract\<close>

text \<open>\<open>holds\<close> relates a store to the chain it has, \<open>takes\<close> says that it can take a block as
  the next one, \<open>reopen\<close> opens a store on what is on the disk, \<open>left\<close> relates a store and the
  block that is being added to what a stop of the process can leave on the disk, and \<open>stopped\<close> is
  what is there when the process stops between two additions.\<close>

locale block_store =
  fixes BS :: "'b BlockStore" and holds :: "'b \<Rightarrow> Block list \<Rightarrow> bool" and takes :: "'b \<Rightarrow> Block \<Rightarrow> bool"
    and reopen :: "'d \<Rightarrow> 'b res" and left :: "'b \<Rightarrow> Block \<Rightarrow> 'd \<Rightarrow> bool" and stopped :: "'b \<Rightarrow> 'd"
  assumes holds_small: "holds s bl \<Longrightarrow> length bl < 2 ^ 64"
    and holds_num: "holds s bl \<Longrightarrow> k < length bl \<Longrightarrow> blk_Number (bl ! k) = word_of_nat k"
    and info: "holds s bl \<Longrightarrow> \<exists>i. bst_GetBlockchainInfo BS s = Inr i \<and> bci_Height i = word_of_nat (length bl)"
    and by_num: "holds s bl \<Longrightarrow> unat n < length bl \<Longrightarrow> bst_RetrieveBlockByNumber BS s n = Inr (bl ! unat n)"
    and added: "holds s bl \<Longrightarrow> takes s b \<Longrightarrow> bst_AddBlock BS s b = (s', e) \<Longrightarrow> holds s' (if e = None then bl @ [b] else bl)"
    and refused: "holds s bl \<Longrightarrow> blk_Number b \<noteq> word_of_nat (length bl) \<Longrightarrow> \<exists>e. bst_AddBlock BS s b = (s, Some e)"
    and takes_num: "holds s bl \<Longrightarrow> takes s b \<Longrightarrow> blk_Number b = word_of_nat (length bl)"
    and reopened: "holds s bl \<Longrightarrow> takes s b \<Longrightarrow> left s b d
          \<Longrightarrow> \<exists>s' bl'. reopen d = Inr s' \<and> holds s' bl' \<and> (bl' = bl \<or> bl' = bl @ [b])"
    and restarted: "holds s bl \<Longrightarrow> \<exists>s'. reopen (stopped s) = Inr s' \<and> holds s' bl"

section \<open>The file based store keeps the contract\<close>

locale fs_block_store = kv_store_ok K kview for K :: "'s kvs" and kview +
  fixes E :: "'s blk_env" and ident :: string and f1 f2 :: write_fault
  assumes store_db: "be_K E = K" and store_items: "IndexableAttrBlockNum \<in> set (be_items E)"

definition fs_holds :: "'s blk_env \<Rightarrow> ('s \<Rightarrow> bytes \<rightharpoonup> bytes) \<Rightarrow> 's fsBlockStore \<Rightarrow> Block list \<Rightarrow> bool" where
  "fs_holds E kview store bl \<longleftrightarrow> (\<exists>L. store_inv E kview L (fs_fileMgr store) \<and> concat L = bl)"

definition fs_left :: "'s blk_env \<Rightarrow> 's fsBlockStore \<Rightarrow> Block \<Rightarrow> blockfiles \<times> 's \<Rightarrow> bool" where
  "fs_left E store b d \<longleftrightarrow> addBlock_crash E (fs_fileMgr store) b (fst d) (snd d)"

definition fs_stopped :: "'s fsBlockStore \<Rightarrow> blockfiles \<times> 's" where
  "fs_stopped store = (mgr_files (fs_fileMgr store), mgr_db (fs_fileMgr store))"

definition fs_reopen :: "'s blk_env \<Rightarrow> string \<Rightarrow> blockfiles \<times> 's \<Rightarrow> 's fsBlockStore res" where
  "fs_reopen E ident d = newFsBlockStore E ident (fst d) (snd d)"

lemma fs_holds_D:
  assumes "fs_holds E kview store bl"
  shows "chain_ok (be_C E) bl" "mgr_bcInfo (fs_fileMgr store) = bc_of E bl"
  using assms by (auto simp: fs_holds_def store_inv_def)

sublocale fs_block_store \<subseteq> block_store "fsBlockStore_of E f1 f2" "fs_holds E kview"
  "\<lambda>store. can_add E (fs_fileMgr store)" "fs_reopen E ident" "fs_left E" fs_stopped
proof
  fix s bl b n k s' e d
  assume h: "fs_holds E kview s bl"
  note D = fs_holds_D[OF h]
  from h obtain L where L: "store_inv E kview L (fs_fileMgr s)" "concat L = bl" by (auto simp: fs_holds_def)
  show "length bl < 2 ^ 64" using D(1) by (simp add: chain_ok_def)
  show "blk_Number (bl ! k) = word_of_nat k" if "k < length bl" using that D(1) by (simp add: chain_ok_def)
  show "\<exists>i. bst_GetBlockchainInfo (fsBlockStore_of E f1 f2) s = Inr i \<and> bci_Height i = word_of_nat (length bl)"
    by (simp add: fsBlockStore_of_def fs_GetBlockchainInfo_def D(2) bc_of_height)
  show "bst_RetrieveBlockByNumber (fsBlockStore_of E f1 f2) s n = Inr (bl ! unat n)" if n: "unat n < length bl"
  proof -
    have "n \<noteq> MaxUint64" using n D(1) by (auto simp: chain_ok_def)
    then show ?thesis using by_number(1)[OF store_db store_items L(1)] n L(2) by (simp add: fsBlockStore_of_def fs_RetrieveBlockByNumber_def)
  qed
  show "fs_holds E kview s' (if e = None then bl @ [b] else bl)"
    if a: "can_add E (fs_fileMgr s) b" "bst_AddBlock (fsBlockStore_of E f1 f2) s b = (s', e)"
  proof -
    note ad = a(1)[unfolded can_add_addable[OF L(1)]]
    have R: "room_layout E (fs_fileMgr s) L b \<noteq> []" using L(1) by (simp add: store_inv_def room_layout_def)
    obtain m' where m': "addBlock E (fs_fileMgr s) b f1 f2 = (m', e)" "s' = s\<lparr>fs_fileMgr := m'\<rparr>"
      using a(2) by (auto simp: fsBlockStore_of_def fs_AddBlock_def split: prod.splits)
    show ?thesis
    proof (cases "f1 = None \<and> f2 = None")
      case True
      then have "e = None" "store_inv E kview (add_last (room_layout E (fs_fileMgr s) L b) b) m'"
        using addBlock_ok[OF store_db store_items L(1) ad] m'(1) by auto
      then show ?thesis using m'(2) L(2) concat_add_last[OF R, of b] unfolding fs_holds_def concat_room by auto
    next
      case False
      then have "e \<noteq> None" "store_inv E kview (room_layout E (fs_fileMgr s) L b) m'"
        using addBlock_fault[OF store_db L(1) ad, of f1 f2] m'(1) by auto
      then show ?thesis using m'(2) L(2) concat_room[of E "fs_fileMgr s" L b] unfolding fs_holds_def by auto
    qed
  qed
  show "\<exists>e. bst_AddBlock (fsBlockStore_of E f1 f2) s b = (s, Some e)" if "blk_Number b \<noteq> word_of_nat (length bl)"
    using that by (simp add: fsBlockStore_of_def fs_AddBlock_def addBlock_def D(2) bc_of_height)
  show "blk_Number b = word_of_nat (length bl)" if "can_add E (fs_fileMgr s) b"
    using that by (simp add: can_add_def D(2) bc_of_height)
  show "\<exists>s' bl'. fs_reopen E ident d = Inr s' \<and> fs_holds E kview s' bl' \<and> (bl' = bl \<or> bl' = bl @ [b])"
    if c: "can_add E (fs_fileMgr s) b" "fs_left E s b d"
  proof -
    obtain m' L' where "newBlockfileMgr E (fst d) (snd d) = Inr m'" "store_inv E kview L' m'" "concat L' = bl \<or> concat L' = bl @ [b]"
      using crash_restart[OF store_db store_items L(1) c(1) c(2)[unfolded fs_left_def]] L(2) by blast
    then show ?thesis
      by (intro exI[of _ "\<lparr>fs_id = ident, fs_fileMgr = m'\<rparr>"] exI[of _ "concat L'"])
        (auto simp: fs_reopen_def newFsBlockStore_def fs_holds_def)
  qed
  have "files_hold (mgr_files (fs_fileMgr s)) (sers (be_C E) L)" "rest_empty (mgr_files (fs_fileMgr s)) (length L)" "L \<noteq> []"
    using L(1) by (simp_all add: store_inv_def)
  then have "disk_inv E kview L (length (last L)) [] (length (concat L)) (mgr_files (fs_fileMgr s)) (mgr_db (fs_fileMgr s))"
    using files_hold_last[of "mgr_files (fs_fileMgr s)" "be_C E" L] by (intro disk_intro[OF L(1) cut_frame_Nil]) simp_all
  from newBlockfileMgr_ok[OF store_db store_items this] L(2)
  show "\<exists>s'. fs_reopen E ident (fs_stopped s) = Inr s' \<and> fs_holds E kview s' bl"
    by (auto simp: fs_reopen_def fs_stopped_def newFsBlockStore_def fs_holds_def)
qed

interpretation ex_fs: fs_block_store "DBHandle memdb ''mychannel''" "handle_view map_of ''mychannel''" ex_benv "''mychannel''" None None
  using ex_kvs ex_items by (simp add: fs_block_store_def fs_block_store_axioms_def ex_benv_def)

end
