(* ===== verification/Tx_Simulator.thy ===== *)
theory Tx_Simulator
  imports MVCC_Validator
begin

text \<open>
  Simulation of a transaction,
  \<^verbatim>\<open>core/ledger/kvledger/txmgmt/txmgr/lockbasedtxmgr\<close>: the query helper that records the
  reads and range queries (\<^verbatim>\<open>helper.go\<close>), the query executor and the simulator
  (\<^verbatim>\<open>lockbased_query_executer.go\<close>, \<^verbatim>\<open>lockbased_tx_simulator.go\<close>). The range iterators a
  simulation has opened are shared between the caller and the helper; they live in the
  helper and the caller holds their index. The iterators of rich queries belong to the caller
  alone and are kept beside them in the same way. The two settings of the peer's configuration
  that the iterators use are parameters.
\<close>

section \<open>Model\<close>

record sim_config =
  IsQueryReadsHashingEnabled :: bool
  MaxDegreeQueryReadsHashing :: uint32
  sc_hash :: hash_fn
  sc_serialize :: serialize_fn

record KV =
  KV_Namespace :: string
  KV_Key :: string
  KV_Value :: "bytes option"

record resultsItr =
  ri_ns :: string
  ri_endKey :: string
  ri_dbItr :: ResultsIterator
  ri_rangeQueryInfo :: "RangeQueryInfo option"
  ri_resultsHelper :: "RangeQueryResultsHelper option"

text \<open>\<open>qh_rwsetBuilder\<close> is \<^const>\<open>None\<close> for a query executor.\<close>

record queryHelper =
  qh_rwsetBuilder :: "RWSetBuilder option"
  qh_itrs :: "resultsItr list"
  qh_queryItrs :: "ResultsIterator list"
  qh_err :: "go_err option"
  qh_doneInvoked :: bool

definition checkDone :: "queryHelper \<Rightarrow> unit res" where
  "checkDone h =
     (if qh_doneInvoked h then Inl (GoPanic ''This instance should not be used after calling Done()'')
      else Inr ())"

definition decomposeVersionedValue :: "VersionedValue option \<Rightarrow> bytes option \<times> Height option" where
  "decomposeVersionedValue versionedValue =
     (case versionedValue of None \<Rightarrow> (None, None) | Some vv \<Rightarrow> (Value vv, Some (Version vv)))"

definition add_read :: "queryHelper \<Rightarrow> string \<Rightarrow> string \<Rightarrow> Height option \<Rightarrow> queryHelper" where
  "add_read h ns key ver =
     (case qh_rwsetBuilder h of
        None \<Rightarrow> h
      | Some b \<Rightarrow> h\<lparr>qh_rwsetBuilder := Some (AddToReadSet b ns key ver)\<rparr>)"

definition qh_getState :: "'s VersionedDB \<Rightarrow> 's \<Rightarrow> queryHelper \<Rightarrow> string \<Rightarrow> string
    \<Rightarrow> (bytes option \<times> queryHelper) res" where
  "qh_getState D s h ns key =
     res_bind (checkDone h) (\<lambda>_.
     res_bind (vdb_GetState D s ns key) (\<lambda>versionedValue.
       let (val, ver) = decomposeVersionedValue versionedValue
       in Inr (val, add_read h ns key ver)))"

fun read_values :: "queryHelper \<Rightarrow> string \<Rightarrow> string list \<Rightarrow> VersionedValue option list
    \<Rightarrow> (bytes option list \<times> queryHelper) res" where
  "read_values h ns keys [] = Inr ([], h)"
| "read_values h ns [] (v # vs) = Inl (GoPanic ''index out of range'')"
| "read_values h ns (key # keys) (v # vs) =
     (let (val, ver) = decomposeVersionedValue v
      in res_bind (read_values (add_read h ns key ver) ns keys vs) (\<lambda>(vals, h'). Inr (val # vals, h')))"

text \<open>A read error is swallowed: the caller gets no values and no error.\<close>

definition qh_getStateMultipleKeys :: "'s VersionedDB \<Rightarrow> 's \<Rightarrow> queryHelper \<Rightarrow> string \<Rightarrow> string list
    \<Rightarrow> (bytes option list \<times> queryHelper) res" where
  "qh_getStateMultipleKeys D s h namespace keys =
     res_bind (checkDone h) (\<lambda>_.
       case vdb_GetStateMultipleKeys D s namespace keys of
         Inl (GoErr _) \<Rightarrow> Inr ([], h)
       | Inl p \<Rightarrow> Inl p
       | Inr versionedValues \<Rightarrow>
           (if qh_rwsetBuilder h \<noteq> None then read_values h namespace keys versionedValues
            else Inr (map (fst \<circ> decomposeVersionedValue) versionedValues, h)))"

definition newResultsItr :: "sim_config \<Rightarrow> 's VersionedDB \<Rightarrow> 's \<Rightarrow> string \<Rightarrow> string \<Rightarrow> string \<Rightarrow> bool
    \<Rightarrow> resultsItr res" where
  "newResultsItr cfg D s ns startKey endKey simulation =
     res_bind (vdb_GetStateRangeScanIterator D s ns startKey endKey) (\<lambda>dbItr.
       let itr = \<lparr>ri_ns = ns, ri_endKey = '''', ri_dbItr = dbItr, ri_rangeQueryInfo = None,
                   ri_resultsHelper = None\<rparr>
       in if simulation then
            res_bind (NewRangeQueryResultsHelper (IsQueryReadsHashingEnabled cfg) (MaxDegreeQueryReadsHashing cfg))
              (\<lambda>resultsHelper.
                Inr (itr\<lparr>ri_endKey := endKey,
                  ri_rangeQueryInfo := Some \<lparr>rq_StartKey = startKey, rq_EndKey = '''',
                    rq_ItrExhausted = False, rq_ReadsInfo = None\<rparr>,
                  ri_resultsHelper := Some resultsHelper\<rparr>))
          else Inr itr)"

definition qh_getStateRangeScanIterator :: "sim_config \<Rightarrow> 's VersionedDB \<Rightarrow> 's \<Rightarrow> queryHelper
    \<Rightarrow> string \<Rightarrow> string \<Rightarrow> string \<Rightarrow> (nat \<times> queryHelper) res" where
  "qh_getStateRangeScanIterator cfg D s h namespace startKey endKey =
     res_bind (checkDone h) (\<lambda>_.
     res_bind (newResultsItr cfg D s namespace startKey endKey (qh_rwsetBuilder h \<noteq> None)) (\<lambda>itr.
       Inr (length (qh_itrs h), h\<lparr>qh_itrs := qh_itrs h @ [itr]\<rparr>)))"

text \<open>The error of \<^verbatim>\<open>AddResult\<close> is not looked at.\<close>

definition updateRangeQueryInfo :: "sim_config \<Rightarrow> resultsItr \<Rightarrow> VersionedKV option \<Rightarrow> resultsItr res" where
  "updateRangeQueryInfo cfg itr queryResult =
     (case (ri_rangeQueryInfo itr, ri_resultsHelper itr) of
        (Some info, Some helper) \<Rightarrow>
          (case queryResult of
             None \<Rightarrow> Inr (itr\<lparr>ri_rangeQueryInfo :=
               Some (info\<lparr>rq_ItrExhausted := True, rq_EndKey := ri_endKey itr\<rparr>)\<rparr>)
           | Some versionedKV \<Rightarrow>
               (case AddResult (sc_hash cfg) (sc_serialize cfg) helper
                       (NewKVRead (kv_Key versionedKV) (Some (Version (kv_VersionedValue versionedKV)))) of
                  None \<Rightarrow> Inl GoDiverge
                | Some (helper', _) \<Rightarrow>
                    Inr (itr\<lparr>ri_resultsHelper := Some helper',
                      ri_rangeQueryInfo := Some (info\<lparr>rq_EndKey := kv_Key versionedKV\<rparr>)\<rparr>)))
      | _ \<Rightarrow> Inr itr)"

definition resultsItr_Next :: "sim_config \<Rightarrow> resultsItr \<Rightarrow> (KV option \<times> resultsItr) res" where
  "resultsItr_Next cfg itr =
     res_bind (ResultsIterator_Next (ri_dbItr itr)) (\<lambda>(queryResult, dbItr').
     res_bind (updateRangeQueryInfo cfg (itr\<lparr>ri_dbItr := dbItr'\<rparr>) queryResult) (\<lambda>itr'.
       case queryResult of
         None \<Rightarrow> Inr (None, itr')
       | Some vkv \<Rightarrow> Inr (Some \<lparr>KV_Namespace = Namespace (kv_CompositeKey vkv), KV_Key = kv_Key vkv,
                                 KV_Value = Value (kv_VersionedValue vkv)\<rparr>, itr')))"

text \<open>\<^verbatim>\<open>Next\<close> on an iterator the caller holds.\<close>

definition qh_Next :: "sim_config \<Rightarrow> queryHelper \<Rightarrow> nat \<Rightarrow> (KV option \<times> queryHelper) res" where
  "qh_Next cfg h i =
     res_bind (index_slice (qh_itrs h) (int i)) (\<lambda>itr.
     res_bind (resultsItr_Next cfg itr) (\<lambda>(kv, itr').
       Inr (kv, h\<lparr>qh_itrs := (qh_itrs h)[i := itr']\<rparr>)))"

text \<open>A rich query; unlike the other calls it does not check that the helper is still open.\<close>

definition qh_executeQuery :: "'s VersionedDB \<Rightarrow> 's \<Rightarrow> queryHelper \<Rightarrow> string \<Rightarrow> string \<Rightarrow> (nat \<times> queryHelper) res" where
  "qh_executeQuery D s h namespace query =
     res_bind (vdb_ExecuteQuery D s namespace query) (\<lambda>dbItr.
       Inr (length (qh_queryItrs h), h\<lparr>qh_queryItrs := qh_queryItrs h @ [dbItr]\<rparr>))"

definition queryResultsItr_Next ::
  "queryHelper \<Rightarrow> ResultsIterator \<Rightarrow> (KV option \<times> ResultsIterator \<times> queryHelper) res" where
  "queryResultsItr_Next h DBItr =
     res_bind (ResultsIterator_Next DBItr) (\<lambda>(queryResult, DBItr').
       case queryResult of
         None \<Rightarrow> Inr (None, DBItr', h)
       | Some r \<Rightarrow>
           Inr (Some \<lparr>KV_Namespace = Namespace (kv_CompositeKey r), KV_Key = kv_Key r,
                      KV_Value = Value (kv_VersionedValue r)\<rparr>, DBItr',
                add_read h (Namespace (kv_CompositeKey r)) (kv_Key r) (Some (Version (kv_VersionedValue r)))))"

definition qh_queryNext :: "queryHelper \<Rightarrow> nat \<Rightarrow> (KV option \<times> queryHelper) res" where
  "qh_queryNext h i =
     res_bind (index_slice (qh_queryItrs h) (int i)) (\<lambda>DBItr.
     res_bind (queryResultsItr_Next h DBItr) (\<lambda>(kv, DBItr', h').
       Inr (kv, h'\<lparr>qh_queryItrs := (qh_queryItrs h')[i := DBItr']\<rparr>)))"

text \<open>The loop of \<^verbatim>\<open>done\<close> over the iterators; it stops at the first error.\<close>

definition done_info :: "RangeQueryInfo \<Rightarrow> KVRead list \<Rightarrow> QueryReadsMerkleSummary option \<Rightarrow> RangeQueryInfo" where
  "done_info info results hash =
     (let info1 = (if results \<noteq> [] then SetRawReads info results else info)
      in case hash of None \<Rightarrow> info1 | Some ms \<Rightarrow> SetMerkelSummary info1 ms)"

fun qh_done_loop :: "sim_config \<Rightarrow> resultsItr list \<Rightarrow> RWSetBuilder \<Rightarrow> (RWSetBuilder \<times> go_err option) res" where
  "qh_done_loop cfg [] b = Inr (b, None)"
| "qh_done_loop cfg (itr # itrs) b =
     (case (ri_rangeQueryInfo itr, ri_resultsHelper itr) of
        (Some info, Some helper) \<Rightarrow>
          (case helper_Done (sc_hash cfg) (sc_serialize cfg) helper of
             None \<Rightarrow> Inl GoDiverge
           | Some (_, Inl (GoErr e)) \<Rightarrow> Inr (b, Some (GoErr e))
           | Some (_, Inl p) \<Rightarrow> Inl p
           | Some (_, Inr (results, hash)) \<Rightarrow>
               qh_done_loop cfg itrs (AddToRangeQuerySet b (ri_ns itr) (done_info info results hash)))
      | _ \<Rightarrow> Inl (GoPanic ''nil pointer dereference''))"

text \<open>The lock of the manager is released and the helper closed on every path that returns.\<close>

definition qh_done :: "sim_config \<Rightarrow> queryHelper \<Rightarrow> queryHelper res" where
  "qh_done cfg h =
     (if qh_doneInvoked h then Inr h
      else case qh_rwsetBuilder h of
        None \<Rightarrow> Inr (h\<lparr>qh_doneInvoked := True\<rparr>)
      | Some b \<Rightarrow>
          res_bind (qh_done_loop cfg (qh_itrs h) b) (\<lambda>(b', err).
            Inr (h\<lparr>qh_rwsetBuilder := Some b',
                   qh_err := (case err of None \<Rightarrow> qh_err h | Some e \<Rightarrow> Some e),
                   qh_doneInvoked := True\<rparr>)))"

section \<open>Query executor and simulator\<close>

definition newQueryExecutor :: queryHelper where
  "newQueryExecutor = \<lparr>qh_rwsetBuilder = None, qh_itrs = [], qh_queryItrs = [], qh_err = None, qh_doneInvoked = False\<rparr>"

definition newLockBasedTxSimulator :: queryHelper where
  "newLockBasedTxSimulator =
     \<lparr>qh_rwsetBuilder = Some NewRWSetBuilder, qh_itrs = [], qh_queryItrs = [], qh_err = None, qh_doneInvoked = False\<rparr>"

definition sim_SetState :: "'s VersionedDB \<Rightarrow> 's \<Rightarrow> queryHelper \<Rightarrow> string \<Rightarrow> string \<Rightarrow> bytes option
    \<Rightarrow> queryHelper res" where
  "sim_SetState D s h ns key value =
     res_bind (checkDone h) (\<lambda>_.
       case vdb_ValidateKey D s key of
         Some err \<Rightarrow> Inl err
       | None \<Rightarrow>
           (case qh_rwsetBuilder h of
              None \<Rightarrow> Inl (GoPanic ''nil pointer dereference'')
            | Some b \<Rightarrow> Inr (h\<lparr>qh_rwsetBuilder := Some (AddToWriteSet b ns key value)\<rparr>)))"

definition sim_DeleteState :: "'s VersionedDB \<Rightarrow> 's \<Rightarrow> queryHelper \<Rightarrow> string \<Rightarrow> string \<Rightarrow> queryHelper res" where
  "sim_DeleteState D s h ns key = sim_SetState D s h ns key None"

fun sim_SetStateMultipleKeys :: "'s VersionedDB \<Rightarrow> 's \<Rightarrow> queryHelper \<Rightarrow> string
    \<Rightarrow> (string, bytes option) gomap \<Rightarrow> queryHelper res" where
  "sim_SetStateMultipleKeys D s h namespace [] = Inr h"
| "sim_SetStateMultipleKeys D s h namespace ((k, v) # kvs) =
     res_bind (sim_SetState D s h namespace k v) (\<lambda>h'. sim_SetStateMultipleKeys D s h' namespace kvs)"

definition sim_results :: "sim_config \<Rightarrow> queryHelper \<Rightarrow> (TxRwSet \<times> queryHelper) res" where
  "sim_results cfg h =
     res_bind (qh_done cfg h) (\<lambda>h'.
       case qh_err h' of
         Some e \<Rightarrow> Inl e
       | None \<Rightarrow>
           (case qh_rwsetBuilder h' of
              None \<Rightarrow> Inl (GoPanic ''nil pointer dereference'')
            | Some b \<Rightarrow> Inr (GetTxReadWriteSet b, h')))"

definition GetTxSimulationResults ::
  "sim_config \<Rightarrow> proto_codec \<Rightarrow> queryHelper \<Rightarrow> (bytes \<times> queryHelper) res" where
  "GetTxSimulationResults cfg P h =
     res_bind (sim_results cfg h) (\<lambda>(t, h').
     res_bind (ToProtoBytes P t) (\<lambda>b. Inr (b, h')))"

definition sim_ExecuteUpdate :: "string \<Rightarrow> unit res" where
  "sim_ExecuteUpdate query = Inl (GoErr ''Not supported'')"

section \<open>A recorded range query is current\<close>

text \<open>The part of a scan up to a key it has delivered is the scan up to that key.\<close>

lemma scan_view_up_to:
  assumes fin: "finite (dom (m ns))" and scan: "scan_view ns a e (m ns) = results @ rest"
    and ne: "results \<noteq> []" "kv_Key (last results) \<noteq> ''''"
  shows "range_spec m ns a (kv_Key (last results)) True = results"
proof -
  let ?l = "last results" and ?ek = "kv_Key (last results)"
  have mem: "?l \<in> set (scan_view ns a e (m ns))" using ne(1) scan by simp
  then have l: "m ns ?ek = Some (kv_VersionedValue ?l)" "Namespace (kv_CompositeKey ?l) = ns" "key_in_range a e ?ek"
    by (simp_all add: mem_scan_view[OF fin])
  have res: "results = butlast results @ [?l]" using ne(1) by simp
  then have "results @ rest = butlast results @ [?l] @ rest" by (metis append.assoc)
  then have ks: "key_sorted (butlast results @ [?l] @ rest)"
    using key_sorted_scan_view[OF fin, of ns a e] unfolding scan by (simp only:)
  have "scan_view ns a ?ek (m ns) = butlast results"
  proof (rule key_sorted_unique)
    show "key_sorted (scan_view ns a ?ek (m ns))" by (rule key_sorted_scan_view[OF fin])
    show "key_sorted (butlast results)" using ks by (simp add: key_sorted_def sorted_wrt_append)
    have "kv \<in> set (butlast results) \<longleftrightarrow> kv \<in> set (scan_view ns a e (m ns)) \<and> kv_Key kv < ?ek" for kv
      using ks unfolding scan by (subst (2) res) (auto simp: key_sorted_def sorted_wrt_append)
    moreover have "kv \<in> set (scan_view ns a ?ek (m ns)) \<longleftrightarrow> kv \<in> set (scan_view ns a e (m ns)) \<and> kv_Key kv < ?ek" for kv
      using l(3) ne(2) by (auto simp: mem_scan_view[OF fin] key_in_range_def)
    ultimately show "set (scan_view ns a ?ek (m ns)) = set (butlast results)" by blast
  qed
  moreover have "mkVersionedKV ns ?ek (kv_VersionedValue ?l) = ?l" using l(2) mkVersionedKV_eta[of ?l] by simp
  ultimately show ?thesis using l(1) res by (simp add: range_spec_def)
qed

text \<open>The state of an open iterator of a simulation over the contents \<open>m\<close>.\<close>

definition ri_inv :: "sim_config \<Rightarrow> contents \<Rightarrow> resultsItr \<Rightarrow> bool" where
  "ri_inv cfg m itr \<longleftrightarrow> (\<exists>info helper h0 results rest.
     ri_rangeQueryInfo itr = Some info \<and> ri_resultsHelper itr = Some helper
     \<and> NewRangeQueryResultsHelper (IsQueryReadsHashingEnabled cfg) (MaxDegreeQueryReadsHashing cfg) = Inr h0
     \<and> feed (sc_hash cfg) (sc_serialize cfg) h0 (map kv_read results) = Some helper
     \<and> rq_ReadsInfo info = None
     \<and> scan_view (ri_ns itr) (rq_StartKey info) (ri_endKey itr) (m (ri_ns itr)) = results @ rest
     \<and> ri_dbItr itr = map Inr rest
     \<and> (if rq_ItrExhausted info then rest = [] \<and> rq_EndKey info = ri_endKey itr
        else rq_EndKey info = (if results = [] then '''' else kv_Key (last results))))"

text \<open>The record of an iterator that validation can check: the iterator was read to its end, or the last
  key it delivered is not the empty one. It is false for an iterator that was never advanced, and for one
  that has delivered the empty key only, since an empty end key stands for an unbounded range.\<close>

definition itr_used :: "resultsItr \<Rightarrow> bool" where
  "itr_used itr \<longleftrightarrow> (case ri_rangeQueryInfo itr of None \<Rightarrow> True
     | Some info \<Rightarrow> rq_ItrExhausted info \<or> rq_EndKey info \<noteq> '''')"

lemma feed_snoc:
  "feed H S h rs = Some h1 \<Longrightarrow> AddResult H S h1 r = Some (h2, e) \<Longrightarrow> feed H S h (rs @ [r]) = Some h2"
  by (simp add: feed_append)

lemma ri_inv_Next:
  assumes "ri_inv cfg m itr" "resultsItr_Next cfg itr = Inr (kv, itr')"
  shows "ri_inv cfg m itr' \<and> ri_ns itr' = ri_ns itr"
proof -
  from assms(1) obtain info helper h0 results rest where i:
    "ri_rangeQueryInfo itr = Some info" "ri_resultsHelper itr = Some helper"
    "NewRangeQueryResultsHelper (IsQueryReadsHashingEnabled cfg) (MaxDegreeQueryReadsHashing cfg) = Inr h0"
    "feed (sc_hash cfg) (sc_serialize cfg) h0 (map kv_read results) = Some helper"
    "rq_ReadsInfo info = None"
    "scan_view (ri_ns itr) (rq_StartKey info) (ri_endKey itr) (m (ri_ns itr)) = results @ rest"
    "ri_dbItr itr = map Inr rest"
    "if rq_ItrExhausted info then rest = [] \<and> rq_EndKey info = ri_endKey itr
     else rq_EndKey info = (if results = [] then '''' else kv_Key (last results))"
    unfolding ri_inv_def by blast
  show ?thesis
  proof (cases rest)
    case Nil
    with assms(2) i have "itr' = itr\<lparr>ri_dbItr := [], ri_rangeQueryInfo :=
        Some (info\<lparr>rq_ItrExhausted := True, rq_EndKey := ri_endKey itr\<rparr>)\<rparr>"
      by (auto simp: resultsItr_Next_def updateRangeQueryInfo_def)
    with i Nil show ?thesis unfolding ri_inv_def by (auto intro!: exI[of _ h0] exI[of _ results])
  next
    case (Cons vkv rest')
    with assms(2) i obtain helper' e where a:
      "AddResult (sc_hash cfg) (sc_serialize cfg) helper (kv_read vkv) = Some (helper', e)"
      "itr' = itr\<lparr>ri_dbItr := map Inr rest', ri_resultsHelper := Some helper',
          ri_rangeQueryInfo := Some (info\<lparr>rq_EndKey := kv_Key vkv\<rparr>)\<rparr>"
      by (auto simp: resultsItr_Next_def updateRangeQueryInfo_def res_bind_eq_Inr kv_read_def
          split: option.splits)
    have "feed (sc_hash cfg) (sc_serialize cfg) h0 (map kv_read (results @ [vkv])) = Some helper'"
      using feed_snoc[OF i(4) a(1)] by simp
    with i Cons a(2) show ?thesis unfolding ri_inv_def
      by (auto intro!: exI[of _ h0] exI[of _ "results @ [vkv]"] split: if_splits)
  qed
qed

section \<open>A simulation, step by step\<close>

datatype sim_op =
    OpGetState string string
  | OpGetStateMultipleKeys string "string list"
  | OpRangeScan string string string
  | OpNext nat
  | OpExecuteQuery string string
  | OpQueryNext nat
  | OpSetState string string "bytes option"
  | OpDeleteState string string

fun sim_step :: "sim_config \<Rightarrow> 's VersionedDB \<Rightarrow> 's \<Rightarrow> queryHelper \<Rightarrow> sim_op \<Rightarrow> queryHelper res" where
  "sim_step cfg D s h (OpGetState ns key) = res_bind (qh_getState D s h ns key) (\<lambda>(_, h'). Inr h')"
| "sim_step cfg D s h (OpGetStateMultipleKeys ns keys) =
     res_bind (qh_getStateMultipleKeys D s h ns keys) (\<lambda>(_, h'). Inr h')"
| "sim_step cfg D s h (OpRangeScan ns startKey endKey) =
     res_bind (qh_getStateRangeScanIterator cfg D s h ns startKey endKey) (\<lambda>(_, h'). Inr h')"
| "sim_step cfg D s h (OpNext i) = res_bind (qh_Next cfg h i) (\<lambda>(_, h'). Inr h')"
| "sim_step cfg D s h (OpExecuteQuery ns query) = res_bind (qh_executeQuery D s h ns query) (\<lambda>(_, h'). Inr h')"
| "sim_step cfg D s h (OpQueryNext i) = res_bind (qh_queryNext h i) (\<lambda>(_, h'). Inr h')"
| "sim_step cfg D s h (OpSetState ns key value) = sim_SetState D s h ns key value"
| "sim_step cfg D s h (OpDeleteState ns key) = sim_DeleteState D s h ns key"

fun op_ns_ok :: "(string \<Rightarrow> bool) \<Rightarrow> sim_op \<Rightarrow> bool" where
  "op_ns_ok P (OpGetState ns _) = P ns"
| "op_ns_ok P (OpGetStateMultipleKeys ns _) = P ns"
| "op_ns_ok P (OpRangeScan ns _ _) = P ns"
| "op_ns_ok P (OpNext _) = True"
| "op_ns_ok P (OpExecuteQuery ns _) = P ns"
| "op_ns_ok P (OpQueryNext _) = True"
| "op_ns_ok P (OpSetState ns _ _) = P ns"
| "op_ns_ok P (OpDeleteState ns _) = P ns"

definition read_current :: "contents \<Rightarrow> string \<Rightarrow> KVRead \<Rightarrow> bool" where
  "read_current m ns r \<longleftrightarrow> NewVersion (r_Version r) = map_option Version (m ns (r_Key r))"

definition builder_current :: "val_env \<Rightarrow> contents \<Rightarrow> (string \<Rightarrow> bool) \<Rightarrow> RWSetBuilder \<Rightarrow> bool" where
  "builder_current E m valid b \<longleftrightarrow> builder_keys_ok b \<and> (\<forall>ns \<in> builder_nss b. valid ns)
     \<and> (\<forall>(ns, r) \<in> builder_reads b. read_current m ns r)
     \<and> (\<forall>(ns, q) \<in> builder_ranges b. range_current E m ns q)"

text \<open>What is left of the results of a rich query is in the contents.\<close>

definition query_inv :: "contents \<Rightarrow> (string \<Rightarrow> bool) \<Rightarrow> ResultsIterator \<Rightarrow> bool" where
  "query_inv m valid itr \<longleftrightarrow> (\<forall>kv. Inr kv \<in> set itr \<longrightarrow> valid (Namespace (kv_CompositeKey kv))
     \<and> m (Namespace (kv_CompositeKey kv)) (kv_Key kv) = Some (kv_VersionedValue kv))"

definition sim_inv :: "val_env \<Rightarrow> sim_config \<Rightarrow> contents \<Rightarrow> (string \<Rightarrow> bool) \<Rightarrow> queryHelper \<Rightarrow> bool" where
  "sim_inv E cfg m valid h \<longleftrightarrow> (\<exists>b. qh_rwsetBuilder h = Some b \<and> builder_current E m valid b)
     \<and> (\<forall>itr \<in> set (qh_itrs h). valid (ri_ns itr) \<and> ri_inv cfg m itr)
     \<and> (\<forall>itr \<in> set (qh_queryItrs h). query_inv m valid itr)"

lemma builder_current_read:
  "builder_current E m valid b \<Longrightarrow> valid ns \<Longrightarrow> ver = map_option Version (m ns k)
     \<Longrightarrow> builder_current E m valid (AddToReadSet b ns k ver)"
  using AddToReadSet_collects[of b ns k ver]
  by (fastforce simp: builder_current_def read_current_def NewKVRead_def)

lemma builder_current_write:
  "builder_current E m valid b \<Longrightarrow> valid ns \<Longrightarrow> builder_current E m valid (AddToWriteSet b ns k v)"
  using AddToWriteSet_collects[of b ns k v] by (fastforce simp: builder_current_def)

lemma builder_current_range:
  "builder_current E m valid b \<Longrightarrow> valid ns \<Longrightarrow> range_current E m ns q
     \<Longrightarrow> builder_current E m valid (AddToRangeQuerySet b ns q)"
  using AddToRangeQuerySet_collects[of b ns q] by (fastforce simp: builder_current_def)

lemma sim_inv_read:
  "sim_inv E cfg m valid h \<Longrightarrow> valid ns \<Longrightarrow> ver = map_option Version (m ns k)
     \<Longrightarrow> sim_inv E cfg m valid (add_read h ns k ver)"
  by (auto simp: sim_inv_def add_read_def intro: builder_current_read)

lemma snd_decompose: "snd (decomposeVersionedValue v) = map_option Version v"
  by (cases v) (simp_all add: decomposeVersionedValue_def)

lemma sim_inv_read_values:
  "sim_inv E cfg m valid h \<Longrightarrow> valid ns \<Longrightarrow> vs = map (m ns) keys \<Longrightarrow> read_values h ns keys vs = Inr (vals, h')
     \<Longrightarrow> sim_inv E cfg m valid h'"
proof (induction h ns keys vs arbitrary: vals rule: read_values.induct)
  case (3 h ns key keys v vs)
  obtain val ver where d: "decomposeVersionedValue v = (val, ver)" by force
  then have "ver = map_option Version (m ns key)" using snd_decompose[of v] "3.prems"(3) by simp
  with sim_inv_read "3.prems"(1,2) have "sim_inv E cfg m valid (add_read h ns key ver)" by blast
  with 3 d show ?case by (auto simp: res_bind_eq_Inr Let_def)
qed auto

lemma sim_inv_queryNext:
  assumes "sim_inv E cfg m valid h" "qh_queryNext h i = Inr (kv, h')"
  shows "sim_inv E cfg m valid h'"
proof -
  obtain DBItr' h1 where n: "i < length (qh_queryItrs h)" "queryResultsItr_Next h (qh_queryItrs h ! i) = Inr (kv, DBItr', h1)"
    "h' = h1\<lparr>qh_queryItrs := (qh_queryItrs h1)[i := DBItr']\<rparr>"
    using assms(2) by (auto simp: qh_queryNext_def res_bind_eq_Inr index_slice_def split: if_splits)
  have q: "query_inv m valid (qh_queryItrs h ! i)" using assms(1) nth_mem[OF n(1)] by (simp add: sim_inv_def)
  show ?thesis
  proof (cases "qh_queryItrs h ! i")
    case Nil
    then show ?thesis using n assms(1)
      by (auto simp: queryResultsItr_Next_def sim_inv_def query_inv_def dest!: subsetD[OF set_update_subset_insert])
  next
    case (Cons r rs)
    then obtain x where x: "r = Inr x" "DBItr' = rs" "h1 = add_read h (Namespace (kv_CompositeKey x)) (kv_Key x) (Some (Version (kv_VersionedValue x)))"
      using n(2) by (cases r) (auto simp: queryResultsItr_Next_def)
    have "valid (Namespace (kv_CompositeKey x))" "m (Namespace (kv_CompositeKey x)) (kv_Key x) = Some (kv_VersionedValue x)"
      using q Cons x(1) by (simp_all add: query_inv_def)
    then have "sim_inv E cfg m valid h1" unfolding x(3) by (intro sim_inv_read[OF assms(1)]) simp_all
    moreover have "query_inv m valid rs" using q Cons by (simp add: query_inv_def)
    ultimately show ?thesis using n(3) x(2) by (auto simp: sim_inv_def dest!: subsetD[OF set_update_subset_insert])
  qed
qed

context versioned_db_ok
begin

lemma newResultsItr_inv:
  assumes "inv s" "valid_ns ns" "newResultsItr cfg DB s ns a e True = Inr itr"
  shows "ri_ns itr = ns \<and> ri_inv cfg (view s) itr"
  using assms(3) scan_eq[OF assms(1,2), of a e]
  by (auto simp: newResultsItr_def res_bind_eq_Inr Let_def ri_inv_def)

lemma sim_step_inv:
  assumes "inv s" "op_ns_ok valid_ns op" "sim_inv E cfg (view s) valid_ns h" "sim_step cfg DB s h op = Inr h'"
  shows "sim_inv E cfg (view s) valid_ns h'"
proof (cases op)
  case (OpGetState ns key)
  with assms show ?thesis
    using GetState_eq[of s ns key] snd_decompose[of "view s ns key"]
    by (cases "decomposeVersionedValue (view s ns key)")
      (auto simp: qh_getState_def res_bind_eq_Inr intro!: sim_inv_read)
next
  case (OpGetStateMultipleKeys ns keys)
  then obtain vals where "qh_getStateMultipleKeys DB s h ns keys = Inr (vals, h')"
    using assms(4) by (auto simp: res_bind_eq_Inr)
  then show ?thesis
    using assms(1-3) OpGetStateMultipleKeys GetStateMultipleKeys_view[of s ns keys] sim_inv_read_values[OF assms(3)]
    by (fastforce simp: qh_getStateMultipleKeys_def res_bind_eq_Inr split: sum.splits go_err.splits if_splits)
next
  case (OpRangeScan ns a e)
  then obtain itr where "newResultsItr cfg DB s ns a e True = Inr itr" "h' = h\<lparr>qh_itrs := qh_itrs h @ [itr]\<rparr>"
    using assms(3,4) by (auto simp: res_bind_eq_Inr qh_getStateRangeScanIterator_def sim_inv_def)
  with newResultsItr_inv[OF assms(1)] OpRangeScan assms(2,3) show ?thesis by (auto simp: sim_inv_def)
next
  case (OpNext i)
  then obtain kv itr' where n: "resultsItr_Next cfg (qh_itrs h ! i) = Inr (kv, itr')" "i < length (qh_itrs h)"
    "h' = h\<lparr>qh_itrs := (qh_itrs h)[i := itr']\<rparr>"
    using assms(4) by (auto simp: res_bind_eq_Inr qh_Next_def index_slice_def split: if_splits)
  then have "valid_ns (ri_ns (qh_itrs h ! i))" "ri_inv cfg (view s) (qh_itrs h ! i)"
    using assms(3) nth_mem by (auto simp: sim_inv_def)
  with ri_inv_Next[OF _ n(1)] n(3) assms(3) show ?thesis
    by (auto simp: sim_inv_def dest!: subsetD[OF set_update_subset_insert])
next
  case (OpExecuteQuery ns query)
  then show ?thesis using assms ExecuteQuery_view[OF assms(1)]
    by (auto simp: res_bind_eq_Inr qh_executeQuery_def sim_inv_def query_inv_def)
next
  case (OpQueryNext i)
  then show ?thesis using assms(3,4) by (auto simp: res_bind_eq_Inr intro: sim_inv_queryNext)
qed (use assms in \<open>auto simp: sim_DeleteState_def sim_SetState_def sim_inv_def res_bind_eq_Inr
    intro: builder_current_write split: option.splits\<close>)

end

section \<open>Closing a simulation\<close>

lemma done_info_fields [simp]:
  "rq_StartKey (done_info info rs hash) = rq_StartKey info" "rq_EndKey (done_info info rs hash) = rq_EndKey info"
  "rq_ItrExhausted (done_info info rs hash) = rq_ItrExhausted info"
  by (simp_all add: done_info_def SetRawReads_def SetMerkelSummary_def Let_def split: option.splits)

lemma ri_inv_range_current:
  assumes inv: "ri_inv cfg m itr" "itr_used itr" "finite (dom (m (ri_ns itr)))"
    and fns: "total_fn (sc_hash cfg)" "total_fn (sc_serialize cfg)"
    and env: "ve_hash E = sc_hash cfg" "ve_serialize E = sc_serialize cfg"
    and info: "ri_rangeQueryInfo itr = Some info" "ri_resultsHelper itr = Some helper"
    and fin: "helper_Done (sc_hash cfg) (sc_serialize cfg) helper = Some (h', Inr (rs, hash))"
  shows "range_current E m (ri_ns itr) (done_info info rs hash)"
proof -
  from inv(1) info obtain h0 results rest where i:
    "NewRangeQueryResultsHelper (IsQueryReadsHashingEnabled cfg) (MaxDegreeQueryReadsHashing cfg) = Inr h0"
    "feed (sc_hash cfg) (sc_serialize cfg) h0 (map kv_read results) = Some helper"
    "rq_ReadsInfo info = None"
    "scan_view (ri_ns itr) (rq_StartKey info) (ri_endKey itr) (m (ri_ns itr)) = results @ rest"
    "if rq_ItrExhausted info then rest = [] \<and> rq_EndKey info = ri_endKey itr
     else rq_EndKey info = (if results = [] then '''' else kv_Key (last results))"
    unfolding ri_inv_def by auto
  have now: "range_spec m (ri_ns itr) (rq_StartKey info) (rq_EndKey info) (\<not> rq_ItrExhausted info) = results"
  proof (cases "rq_ItrExhausted info")
    case True
    with i(4,5) show ?thesis by (simp add: range_spec_def)
  next
    case False
    with i(5) inv(2) info(1) have "results \<noteq> []" "kv_Key (last results) \<noteq> ''''"
      by (auto simp: itr_used_def split: if_splits)
    with scan_view_up_to[of m _ _ _ results, OF inv(3) i(4)] False i(5) show ?thesis by simp
  qed
  from recorded_results[OF fns i(1,2) fin] show ?thesis
    using i(3) by (auto simp: range_current_def now env done_info_def SetRawReads_def SetMerkelSummary_def
        GetReadsMerkleHashes_def GetRawReads_def)
qed

lemma qh_done_loop_current:
  assumes "total_fn (sc_hash cfg)" "total_fn (sc_serialize cfg)"
    and "ve_hash E = sc_hash cfg" "ve_serialize E = sc_serialize cfg"
    and "\<And>ns. valid ns \<Longrightarrow> finite (dom (m ns))"
  shows "builder_current E m valid b
     \<Longrightarrow> \<forall>itr \<in> set itrs. valid (ri_ns itr) \<and> ri_inv cfg m itr \<and> itr_used itr
     \<Longrightarrow> qh_done_loop cfg itrs b = Inr (b', err) \<Longrightarrow> builder_current E m valid b'"
proof (induction itrs arbitrary: b)
  case (Cons itr itrs)
  then have itr: "ri_inv cfg m itr" "itr_used itr" "valid (ri_ns itr)" by auto
  then obtain info helper where h: "ri_rangeQueryInfo itr = Some info" "ri_resultsHelper itr = Some helper"
    by (auto simp: ri_inv_def)
  from Cons.prems(3) h consider "b' = b"
    | h' rs hash where "helper_Done (sc_hash cfg) (sc_serialize cfg) helper = Some (h', Inr (rs, hash))"
      "qh_done_loop cfg itrs (AddToRangeQuerySet b (ri_ns itr) (done_info info rs hash)) = Inr (b', err)"
    by (auto split: option.splits sum.splits go_err.splits)
  then show ?case
  proof cases
    case 1
    with Cons.prems(1) show ?thesis by simp
  next
    case (2 h' rs hash)
    from ri_inv_range_current[OF itr(1,2) assms(5)[OF itr(3)] assms(1-4) h 2(1)]
    have "builder_current E m valid (AddToRangeQuerySet b (ri_ns itr) (done_info info rs hash))"
      by (rule builder_current_range[OF Cons.prems(1) itr(3)])
    from Cons.IH[OF this _ 2(2)] Cons.prems(2) show ?thesis by simp
  qed
qed simp

lemma builder_current_reads:
  assumes "builder_current E m valid b"
  shows "reads_current E m (GetTxReadWriteSet b)" "tx_ns_ok valid (GetTxReadWriteSet b)"
proof -
  show "reads_current E m (GetTxReadWriteSet b)"
    using assms GetTxReadWriteSet_reads[of _ b]
    by (fastforce simp: reads_current_def builder_current_def read_current_def)
  show "tx_ns_ok valid (GetTxReadWriteSet b)"
    using assms NameSpace_GetTxReadWriteSet[of b] by (auto simp: tx_ns_ok_def builder_current_def)
qed

lemma length_range_spec:
  assumes "finite (dom (m ns))"
  shows "length (range_spec m ns a e inc) \<le> card (dom (m ns)) + 1"
proof -
  have "length (scan_view ns a e (m ns)) \<le> card (dom (m ns))"
    using assms by (simp add: scan_view_def scan_keys_def card_mono)
  then show ?thesis by (simp add: range_spec_def split: option.splits)
qed

context versioned_db_ok
begin

lemma validateRangeQueries_complete:
  assumes "inv s" "valid_ns ns" "batch_wf u" "\<forall>q \<in> set qs. range_current E (overlay (view s) u) ns q"
    and "finite (dom (overlay (view s) u ns))" "card (dom (overlay (view s) u ns)) + 5 < 2 ^ 32"
  shows "validateRangeQueries E DB s ns qs u = Inr True"
  using assms(4)
proof (induction qs)
  case (Cons q qs)
  have "length (range_spec (overlay (view s) u) ns a e inc) + 4 < 2 ^ 32" for a e inc
    using length_range_spec[of "overlay (view s) u" ns a e inc, OF assms(5)] assms(6) by linarith
  with validateRangeQuery_complete[OF assms(1-3)] Cons show ?case by simp
qed simp

text \<open>A transaction whose reads are current is valid: validation refuses nothing it could commit.\<close>

lemma validateTx_complete:
  assumes "inv s" "tx_ns_ok valid_ns t" "reads_current E (view s) t"
    and "\<forall>ns. valid_ns ns \<longrightarrow> card (dom (view s ns)) + 5 < 2 ^ 32"
  shows "validateTx E DB s t NewUpdateBatch = Inr TxValidationCode_VALID"
proof -
  have "validateTx_loop E DB s l NewUpdateBatch = Inr TxValidationCode_VALID" if "set l \<subseteq> set (NsRwSets t)" for l
    using that
  proof (induction l)
    case (Cons n l)
    then have n: "valid_ns (NameSpace n)" using assms(2) by (auto simp: tx_ns_ok_def)
    have "validateReadSet DB s (NameSpace n) (Reads (KvRwSet n)) NewUpdateBatch = Inr True"
      using Cons.prems assms(3) by (auto simp: validateReadSet_eq[OF assms(1) n] reads_current_def)
    moreover have "validateRangeQueries E DB s (NameSpace n) (RangeQueriesInfo (KvRwSet n)) NewUpdateBatch = Inr True"
      using Cons.prems assms(3,4) n finite_view[OF assms(1) n]
      by (intro validateRangeQueries_complete[OF assms(1) n]) (auto simp: reads_current_def)
    ultimately show ?case using Cons by simp
  qed simp
  then show ?thesis by (simp add: validateTx_def)
qed

text \<open>The results of a simulation are current in the state it ran on, so they validate against it.\<close>

lemma sim_inv_new: "sim_inv E cfg m valid newLockBasedTxSimulator"
  by (simp add: sim_inv_def newLockBasedTxSimulator_def builder_current_def)

lemma sim_results_current:
  assumes "inv s" "sim_inv E cfg (view s) valid_ns h"
    and "total_fn (sc_hash cfg)" "total_fn (sc_serialize cfg)"
    and "ve_hash E = sc_hash cfg" "ve_serialize E = sc_serialize cfg"
    and "\<forall>itr \<in> set (qh_itrs h). itr_used itr"
    and "\<not> qh_doneInvoked h" "sim_results cfg h = Inr (t, h')"
  shows "reads_current E (view s) t" "tx_ns_ok valid_ns t"
proof -
  from assms(2) obtain b where b: "qh_rwsetBuilder h = Some b"
    "builder_current E (view s) valid_ns b"
    "\<forall>itr \<in> set (qh_itrs h). valid_ns (ri_ns itr) \<and> ri_inv cfg (view s) itr \<and> itr_used itr"
    using assms(7) by (auto simp: sim_inv_def)
  from assms(8,9) b(1) obtain b' err where d: "qh_done_loop cfg (qh_itrs h) b = Inr (b', err)"
    "t = GetTxReadWriteSet b'"
    by (auto simp: sim_results_def qh_done_def res_bind_eq_Inr split: option.splits)
  from qh_done_loop_current[OF assms(3-6) finite_view[OF assms(1)] b(2,3) d(1)] d(2)
  show "reads_current E (view s) t" "tx_ns_ok valid_ns t" using builder_current_reads by simp_all
qed

end

end
