(* ===== verification/Lock_TxMgr.thy ===== *)
theory Lock_TxMgr
  imports Tx_Simulator
begin

text \<open>
  The lock-based transaction manager of
  \<^verbatim>\<open>core/ledger/kvledger/txmgmt/txmgr/lockbasedtxmgr/lockbased_txmgr.go\<close>: it hands out
  simulators and query executors, prepares the updates of a block and commits them. The
  read-write lock is the number of readers that hold it; the writer, \<^verbatim>\<open>Commit\<close>, can only
  run when no reader does. A system of a manager and its simulators runs as an interleaving
  of their operations; the results show that every open simulator reads one and the same
  state, and that recommitting a block reproduces its commit.
\<close>

section \<open>The manager\<close>

record 's LockBasedTxMgr =
  tm_db :: 's
  tm_batch :: "UpdateBatch option"
  tm_currentBlock :: "Block option"
  tm_readers :: nat

definition NewLockBasedTxMgr :: "'s \<Rightarrow> 's LockBasedTxMgr" where
  "NewLockBasedTxMgr db = \<lparr>tm_db = db, tm_batch = None, tm_currentBlock = None, tm_readers = 0\<rparr>"

definition tm_GetLastSavepoint :: "'s VersionedDB \<Rightarrow> 's LockBasedTxMgr \<Rightarrow> Height option res" where
  "tm_GetLastSavepoint D tm = vdb_GetLatestSavePoint D (tm_db tm)"

definition tm_NewQueryExecutor :: "'s LockBasedTxMgr \<Rightarrow> queryHelper \<times> 's LockBasedTxMgr" where
  "tm_NewQueryExecutor tm = (newQueryExecutor, tm\<lparr>tm_readers := tm_readers tm + 1\<rparr>)"

definition tm_NewTxSimulator :: "'s LockBasedTxMgr \<Rightarrow> queryHelper \<times> 's LockBasedTxMgr" where
  "tm_NewTxSimulator tm = (newLockBasedTxSimulator, tm\<lparr>tm_readers := tm_readers tm + 1\<rparr>)"

text \<open>\<^verbatim>\<open>done\<close> of a simulator or query executor: the read lock is released once.\<close>

definition tm_Done :: "sim_config \<Rightarrow> 's LockBasedTxMgr \<Rightarrow> queryHelper \<Rightarrow> ('s LockBasedTxMgr \<times> queryHelper) res" where
  "tm_Done cfg tm h =
     res_bind (qh_done cfg h) (\<lambda>h'.
       Inr (if qh_doneInvoked h then tm else tm\<lparr>tm_readers := tm_readers tm - 1\<rparr>, h'))"

text \<open>The outcome has the block because its transaction flags are changed in place.\<close>

definition tm_ValidateAndPrepare :: "val_env \<Rightarrow> 's VersionedDB \<Rightarrow> 's LockBasedTxMgr \<Rightarrow> Block \<Rightarrow> bool
    \<Rightarrow> ('s LockBasedTxMgr \<times> Block) \<times> unit res" where
  "tm_ValidateAndPrepare E D tm block doMVCCValidation =
     (case ValidateAndPrepareBatch E D (tm_db tm) block doMVCCValidation of
        (block', Inl e) \<Rightarrow> ((tm, block'), Inl e)
      | (block', Inr batch) \<Rightarrow>
          ((tm\<lparr>tm_currentBlock := Some block', tm_batch := Some batch\<rparr>, block'), Inr ()))"

text \<open>\<^const>\<open>None\<close> is a call that waits for the readers. The batch is dropped on every path but the
  panic for the missing batch.\<close>

definition tm_Commit :: "'s VersionedDB \<Rightarrow> 's LockBasedTxMgr \<Rightarrow> ('s LockBasedTxMgr \<times> unit res) option" where
  "tm_Commit D tm =
     (if tm_readers tm \<noteq> 0 then None
      else Some
        (case tm_batch tm of
           None \<Rightarrow> (tm, Inl (GoPanic ''validateAndPrepare() method should have been called before calling commit()''))
         | Some batch \<Rightarrow>
           (case tm_currentBlock tm of
              None \<Rightarrow> (tm\<lparr>tm_batch := None\<rparr>, Inl (GoPanic ''nil pointer dereference''))
            | Some block \<Rightarrow>
              (case vdb_ApplyUpdates D (tm_db tm) batch
                      (NewHeight (blk_Number block) (word_of_int (int (length (blk_Data block)) - 1))) of
                 (s', None) \<Rightarrow> (tm\<lparr>tm_db := s', tm_batch := None\<rparr>, Inr ())
               | (s', Some e) \<Rightarrow> (tm\<lparr>tm_db := s', tm_batch := None\<rparr>, Inl e)))))"

definition tm_Rollback :: "'s LockBasedTxMgr \<Rightarrow> 's LockBasedTxMgr" where
  "tm_Rollback tm = tm\<lparr>tm_batch := None\<rparr>"

definition tm_ShouldRecover :: "'s VersionedDB \<Rightarrow> 's LockBasedTxMgr \<Rightarrow> uint64 \<Rightarrow> (bool \<times> uint64) res" where
  "tm_ShouldRecover D tm lastAvailableBlock =
     res_bind (tm_GetLastSavepoint D tm) (\<lambda>savepoint.
       case savepoint of
         None \<Rightarrow> Inr (True, 0)
       | Some sp \<Rightarrow> Inr (BlockNum sp \<noteq> lastAvailableBlock, BlockNum sp + 1))"

definition tm_CommitLostBlock :: "val_env \<Rightarrow> 's VersionedDB \<Rightarrow> 's LockBasedTxMgr \<Rightarrow> Block
    \<Rightarrow> (('s LockBasedTxMgr \<times> Block) \<times> unit res) option" where
  "tm_CommitLostBlock E D tm block =
     (case tm_ValidateAndPrepare E D tm block False of
        (st, Inl e) \<Rightarrow> Some (st, Inl e)
      | ((tm', block'), Inr _) \<Rightarrow>
          (case tm_Commit D tm' of
             None \<Rightarrow> None
           | Some (tm'', r) \<Rightarrow> Some ((tm'', block'), r)))"

section \<open>Interleaved runs\<close>

text \<open>A manager and the simulators and query executors it has handed out. A step is one call:
  of an operation of the manager, or of an operation of one of the simulators.\<close>

record 's txmgr_sys =
  ts_mgr :: "'s LockBasedTxMgr"
  ts_sims :: "queryHelper list"

inductive tm_step :: "val_env \<Rightarrow> sim_config \<Rightarrow> 's VersionedDB \<Rightarrow> (string \<Rightarrow> bool)
    \<Rightarrow> 's txmgr_sys \<Rightarrow> 's txmgr_sys \<Rightarrow> bool"
  for E :: val_env and cfg :: sim_config and D :: "'s VersionedDB" and valid :: "string \<Rightarrow> bool" where
  new_simulator: "tm_NewTxSimulator tm = (h, tm') \<Longrightarrow>
    tm_step E cfg D valid \<lparr>ts_mgr = tm, ts_sims = hs\<rparr> \<lparr>ts_mgr = tm', ts_sims = hs @ [h]\<rparr>"
| new_executor: "tm_NewQueryExecutor tm = (h, tm') \<Longrightarrow>
    tm_step E cfg D valid \<lparr>ts_mgr = tm, ts_sims = hs\<rparr> \<lparr>ts_mgr = tm', ts_sims = hs @ [h]\<rparr>"
| simulate: "i < length hs \<Longrightarrow> op_ns_ok valid op \<Longrightarrow> sim_step cfg D (tm_db tm) (hs ! i) op = Inr h \<Longrightarrow>
    tm_step E cfg D valid \<lparr>ts_mgr = tm, ts_sims = hs\<rparr> \<lparr>ts_mgr = tm, ts_sims = hs[i := h]\<rparr>"
| finish: "i < length hs \<Longrightarrow> tm_Done cfg tm (hs ! i) = Inr (tm', h) \<Longrightarrow>
    tm_step E cfg D valid \<lparr>ts_mgr = tm, ts_sims = hs\<rparr> \<lparr>ts_mgr = tm', ts_sims = hs[i := h]\<rparr>"
| prepare: "\<forall>env \<in> set (blk_Data block). \<forall>t. endorser_rwset E env = Some t \<longrightarrow> tx_ns_ok valid t \<Longrightarrow>
    tm_ValidateAndPrepare E D tm block mvcc = ((tm', block'), r) \<Longrightarrow>
    tm_step E cfg D valid \<lparr>ts_mgr = tm, ts_sims = hs\<rparr> \<lparr>ts_mgr = tm', ts_sims = hs\<rparr>"
| commit: "tm_Commit D tm = Some (tm', r) \<Longrightarrow>
    tm_step E cfg D valid \<lparr>ts_mgr = tm, ts_sims = hs\<rparr> \<lparr>ts_mgr = tm', ts_sims = hs\<rparr>"
| rollback: "tm_step E cfg D valid \<lparr>ts_mgr = tm, ts_sims = hs\<rparr> \<lparr>ts_mgr = tm_Rollback tm, ts_sims = hs\<rparr>"

inductive_simps tm_step_iff: "tm_step E cfg D valid \<lparr>ts_mgr = tm, ts_sims = hs\<rparr> sys'"

inductive tm_reach :: "val_env \<Rightarrow> sim_config \<Rightarrow> 's VersionedDB \<Rightarrow> (string \<Rightarrow> bool) \<Rightarrow> 's
    \<Rightarrow> 's txmgr_sys \<Rightarrow> bool"
  for E :: val_env and cfg :: sim_config and D :: "'s VersionedDB" and valid :: "string \<Rightarrow> bool" and s0 :: 's where
  start: "tm_reach E cfg D valid s0 \<lparr>ts_mgr = NewLockBasedTxMgr s0, ts_sims = []\<rparr>"
| step: "tm_reach E cfg D valid s0 sys \<Longrightarrow> tm_step E cfg D valid sys sys' \<Longrightarrow> tm_reach E cfg D valid s0 sys'"

definition open_count :: "queryHelper list \<Rightarrow> nat" where
  "open_count hs = length (filter (\<lambda>h. \<not> qh_doneInvoked h) hs)"

lemma open_count_append [simp]: "open_count (hs @ [h]) = open_count hs + (if qh_doneInvoked h then 0 else 1)"
  by (simp add: open_count_def)

lemma open_count_update:
  "i < length hs \<Longrightarrow> open_count (hs[i := h]) + (if qh_doneInvoked (hs ! i) then 0 else 1)
     = open_count hs + (if qh_doneInvoked h then 0 else 1)"
proof (induction hs arbitrary: i)
  case (Cons a hs)
  show ?case
  proof (cases i)
    case (Suc j)
    with Cons.prems have "j < length hs" by simp
    from Cons.IH[OF this] Suc show ?thesis by (simp add: open_count_def split: if_splits)
  qed (simp add: open_count_def)
qed simp

lemma open_count_0: "open_count hs = 0 \<longleftrightarrow> (\<forall>h \<in> set hs. qh_doneInvoked h)"
  by (auto simp: open_count_def filter_empty_conv)

text \<open>The manager counts its open simulators, and each of them has read the current contents.\<close>

definition sys_ok :: "('s \<Rightarrow> bool) \<Rightarrow> ('s \<Rightarrow> contents) \<Rightarrow> val_env \<Rightarrow> sim_config \<Rightarrow> (string \<Rightarrow> bool) \<Rightarrow> 's txmgr_sys \<Rightarrow> bool" where
  "sys_ok ok view E cfg valid sys \<longleftrightarrow>
     ok (tm_db (ts_mgr sys)) \<and> tm_readers (ts_mgr sys) = open_count (ts_sims sys)
     \<and> (\<forall>b. tm_batch (ts_mgr sys) = Some b \<longrightarrow> batch_wf b \<and> (\<forall>ns \<in> batch_namespaces b. valid ns))
     \<and> (\<forall>h \<in> set (ts_sims sys). \<not> qh_doneInvoked h \<and> qh_rwsetBuilder h \<noteq> None
          \<longrightarrow> sim_inv E cfg (view (tm_db (ts_mgr sys))) valid h)"

lemma add_read_frame [simp]:
  "qh_doneInvoked (add_read h ns k v) = qh_doneInvoked h"
  "qh_rwsetBuilder (add_read h ns k v) = None \<longleftrightarrow> qh_rwsetBuilder h = None"
  by (simp_all add: add_read_def split: option.splits)

lemma read_values_frame:
  "read_values h ns keys vs = Inr (vals, h') \<Longrightarrow>
     qh_doneInvoked h' = qh_doneInvoked h \<and> (qh_rwsetBuilder h' = None \<longleftrightarrow> qh_rwsetBuilder h = None)"
  by (induction h ns keys vs arbitrary: vals rule: read_values.induct)
    (fastforce simp: res_bind_eq_Inr Let_def split: prod.splits)+

lemma sim_step_frame:
  assumes "sim_step cfg D s h op = Inr h'"
  shows "qh_doneInvoked h' = qh_doneInvoked h \<and> (qh_rwsetBuilder h' = None \<longleftrightarrow> qh_rwsetBuilder h = None)"
proof (cases op)
  case (OpGetStateMultipleKeys ns keys)
  with assms show ?thesis
    by (auto simp: res_bind_eq_Inr qh_getStateMultipleKeys_def dest!: read_values_frame
        split: sum.splits go_err.splits if_splits)
qed (use assms in \<open>auto simp: res_bind_eq_Inr qh_getState_def case_prod_unfold Let_def
    qh_getStateRangeScanIterator_def qh_Next_def qh_executeQuery_def qh_queryNext_def queryResultsItr_Next_def
    sim_DeleteState_def sim_SetState_def
    split: option.splits\<close>)

lemma qh_done_frame: "qh_done cfg h = Inr h' \<Longrightarrow> qh_doneInvoked h'"
  by (auto simp: qh_done_def res_bind_eq_Inr split: if_splits option.splits prod.splits)

lemma tm_NewLockBasedTxMgr_ok:
  "ok s0 \<Longrightarrow> sys_ok ok view E cfg valid \<lparr>ts_mgr = NewLockBasedTxMgr s0, ts_sims = []\<rparr>"
  by (simp add: sys_ok_def NewLockBasedTxMgr_def open_count_def)

context versioned_db_ok
begin

lemma sys_ok_simulate:
  assumes "sys_ok inv view E cfg valid_ns \<lparr>ts_mgr = tm, ts_sims = hs\<rparr>" "i < length hs"
    and "op_ns_ok valid_ns op" "sim_step cfg DB (tm_db tm) (hs ! i) op = Inr h"
  shows "sys_ok inv view E cfg valid_ns \<lparr>ts_mgr = tm, ts_sims = hs[i := h]\<rparr>"
proof -
  note frame = sim_step_frame[OF assms(4)]
  have "open_count (hs[i := h]) = open_count hs" using open_count_update[OF assms(2), of h] frame by simp
  moreover have "sim_inv E cfg (view (tm_db tm)) valid_ns h" if "\<not> qh_doneInvoked h" "qh_rwsetBuilder h \<noteq> None"
    using that frame assms nth_mem[OF assms(2)] sim_step_inv[OF _ assms(3) _ assms(4)]
    by (simp add: sys_ok_def)
  ultimately show ?thesis using assms(1) by (auto simp: sys_ok_def dest!: subsetD[OF set_update_subset_insert])
qed

lemma sys_ok_finish:
  assumes "sys_ok inv view E cfg valid_ns \<lparr>ts_mgr = tm, ts_sims = hs\<rparr>" "i < length hs"
    and "tm_Done cfg tm (hs ! i) = Inr (tm', h)"
  shows "sys_ok inv view E cfg valid_ns \<lparr>ts_mgr = tm', ts_sims = hs[i := h]\<rparr>"
proof -
  from assms(3) have h: "qh_doneInvoked h"
    and tm': "tm' = (if qh_doneInvoked (hs ! i) then tm else tm\<lparr>tm_readers := tm_readers tm - 1\<rparr>)"
    by (auto simp: tm_Done_def res_bind_eq_Inr intro: qh_done_frame)
  have "tm_readers tm' = open_count (hs[i := h])"
    using open_count_update[OF assms(2), of h] h tm' assms(1) by (auto simp: sys_ok_def split: if_splits)
  with assms(1) h tm' show ?thesis by (auto simp: sys_ok_def dest!: subsetD[OF set_update_subset_insert])
qed

lemma sys_ok_commit:
  assumes "sys_ok inv view E cfg valid_ns \<lparr>ts_mgr = tm, ts_sims = hs\<rparr>" "tm_Commit DB tm = Some (tm', r)"
  shows "sys_ok inv view E cfg valid_ns \<lparr>ts_mgr = tm', ts_sims = hs\<rparr>"
proof -
  have r: "tm_readers tm = 0" "open_count hs = 0" using assms by (auto simp: tm_Commit_def sys_ok_def split: if_splits)
  have "inv (tm_db tm')" if "tm_batch tm = Some b" "tm_currentBlock tm = Some blk" for b blk
  proof -
    let ?h = "NewHeight (blk_Number blk) (word_of_int (int (length (blk_Data blk)) - 1))"
    have b: "inv (tm_db tm)" "batch_wf b" "\<forall>ns \<in> batch_namespaces b. valid_ns ns"
      using assms(1) that by (auto simp: sys_ok_def)
    obtain s' where s': "vdb_ApplyUpdates DB (tm_db tm) b ?h = (s', None)"
      using ApplyUpdates_total[OF b, of ?h] by (metis prod.collapse)
    with assms(2) that r(1) have "tm_db tm' = s'" by (auto simp: tm_Commit_def)
    with ApplyUpdates_inv[OF b s'] show ?thesis by simp
  qed
  with assms r show ?thesis
    by (auto simp: open_count_0 sys_ok_def tm_Commit_def split: if_splits option.splits prod.splits)
qed

lemma sys_ok_step:
  assumes "tm_step E cfg DB valid_ns sys sys'" "sys_ok inv view E cfg valid_ns sys"
  shows "sys_ok inv view E cfg valid_ns sys'"
  using assms
proof cases
  case (prepare block tm mvcc tm' block' r hs)
  obtain u where u: "ValidateAndPrepareBatch E DB (tm_db tm) block mvcc = (block', u)"
    using prepare(4) by (auto simp: tm_ValidateAndPrepare_def split: prod.splits sum.splits)
  show ?thesis
  proof (cases u)
    case (Inl e)
    with u prepare(1,2,4) assms(2) show ?thesis by (simp add: tm_ValidateAndPrepare_def)
  next
    case (Inr b)
    from ValidateAndPrepareBatch_batch(1,2)[OF u[unfolded Inr] prepare(3)] u Inr prepare(1,2,4) assms(2)
    show ?thesis by (auto simp: tm_ValidateAndPrepare_def sys_ok_def)
  qed
next
  case (simulate i hs op tm h)
  with assms(2) show ?thesis using sys_ok_simulate by blast
next
  case (finish i hs tm tm' h)
  with assms(2) show ?thesis using sys_ok_finish by blast
next
  case (commit tm tm' r hs)
  with assms(2) show ?thesis using sys_ok_commit by blast
next
  case (new_simulator tm h tm' hs)
  with assms(2) sim_inv_new[of E cfg _ valid_ns] show ?thesis
    by (auto simp: sys_ok_def tm_NewTxSimulator_def newLockBasedTxSimulator_def)
next
  case (new_executor tm h tm' hs)
  with assms(2) show ?thesis by (auto simp: sys_ok_def tm_NewQueryExecutor_def newQueryExecutor_def)
next
  case (rollback tm hs)
  with assms(2) show ?thesis by (auto simp: sys_ok_def tm_Rollback_def)
qed

lemma sys_ok_reach:
  "tm_reach E cfg DB valid_ns s0 sys \<Longrightarrow> inv s0 \<Longrightarrow> sys_ok inv view E cfg valid_ns sys"
  by (induction rule: tm_reach.induct) (auto intro: tm_NewLockBasedTxMgr_ok sys_ok_step)

end

section \<open>Commit and recovery\<close>

text \<open>What a block leaves in the database and how its recommit after a crash goes.\<close>

context versioned_db_ok
begin

lemma commit_block:
  assumes "inv (tm_db tm)" "\<forall>env \<in> set (blk_Data block). \<forall>t. endorser_rwset E env = Some t \<longrightarrow> tx_ns_ok valid_ns t"
    and "tm_ValidateAndPrepare E DB tm block True = ((tm1, block'), Inr ())" "tm_Commit DB tm1 = Some (tm2, Inr ())"
    and "f = blk_Metadata block' ! BlockMetadataIndex_TRANSACTIONS_FILTER" "valid_ns ns"
  shows "view (tm_db tm2) ns = replay E (blk_Number block) 0 (blk_Data block) f (view (tm_db tm)) ns"
    and "vdb_GetLatestSavePoint DB (tm_db tm2) = Inr sp \<Longrightarrow> sp = Some (NewHeight (blk_Number block)
           (word_of_int (int (length (blk_Data block)) - 1)))"
proof -
  let ?h = "NewHeight (blk_Number block) (word_of_int (int (length (blk_Data block)) - 1))"
  from assms(3) obtain u where u: "ValidateAndPrepareBatch E DB (tm_db tm) block True = (block', Inr u)"
    "tm1 = tm\<lparr>tm_currentBlock := Some block', tm_batch := Some u\<rparr>"
    by (auto simp: tm_ValidateAndPrepare_def split: prod.splits sum.splits)
  note b = ValidateAndPrepareBatch_batch[OF u(1) assms(2)]
  from assms(4) u(2) b(3,4) have ap: "vdb_ApplyUpdates DB (tm_db tm) u ?h = (tm_db tm2, None)"
    by (auto simp: tm_Commit_def split: if_splits prod.splits option.splits)
  from ApplyUpdates_view[OF assms(1) b(1,2) ap assms(6)] validate_block_serial[OF u(1) assms(1,2,5)]
  show "view (tm_db tm2) ns = replay E (blk_Number block) 0 (blk_Data block) f (view (tm_db tm)) ns" by simp
  from ApplyUpdates_savepoint[OF assms(1) b(1,2) ap]
  show "vdb_GetLatestSavePoint DB (tm_db tm2) = Inr sp \<Longrightarrow> sp = Some ?h" .
qed

end

lemma CommitLostBlock_again:
  assumes "tm_ValidateAndPrepare E D tm block mvcc = ((tm1, block'), Inr ())" "tm_Commit D tm1 = Some (tm2, r)"
    and "tm_db tm' = tm_db tm" "tm_readers tm' = 0"
  shows "\<exists>tm3. tm_CommitLostBlock E D tm' block' = Some ((tm3, block'), r) \<and> tm_db tm3 = tm_db tm2"
proof -
  from assms(1) obtain u where u: "ValidateAndPrepareBatch E D (tm_db tm) block mvcc = (block', Inr u)"
    "tm1 = tm\<lparr>tm_currentBlock := Some block', tm_batch := Some u\<rparr>"
    by (auto simp: tm_ValidateAndPrepare_def split: prod.splits sum.splits)
  have "ValidateAndPrepareBatch E D (tm_db tm) block' False = (block', Inr u)"
    by (rule ValidateAndPrepareBatch_again[OF u(1)])
  then show ?thesis using assms(2-4) u(2)
    by (auto simp: tm_CommitLostBlock_def tm_ValidateAndPrepare_def tm_Commit_def
        split: if_splits prod.splits option.splits)
qed

end
