(* ===== verification/History_DB.thy ===== *)
theory History_DB
  imports Ledger_Examples "HOL-Library.Product_Lexorder"
begin

text \<open>
  The history database (\<^verbatim>\<open>core/ledger/kvledger/history/historydb\<close>): the composite keys
  \<open>namespace 0 key 0 block transaction\<close> of \<^verbatim>\<open>histmgr_helper.go\<close>, the commit of a block and the
  recovery of \<^verbatim>\<open>historyleveldb.go\<close>, and the scan over the writes of a key of
  \<^verbatim>\<open>historyleveldb_query_executer.go\<close>. The block store is an interface: the lookup of a
  transaction by its height is a parameter. The results characterise what a commit records and
  show that a query visits the recorded writes of a key in the order of their heights.
\<close>

section \<open>Keys\<close>

definition hist_compositeKeySep :: bytes where
  "hist_compositeKeySep = [0]"

definition hist_savePointKey :: bytes where
  "hist_savePointKey = [0]"

definition ConstructCompositeHistoryKey :: "string \<Rightarrow> string \<Rightarrow> uint64 \<Rightarrow> uint64 \<Rightarrow> bytes res" where
  "ConstructCompositeHistoryKey ns key blocknum trannum =
     res_bind (EncodeOrderPreservingVarUint64 blocknum) (\<lambda>b.
     res_bind (EncodeOrderPreservingVarUint64 trannum) (\<lambda>t.
       Inr (string_bytes ns @ hist_compositeKeySep @ string_bytes key @ hist_compositeKeySep @ b @ t)))"

definition ConstructPartialCompositeHistoryKey :: "string \<Rightarrow> string \<Rightarrow> bool \<Rightarrow> bytes" where
  "ConstructPartialCompositeHistoryKey ns key endkey =
     string_bytes ns @ hist_compositeKeySep @ string_bytes key @ hist_compositeKeySep
       @ (if endkey then [0xff] else [])"

text \<open>\<^verbatim>\<open>bytes.SplitN(b, sep, 2)\<close> for a separator that is not empty: the parts before and after the
  first occurrence.\<close>

fun split_first :: "bytes \<Rightarrow> bytes \<Rightarrow> (bytes \<times> bytes) option" where
  "split_first sep [] = (if sep = [] then Some ([], []) else None)"
| "split_first sep (b # bs) =
     (if take (length sep) (b # bs) = sep then Some ([], drop (length sep) (b # bs))
      else map_option (\<lambda>(x, y). (b # x, y)) (split_first sep bs))"

definition SplitCompositeHistoryKey :: "bytes \<Rightarrow> bytes \<Rightarrow> (bytes \<times> bytes) res" where
  "SplitCompositeHistoryKey bytesToSplit separator =
     (let split = (case split_first separator bytesToSplit of None \<Rightarrow> [bytesToSplit] | Some (x, y) \<Rightarrow> [x, y])
      in res_bind (index_slice split 0) (\<lambda>a. res_bind (index_slice split 1) (\<lambda>b. Inr (a, b))))"

section \<open>Commit\<close>

fun hist_writes :: "string \<Rightarrow> uint64 \<Rightarrow> uint64 \<Rightarrow> KVWrite list \<Rightarrow> level_batch \<Rightarrow> level_batch res" where
  "hist_writes ns blockNo tranNo [] dbBatch = Inr dbBatch"
| "hist_writes ns blockNo tranNo (kvWrite # rest) dbBatch =
     res_bind (ConstructCompositeHistoryKey ns (w_Key kvWrite) blockNo tranNo) (\<lambda>compositeHistoryKey.
     res_bind (level_batch_Put dbBatch compositeHistoryKey (Some [])) (hist_writes ns blockNo tranNo rest))"

fun hist_ns_writes :: "uint64 \<Rightarrow> uint64 \<Rightarrow> NsRwSet list \<Rightarrow> level_batch \<Rightarrow> level_batch res" where
  "hist_ns_writes blockNo tranNo [] dbBatch = Inr dbBatch"
| "hist_ns_writes blockNo tranNo (nsRWSet # rest) dbBatch =
     res_bind (hist_writes (NameSpace nsRWSet) blockNo tranNo (Writes (KvRwSet nsRWSet)) dbBatch)
       (hist_ns_writes blockNo tranNo rest)"

text \<open>The transaction number is counted as a natural number and converted where the code uses the
  \<^verbatim>\<open>uint64\<close>.\<close>

fun hist_loop :: "val_env \<Rightarrow> uint64 \<Rightarrow> TxValidationFlags \<Rightarrow> nat \<Rightarrow> bytes list \<Rightarrow> level_batch
    \<Rightarrow> (nat \<times> level_batch) res" where
  "hist_loop E blockNo txsFilter tranNo [] dbBatch = Inr (tranNo, dbBatch)"
| "hist_loop E blockNo txsFilter tranNo (envBytes # rest) dbBatch =
     res_bind (IsInvalid txsFilter tranNo) (\<lambda>invalid.
       if invalid then hist_loop E blockNo txsFilter (tranNo + 1) rest dbBatch
       else
         res_bind (env_type (ve_tx E) envBytes) (\<lambda>txType.
           if txType = HeaderType_ENDORSER_TRANSACTION then
             res_bind (GetActionFromEnvelope (ve_tx E) envBytes) (\<lambda>respPayload.
             res_bind (FromProtoBytes (ve_proto E) (ca_Results respPayload)) (\<lambda>txRWSet.
             res_bind (hist_ns_writes blockNo (word_of_nat tranNo) (NsRwSets txRWSet) dbBatch)
               (hist_loop E blockNo txsFilter (tranNo + 1) rest)))
           else hist_loop E blockNo txsFilter (tranNo + 1) rest dbBatch))"

text \<open>The flags of the block are initialised in place when there are none.\<close>

definition hist_Commit :: "val_env \<Rightarrow> 's kvs \<Rightarrow> 's \<Rightarrow> Block \<Rightarrow> ('s \<times> Block) \<times> go_err option" where
  "hist_Commit E K s block =
     (let ix = BlockMetadataIndex_TRANSACTIONS_FILTER; blockNo = blk_Number block in
      if \<not> ix < length (blk_Metadata block) then ((s, block), Some (GoPanic ''index out of range''))
      else
        let f0 = blk_Metadata block ! ix;
            txsFilter = (if length f0 = 0 then NewTxValidationFlags (length (blk_Data block)) else f0);
            block' = block\<lparr>blk_Metadata := (blk_Metadata block)[ix := txsFilter]\<rparr>
        in case
            res_bind (hist_loop E blockNo txsFilter 0 (blk_Data block) NewLevelBatch) (\<lambda>(tranNo, dbBatch).
            res_bind (ToBytes (NewHeight blockNo (word_of_nat tranNo))) (\<lambda>height.
              level_batch_Put dbBatch hist_savePointKey (Some height))) of
             Inl e \<Rightarrow> ((s, block'), Some e)
           | Inr dbBatch \<Rightarrow> (case kvs_WriteBatch K s dbBatch True of (s', err) \<Rightarrow> ((s', block'), err)))"

definition hist_GetLastSavepoint :: "'s kvs \<Rightarrow> 's \<Rightarrow> Height option res" where
  "hist_GetLastSavepoint K s =
     res_bind (kvs_Get K s hist_savePointKey) (\<lambda>versionBytes.
       case versionBytes of
         None \<Rightarrow> Inr None
       | Some b \<Rightarrow> res_bind (NewHeightFromBytes b) (\<lambda>(height, _). Inr (Some height)))"

definition hist_ShouldRecover :: "bool \<Rightarrow> 's kvs \<Rightarrow> 's \<Rightarrow> uint64 \<Rightarrow> (bool \<times> uint64) res" where
  "hist_ShouldRecover IsHistoryDBEnabled K s lastAvailableBlock =
     (if \<not> IsHistoryDBEnabled then Inr (False, 0)
      else res_bind (hist_GetLastSavepoint K s) (\<lambda>savepoint.
        case savepoint of
          None \<Rightarrow> Inr (True, 0)
        | Some sp \<Rightarrow> Inr (BlockNum sp \<noteq> lastAvailableBlock, BlockNum sp + 1)))"

definition hist_CommitLostBlock :: "val_env \<Rightarrow> 's kvs \<Rightarrow> 's \<Rightarrow> Block \<Rightarrow> ('s \<times> Block) \<times> go_err option" where
  "hist_CommitLostBlock E K s block = hist_Commit E K s block"

section \<open>Queries\<close>

record KeyModification =
  km_TxId :: string
  km_Value :: "bytes option"
  km_Timestamp :: "(int \<times> int) option"
  km_IsDelete :: bool

fun find_write :: "KVWrite list \<Rightarrow> string \<Rightarrow> KVWrite option" where
  "find_write [] key = None"
| "find_write (w # ws) key = (if w_Key w = key then Some w else find_write ws key)"

fun find_modification :: "string \<Rightarrow> (int \<times> int) option \<Rightarrow> string \<Rightarrow> string \<Rightarrow> NsRwSet list \<Rightarrow> KeyModification res" where
  "find_modification txID timestamp namespace key [] =
     Inl (GoErr ''Namespace not found in transaction's ReadWriteSets'')"
| "find_modification txID timestamp namespace key (nsRWSet # rest) =
     (if NameSpace nsRWSet = namespace then
        (case find_write (Writes (KvRwSet nsRWSet)) key of
           Some kvWrite \<Rightarrow> Inr \<lparr>km_TxId = txID, km_Value = w_Value kvWrite, km_Timestamp = timestamp,
                                 km_IsDelete = w_IsDelete kvWrite\<rparr>
         | None \<Rightarrow> Inl (GoErr ''Key not found in namespace's writeset''))
      else find_modification txID timestamp namespace key rest)"

definition getKeyModificationFromTran :: "val_env \<Rightarrow> Envelope \<Rightarrow> string \<Rightarrow> string \<Rightarrow> KeyModification res" where
  "getKeyModificationFromTran E tranEnvelope namespace key =
     res_bind (GetPayload (ve_tx E) tranEnvelope) (\<lambda>payload.
     res_bind (GetTransaction (ve_tx E) (pl_Data payload)) (\<lambda>actions.
     res_bind (index_slice actions 0) (\<lambda>action.
     res_bind (GetPayloads (ve_tx E) action) (\<lambda>(_, respPayload).
       case pl_Header payload of
         None \<Rightarrow> Inl (GoPanic ''nil pointer dereference'')
       | Some hdr \<Rightarrow>
           res_bind (UnmarshalChannelHeader (ve_tx E) (hdr_ChannelHeader hdr)) (\<lambda>chdr.
           res_bind (FromProtoBytes (ve_proto E) (ca_Results respPayload)) (\<lambda>txRWSet.
             find_modification (ch_TxId chdr) (ch_Timestamp chdr) namespace key (NsRwSets txRWSet)))))))"

text \<open>The scanner: the partial key and the entries still to come.\<close>

record historyScanner =
  hs_compositePartialKey :: bytes
  hs_namespace :: string
  hs_key :: string
  hs_dbItr :: "(bytes res \<times> bytes) list"

definition GetHistoryForKey :: "bool \<Rightarrow> 's kvs \<Rightarrow> 's \<Rightarrow> string \<Rightarrow> string \<Rightarrow> historyScanner res" where
  "GetHistoryForKey IsHistoryDBEnabled K s namespace key =
     (if \<not> IsHistoryDBEnabled then Inl (GoErr ''History tracking not enabled - historyDatabase is false'')
      else
        let compositeStartKey = ConstructPartialCompositeHistoryKey namespace key False;
            compositeEndKey = ConstructPartialCompositeHistoryKey namespace key True
        in Inr \<lparr>hs_compositePartialKey = compositeStartKey, hs_namespace = namespace, hs_key = key,
                hs_dbItr = kvs_GetIterator K s compositeStartKey (Some compositeEndKey)\<rparr>)"

text \<open>The height in a history key.\<close>

definition scanner_height :: "bytes \<Rightarrow> bytes \<Rightarrow> (uint64 \<times> uint64) res" where
  "scanner_height compositePartialKey historyKey =
     res_bind (SplitCompositeHistoryKey historyKey compositePartialKey) (\<lambda>(_, blockNumTranNumBytes).
     res_bind (DecodeOrderPreservingVarUint64 blockNumTranNumBytes) (\<lambda>(blockNum, bytesConsumed).
     res_bind (DecodeOrderPreservingVarUint64 (drop bytesConsumed blockNumTranNumBytes)) (\<lambda>(tranNum, _).
       Inr (blockNum, tranNum))))"

definition historyScanner_Next :: "val_env \<Rightarrow> (uint64 \<Rightarrow> uint64 \<Rightarrow> Envelope res) \<Rightarrow> historyScanner
    \<Rightarrow> historyScanner \<times> KeyModification option res" where
  "historyScanner_Next E RetrieveTxByBlockNumTranNum scanner =
     (case hs_dbItr scanner of
        [] \<Rightarrow> (scanner, Inr None)
      | (k, _) # rest \<Rightarrow>
          (scanner\<lparr>hs_dbItr := rest\<rparr>,
           res_bind k (\<lambda>historyKey.
           res_bind (scanner_height (hs_compositePartialKey scanner) historyKey) (\<lambda>(blockNum, tranNum).
           res_bind (RetrieveTxByBlockNumTranNum blockNum tranNum) (\<lambda>tranEnvelope.
           res_bind (getKeyModificationFromTran E tranEnvelope (hs_namespace scanner) (hs_key scanner))
             (\<lambda>queryResult. Inr (Some queryResult)))))))"

section \<open>What a commit records\<close>

definition hkey :: "string \<Rightarrow> string \<Rightarrow> uint64 \<Rightarrow> uint64 \<Rightarrow> bytes" where
  "hkey ns k b t = (string_bytes ns @ 0 # string_bytes k @ [0]) @ opv b @ opv t"

lemma ConstructCompositeHistoryKey_eq [simp]: "ConstructCompositeHistoryKey ns k b t = Inr (hkey ns k b t)"
  by (simp add: ConstructCompositeHistoryKey_def hkey_def hist_compositeKeySep_def)

lemma ConstructPartialCompositeHistoryKey_eq:
  "ConstructPartialCompositeHistoryKey ns k False = string_bytes ns @ 0 # string_bytes k @ [0]"
  "ConstructPartialCompositeHistoryKey ns k True = (string_bytes ns @ 0 # string_bytes k @ [0]) @ [0xff]"
  by (simp_all add: ConstructPartialCompositeHistoryKey_def hist_compositeKeySep_def)

text \<open>The writes of a transaction and of the valid transactions of a block, as pairs of a
  namespace and a key, and the history keys that stand for them.\<close>

definition tx_writes :: "TxRwSet \<Rightarrow> (string \<times> string) set" where
  "tx_writes t = {(NameSpace n, w_Key w) |n w. n \<in> set (NsRwSets t) \<and> w \<in> set (Writes (KvRwSet n))}"

definition block_recs :: "val_env \<Rightarrow> uint64 \<Rightarrow> TxValidationFlags \<Rightarrow> nat \<Rightarrow> bytes list \<Rightarrow> bytes set" where
  "block_recs E num f i envs = {hkey ns k num (word_of_nat (i + j)) |ns k j t.
     j < length envs \<and> committed E f (i + j) (envs ! j) = Some t \<and> (ns, k) \<in> tx_writes t}"

lemma block_recs_Nil [simp]: "block_recs E num f i [] = {}"
  by (simp add: block_recs_def)

lemma block_recs_Cons:
  "block_recs E num f i (env # envs) =
     (case committed E f i env of None \<Rightarrow> {} | Some t \<Rightarrow> (\<lambda>(ns, k). hkey ns k num (word_of_nat i)) ` tx_writes t)
     \<union> block_recs E num f (i + 1) envs"
proof -
  have *: "(\<exists>j < length (env # envs). P j) \<longleftrightarrow> P 0 \<or> (\<exists>j < length envs. P (Suc j))" for P
    by (auto simp: less_Suc_eq_0_disj)
  have "x \<in> block_recs E num f i (env # envs) \<longleftrightarrow>
      (\<exists>j < length (env # envs). \<exists>ns k t. x = hkey ns k num (word_of_nat (i + j))
         \<and> committed E f (i + j) ((env # envs) ! j) = Some t \<and> (ns, k) \<in> tx_writes t)" for x
    unfolding block_recs_def by blast
  then show ?thesis unfolding * by (auto simp: block_recs_def split: option.splits)
qed

definition recorded :: "level_batch \<Rightarrow> bytes set \<Rightarrow> level_batch \<Rightarrow> bool" where
  "recorded b X b' \<longleftrightarrow> (map_wf b \<longrightarrow> map_wf b') \<and> (\<forall>x. map_get b' x = (if x \<in> X then Some (Some []) else map_get b x))"

lemma recorded_trans: "recorded b X b' \<Longrightarrow> recorded b' Y b'' \<Longrightarrow> recorded b (X \<union> Y) b''"
  by (simp add: recorded_def)

lemma hist_writes_recorded:
  "\<exists>b'. hist_writes ns bn tn ws b = Inr b' \<and> recorded b ((\<lambda>w. hkey ns (w_Key w) bn tn) ` set ws) b'"
proof (induction ws arbitrary: b)
  case (Cons w ws)
  let ?b = "map_put (hkey ns (w_Key w) bn tn) (Some []) b"
  have "recorded b {hkey ns (w_Key w) bn tn} ?b" by (simp add: recorded_def)
  with Cons[of ?b] show ?case by (auto simp: level_batch_Put_def dest: recorded_trans)
qed (simp add: recorded_def)

lemma hist_ns_writes_recorded:
  "\<exists>b'. hist_ns_writes bn tn l b = Inr b' \<and> recorded b ((\<lambda>(ns, k). hkey ns k bn tn) ` tx_writes \<lparr>NsRwSets = l\<rparr>) b'"
proof (induction l arbitrary: b)
  case (Cons n l)
  from hist_writes_recorded obtain b1 where b1: "hist_writes (NameSpace n) bn tn (Writes (KvRwSet n)) b = Inr b1"
    "recorded b ((\<lambda>w. hkey (NameSpace n) (w_Key w) bn tn) ` set (Writes (KvRwSet n))) b1" by blast
  from Cons[of b1] obtain b' where b': "hist_ns_writes bn tn l b1 = Inr b'"
    "recorded b1 ((\<lambda>(ns, k). hkey ns k bn tn) ` tx_writes \<lparr>NsRwSets = l\<rparr>) b'" by blast
  have "(\<lambda>(ns, k). hkey ns k bn tn) ` tx_writes \<lparr>NsRwSets = n # l\<rparr> =
      (\<lambda>w. hkey (NameSpace n) (w_Key w) bn tn) ` set (Writes (KvRwSet n))
      \<union> (\<lambda>(ns, k). hkey ns k bn tn) ` tx_writes \<lparr>NsRwSets = l\<rparr>"
    by (auto simp: tx_writes_def) force+
  with recorded_trans[OF b1(2) b'(2)] b1(1) b'(1) show ?case by simp
qed (simp add: recorded_def tx_writes_def)

lemma hist_loop_recorded:
  "hist_loop E num f i envs b = Inr (n, b') \<Longrightarrow> n = i + length envs \<and> recorded b (block_recs E num f i envs) b'"
proof (induction envs arbitrary: i b)
  case (Cons env envs)
  from Cons.prems have i: "i < length f" by (rule_tac ccontr) (simp add: IsInvalid_panics)
  show ?case
  proof (cases "\<exists>t. committed E f i env = Some t")
    case False
    then have "hist_loop E num f i (env # envs) b = Inr (n, b') \<Longrightarrow> hist_loop E num f (i + 1) envs b = Inr (n, b')"
      using i by (auto simp: IsInvalid_eq committed_def endorser_rwset_def res_bind_eq_Inr split: if_splits sum.splits)
    from Cons.IH[OF this[OF Cons.prems]] False show ?thesis by (simp add: block_recs_Cons)
  next
    case True
    then obtain t where t: "committed E f i env = Some t" by blast
    then have r: "endorser_rwset E env = Some t" "f ! i = 0" by (auto simp: committed_def split: if_splits)
    obtain b1 where b1: "hist_ns_writes num (word_of_nat i) (NsRwSets t) b = Inr b1"
      "recorded b ((\<lambda>(ns, k). hkey ns k num (word_of_nat i)) ` tx_writes t) b1"
      using hist_ns_writes_recorded[of num "word_of_nat i" "NsRwSets t" b] by (auto simp: tx_writes_def)
    have "hist_loop E num f (i + 1) envs b1 = Inr (n, b')"
      using Cons.prems i r b1(1)
      by (auto simp: IsInvalid_eq endorser_rwset_def res_bind_eq_Inr split: if_splits sum.splits)
    from Cons.IH[OF this] recorded_trans[OF b1(2)] t show ?thesis by (simp add: block_recs_Cons)
  qed
qed (simp add: recorded_def)

section \<open>What a query visits\<close>

definition henc :: "uint64 \<times> uint64 \<Rightarrow> bytes" where
  "henc = (\<lambda>(b, t). opv b @ opv t)"

lemma henc_less: "p < q \<Longrightarrow> henc p < henc q"
  using opv_less[of "fst p" "fst q" "opv (snd p)" "opv (snd q)"] opv_less[of "snd p" "snd q" "[]" "[]"]
  by (cases p; cases q) (auto simp: henc_def less_prod_def order_le_less)

lemma henc_inj [simp]: "henc p = henc q \<longleftrightarrow> p = q"
  by (metis henc_less linorder_less_linear order_less_irrefl)

text \<open>The heights recorded for a key, and the shape of a database without zero bytes in the
  namespaces and keys.\<close>

definition hist_heights :: "('s \<Rightarrow> bytes \<rightharpoonup> bytes) \<Rightarrow> 's \<Rightarrow> string \<Rightarrow> string \<Rightarrow> (uint64 \<times> uint64) set" where
  "hist_heights kview s ns k = {(b, t). hkey ns k b t \<in> dom (kview s)}"

definition hist_inv :: "('s \<Rightarrow> bytes \<rightharpoonup> bytes) \<Rightarrow> 's \<Rightarrow> bool" where
  "hist_inv kview s \<longleftrightarrow> (\<forall>x \<in> dom (kview s). x = [0] \<or> (\<exists>ns k b t. no_zero ns \<and> no_zero k \<and> x = hkey ns k b t))"

lemma hkey_inj:
  "no_zero ns \<Longrightarrow> no_zero k \<Longrightarrow> no_zero ns' \<Longrightarrow> no_zero k' \<Longrightarrow>
     hkey ns k b t = (string_bytes ns' @ 0 # string_bytes k' @ [0]) @ r
     \<longleftrightarrow> ns = ns' \<and> k = k' \<and> r = henc (b, t)"
  using prefix_inj[of ns ns' "string_bytes k @ 0 # opv b @ opv t" "string_bytes k' @ 0 # r"]
    prefix_inj[of k k' "opv b @ opv t" r]
  by (auto simp: hkey_def henc_def)

lemma hkey_henc: "hkey ns k (fst p) (snd p) = (string_bytes ns @ 0 # string_bytes k @ [0]) @ henc p"
  by (cases p) (simp add: hkey_def henc_def)

lemma split_first_prefix: "sep \<noteq> [] \<Longrightarrow> split_first sep (sep @ r) = Some ([], r)"
  by (cases sep) simp_all

lemma scanner_height_hkey [simp]:
  "scanner_height (string_bytes ns @ 0 # string_bytes k @ [0]) (hkey ns k b t) = Inr (b, t)"
proof -
  have "split_first (string_bytes ns @ 0 # string_bytes k @ [0]) (hkey ns k b t) = Some ([], opv b @ opv t)"
    unfolding hkey_def by (rule split_first_prefix) simp
  moreover have "drop (length (sig_bytes b) + 1) (opv b @ opv t) = opv t" by (simp add: opv_def)
  ultimately show ?thesis using Decode_opv[of t "[]"]
    by (simp add: scanner_height_def SplitCompositeHistoryKey_def index_slice_def)
qed

lemma henc_below_ff: "henc p < [0xff]"
proof -
  have "word_of_nat (length (sig_bytes (fst p))) < (0xff :: byte)"
    using length_sig_bytes[of "fst p"] size_word[of "length (sig_bytes (fst p))"] by (simp add: word_less_nat_alt)
  then show ?thesis by (simp add: henc_def opv_def case_prod_unfold)
qed

lemma sorted_list_of_image:
  assumes "finite A" "\<And>x y. x < y \<Longrightarrow> f x < (f y :: 'b::linorder)"
  shows "sorted_list_of_set (f ` A) = map f (sorted_list_of_set (A :: 'a::linorder set))"
proof -
  have "inj_on f A" using assms(2) by (metis inj_onI linorder_less_linear order_less_irrefl)
  moreover have "mono f" using assms(2) by (metis monoI order_le_less)
  ultimately show ?thesis using assms(1)
    by (intro sorted_distinct_set_unique)
      (auto simp: sorted_wrt_map distinct_map monoD inj_on_def intro: sorted_wrt_mono_rel[of _ "(\<le>)"])
qed

context kv_store
begin

lemma history_scan:
  assumes "hist_inv kview s" "no_zero ns" "no_zero k"
  shows "finite (hist_heights kview s ns k)"
    and "map fst (kvs_GetIterator K s (ConstructPartialCompositeHistoryKey ns k False)
           (Some (ConstructPartialCompositeHistoryKey ns k True)))
         = map (\<lambda>(b, t). Inr (hkey ns k b t)) (sorted_list_of_set (hist_heights kview s ns k))"
proof -
  let ?p = "string_bytes ns @ 0 # string_bytes k @ [0]" and ?H = "hist_heights kview s ns k"
  let ?f = "\<lambda>q. ?p @ henc q"
  have "inj_on ?f ?H" by (auto simp: inj_on_def)
  moreover have img: "?f ` ?H \<subseteq> dom (kview s)"
    by (auto simp: hist_heights_def hkey_henc[of ns k "(_, _)", simplified] )
  ultimately show fin: "finite ?H" using kvs_finite inj_on_finite by blast
  have set: "{x \<in> dom (kview s). ?p \<le> x \<and> x < ?p @ [0xff]} = ?f ` ?H"
  proof (intro equalityI subsetI)
    fix x assume "x \<in> {x \<in> dom (kview s). ?p \<le> x \<and> x < ?p @ [0xff]}"
    then have x: "x \<in> dom (kview s)" "?p @ [] \<le> x" "x < ?p @ [0xff]" by auto
    from between_prefix[OF x(2,3)] obtain r where r: "x = ?p @ r" by blast
    then have "x \<noteq> [0]" by (cases "string_bytes ns") auto
    with x(1) assms(1) obtain ns' k' b t where h: "no_zero ns'" "no_zero k'" "x = hkey ns' k' b t"
      unfolding hist_inv_def by blast
    with hkey_inj[of ns' k' ns k b t r] assms r have "ns' = ns" "k' = k" "r = henc (b, t)" by auto
    with h(3) x(1) r have "(b, t) \<in> ?H" "x = ?f (b, t)" by (auto simp: hist_heights_def)
    then show "x \<in> ?f ` ?H" by blast
  next
    fix x assume "x \<in> ?f ` ?H"
    with img show "x \<in> {x \<in> dom (kview s). ?p \<le> x \<and> x < ?p @ [0xff]}"
      using henc_below_ff append_le_same_prefix[of ?p "[]"] append_less_same_prefix[of ?p _ "[0xff]"] by auto
  qed
  have "sorted_list_of_set (?f ` ?H) = map ?f (sorted_list_of_set ?H)"
    using fin by (rule sorted_list_of_image) (simp only: append_less_same_prefix henc_less)
  then show "map fst (kvs_GetIterator K s (ConstructPartialCompositeHistoryKey ns k False)
           (Some (ConstructPartialCompositeHistoryKey ns k True)))
         = map (\<lambda>(b, t). Inr (hkey ns k b t)) (sorted_list_of_set ?H)"
    unfolding kvs_GetIterator ConstructPartialCompositeHistoryKey_eq below_def option.case range_entries_def set
    by (simp add: case_prod_unfold hkey_henc comp_def)
qed

end

lemma hist_Commit_cases:
  assumes "hist_Commit E K s block = ((s', block'), None)" "f = blk_Metadata block' ! BlockMetadataIndex_TRANSACTIONS_FILTER"
  obtains b where "recorded [] (block_recs E (blk_Number block) f 0 (blk_Data block)) b"
    "kvs_WriteBatch K s (map_put [0] (Some (opv (blk_Number block) @ opv (word_of_nat (length (blk_Data block))))) b) True
       = (s', None)"
proof -
  let ?ix = BlockMetadataIndex_TRANSACTIONS_FILTER
  have ix: "?ix < length (blk_Metadata block)"
    using assms(1) by (auto simp: hist_Commit_def Let_def split: if_splits)
  with assms obtain n b where l: "hist_loop E (blk_Number block) f 0 (blk_Data block) [] = Inr (n, b)"
    "kvs_WriteBatch K s (map_put [0] (Some (opv (blk_Number block) @ opv (word_of_nat n))) b) True = (s', None)"
    by (auto simp: hist_Commit_def Let_def NewLevelBatch_def level_batch_Put_def hist_savePointKey_def NewHeight_def
        res_bind_eq_Inr split: if_splits sum.splits prod.splits)
  with hist_loop_recorded[OF l(1)] that show ?thesis by auto
qed

context kv_store
begin

lemma hist_Commit_view:
  assumes "hist_Commit E K s block = ((s', block'), None)" "f = blk_Metadata block' ! BlockMetadataIndex_TRANSACTIONS_FILTER"
  shows "kview s' x = (if x = [0] then Some (opv (blk_Number block) @ opv (word_of_nat (length (blk_Data block))))
     else if x \<in> block_recs E (blk_Number block) f 0 (blk_Data block) then Some [] else kview s x)"
proof -
  from hist_Commit_cases[OF assms] obtain b where b: "recorded [] (block_recs E (blk_Number block) f 0 (blk_Data block)) b"
    "kvs_WriteBatch K s (map_put [0] (Some (opv (blk_Number block) @ opv (word_of_nat (length (blk_Data block))))) b) True
       = (s', None)" .
  then have "map_wf b" by (simp add: recorded_def)
  with kvs_WriteBatch[OF _ b(2)] b(1) show ?thesis by (simp add: recorded_def kv_overlay_def)
qed

end

section \<open>Reading a history\<close>

text \<open>The caller of a query calls \<^verbatim>\<open>Next\<close> until it gets no more result, or an error.\<close>

function history_read :: "val_env \<Rightarrow> (uint64 \<Rightarrow> uint64 \<Rightarrow> Envelope res) \<Rightarrow> historyScanner \<Rightarrow> KeyModification list res" where
  "history_read E RetrieveTxByBlockNumTranNum scanner =
     (case historyScanner_Next E RetrieveTxByBlockNumTranNum scanner of
        (_, Inl e) \<Rightarrow> Inl e
      | (_, Inr None) \<Rightarrow> Inr []
      | (scanner', Inr (Some m)) \<Rightarrow> res_bind (history_read E RetrieveTxByBlockNumTranNum scanner') (\<lambda>ms. Inr (m # ms)))"
  by pat_completeness auto
termination
  by (relation "measure (\<lambda>(_, _, scanner). length (hs_dbItr scanner))") (auto simp: historyScanner_Next_def split: list.splits)

declare history_read.simps [simp del]

text \<open>The modification of a key that a transaction stands for: the value of its write to the key, with
  the identifier and the time of its header.\<close>

definition env_header :: "tx_codec \<Rightarrow> bytes \<Rightarrow> ChannelHeader res" where
  "env_header C envBytes =
     res_bind (GetEnvelopeFromBlock C envBytes) (\<lambda>env.
     res_bind (GetPayload C env) (\<lambda>payload.
       case pl_Header payload of
         None \<Rightarrow> Inl (GoPanic ''nil pointer dereference'')
       | Some hdr \<Rightarrow> UnmarshalChannelHeader C (hdr_ChannelHeader hdr)))"

definition modifies :: "val_env \<Rightarrow> bytes \<Rightarrow> string \<Rightarrow> string \<Rightarrow> KeyModification \<Rightarrow> bool" where
  "modifies E envBytes ns k m \<longleftrightarrow> (\<exists>t n w chdr. endorser_rwset E envBytes = Some t \<and> env_header (ve_tx E) envBytes = Inr chdr
     \<and> n \<in> set (NsRwSets t) \<and> NameSpace n = ns \<and> w \<in> set (Writes (KvRwSet n)) \<and> w_Key w = k
     \<and> m = \<lparr>km_TxId = ch_TxId chdr, km_Value = w_Value w, km_Timestamp = ch_Timestamp chdr, km_IsDelete = w_IsDelete w\<rparr>)"

lemma find_write_in: "w \<in> set ws \<Longrightarrow> w_Key w = k \<Longrightarrow> \<exists>w'. find_write ws k = Some w' \<and> w' \<in> set ws \<and> w_Key w' = k"
  by (induction ws) auto

lemma find_modification_in:
  assumes "n \<in> set l" "NameSpace n = ns" "w \<in> set (Writes (KvRwSet n))" "w_Key w = k" "distinct (map NameSpace l)"
  shows "\<exists>w'. w' \<in> set (Writes (KvRwSet n)) \<and> w_Key w' = k \<and> find_modification tx ts ns k l
    = Inr \<lparr>km_TxId = tx, km_Value = w_Value w', km_Timestamp = ts, km_IsDelete = w_IsDelete w'\<rparr>"
  using assms
proof (induction l)
  case (Cons a l)
  then show ?case using find_write_in[OF Cons.prems(3,4)] by (cases "a = n") force+
qed simp

lemma getKeyModification_ok:
  assumes "endorser_rwset E envBytes = Some t" "GetEnvelopeFromBlock (ve_tx E) envBytes = Inr env"
    and "(ns, k) \<in> tx_writes t" "distinct (map NameSpace (NsRwSets t))"
  shows "\<exists>m. getKeyModificationFromTran E env ns k = Inr m \<and> modifies E envBytes ns k m"
proof -
  obtain payload hdr chdr where h: "GetPayload (ve_tx E) env = Inr payload" "pl_Header payload = Some hdr"
    "UnmarshalChannelHeader (ve_tx E) (hdr_ChannelHeader hdr) = Inr chdr" "env_type (ve_tx E) envBytes = Inr HeaderType_ENDORSER_TRANSACTION"
    using assms(1,2) by (auto simp: endorser_rwset_def env_type_def res_bind_eq_Inr split: if_splits option.splits)
  obtain respPayload where r: "GetActionFromEnvelope (ve_tx E) envBytes = Inr respPayload"
    "FromProtoBytes (ve_proto E) (ca_Results respPayload) = Inr t"
    using assms(1) h(4) by (auto simp: endorser_rwset_def split: sum.splits)
  then obtain action actions cc where a: "GetTransaction (ve_tx E) (pl_Data payload) = Inr (action # actions)"
    "GetPayloads (ve_tx E) action = Inr (cc, respPayload)"
    using assms(2) h(1) by (auto simp: GetActionFromEnvelope_def res_bind_eq_Inr neq_Nil_conv split: if_splits)
  obtain n w where n: "n \<in> set (NsRwSets t)" "NameSpace n = ns" "w \<in> set (Writes (KvRwSet n))" "w_Key w = k"
    using assms(3) by (auto simp: tx_writes_def)
  obtain w' where w': "w' \<in> set (Writes (KvRwSet n))" "w_Key w' = k"
    "find_modification (ch_TxId chdr) (ch_Timestamp chdr) ns k (NsRwSets t)
      = Inr \<lparr>km_TxId = ch_TxId chdr, km_Value = w_Value w', km_Timestamp = ch_Timestamp chdr, km_IsDelete = w_IsDelete w'\<rparr>"
    using find_modification_in[OF n assms(4)] by blast
  have "env_header (ve_tx E) envBytes = Inr chdr" using assms(2) h by (simp add: env_header_def)
  then show ?thesis using assms(1) n(1,2) w' h a r unfolding modifies_def
    by (auto simp: getKeyModificationFromTran_def index_slice_def)
qed

text \<open>Reading a scanner whose entries are the history keys of a list of heights.\<close>

lemma history_read_heights:
  assumes "map fst (hs_dbItr scanner) = map (\<lambda>(b, i). Inr (hkey ns k b i)) hs" "hs_namespace scanner = ns" "hs_key scanner = k"
    and "hs_compositePartialKey scanner = string_bytes ns @ 0 # string_bytes k @ [0]"
    and "\<forall>(b, i) \<in> set hs. \<exists>env m. R b i = Inr env \<and> getKeyModificationFromTran E env ns k = Inr m \<and> P (b, i) m"
  shows "\<exists>ms. history_read E R scanner = Inr ms \<and> list_all2 P hs ms"
  using assms
proof (induction hs arbitrary: scanner)
  case Nil
  then show ?case by (subst history_read.simps) (simp add: historyScanner_Next_def)
next
  case (Cons h hs)
  obtain b i where h: "h = (b, i)" by fastforce
  obtain env m where m: "R b i = Inr env" "getKeyModificationFromTran E env ns k = Inr m" "P (b, i) m" using Cons.prems(5) h by auto
  obtain v rest where rest: "hs_dbItr scanner = (Inr (hkey ns k b i), v) # rest"
    using Cons.prems(1) h by (cases "hs_dbItr scanner") auto
  let ?s = "scanner\<lparr>hs_dbItr := rest\<rparr>"
  have "historyScanner_Next E R scanner = (?s, Inr (Some m))"
    using Cons.prems(2-4) m rest by (simp add: historyScanner_Next_def)
  moreover obtain ms where "history_read E R ?s = Inr ms" "list_all2 P hs ms"
    using Cons.IH[of ?s] Cons.prems rest by auto
  ultimately show ?case using m(3) h by (subst history_read.simps) simp
qed

lemma history_read_exact:
  assumes "kv_store K kview" "hist_inv kview s" "no_zero ns" "no_zero k"
    and "\<forall>(b, i) \<in> hist_heights kview s ns k. \<exists>env t. R b i = Inr env \<and> GetEnvelopeFromBlock (ve_tx E) (tx b i) = Inr env
          \<and> endorser_rwset E (tx b i) = Some t \<and> (ns, k) \<in> tx_writes t \<and> distinct (map NameSpace (NsRwSets t))"
  shows "\<exists>scanner ms. GetHistoryForKey True K s ns k = Inr scanner \<and> history_read E R scanner = Inr ms
    \<and> list_all2 (\<lambda>(b, i) m. modifies E (tx b i) ns k m) (sorted_list_of_set (hist_heights kview s ns k)) ms"
proof -
  note scan = kv_store.history_scan[OF assms(1-4)]
  let ?p = "ConstructPartialCompositeHistoryKey ns k False"
  let ?s = "\<lparr>hs_compositePartialKey = ?p, hs_namespace = ns, hs_key = k,
    hs_dbItr = kvs_GetIterator K s ?p (Some (ConstructPartialCompositeHistoryKey ns k True))\<rparr>"
  have "\<forall>(b, i) \<in> set (sorted_list_of_set (hist_heights kview s ns k)).
      \<exists>env m. R b i = Inr env \<and> getKeyModificationFromTran E env ns k = Inr m \<and> (case (b, i) of (b, i) \<Rightarrow> modifies E (tx b i) ns k) m"
    using assms(5) getKeyModification_ok[where E = E] scan(1) by fastforce
  from history_read_heights[of ?s ns k _ R E, OF _ _ _ _ this] show ?thesis
    using scan(2) by (simp add: GetHistoryForKey_def Let_def ConstructPartialCompositeHistoryKey_eq)
qed

section \<open>Properties\<close>

lemma hist_heights_commit:
  assumes "kv_store K kview" "hist_Commit E K s block = ((s', block'), None)"
    and "f = blk_Metadata block' ! BlockMetadataIndex_TRANSACTIONS_FILTER" "no_zero ns" "no_zero k"
    and "\<forall>i < length (blk_Data block). \<forall>t. committed E f i (blk_Data block ! i) = Some t \<longrightarrow>
           (\<forall>(n, w) \<in> tx_writes t. no_zero n \<and> no_zero w)"
  shows "hist_heights kview s' ns k = hist_heights kview s ns k \<union>
     {(blk_Number block, word_of_nat i) |i t. i < length (blk_Data block)
        \<and> committed E f i (blk_Data block ! i) = Some t \<and> (ns, k) \<in> tx_writes t}"
proof -
  have ne: "hkey ns k b t \<noteq> [0]" for b t by (cases "string_bytes ns") (auto simp: hkey_def)
  have "hkey ns k b t \<in> block_recs E (blk_Number block) f 0 (blk_Data block) \<longleftrightarrow>
      (\<exists>i u. i < length (blk_Data block) \<and> committed E f i (blk_Data block ! i) = Some u \<and> (ns, k) \<in> tx_writes u
         \<and> b = blk_Number block \<and> t = word_of_nat i)" (is "?l \<longleftrightarrow> ?r") for b t
  proof
    assume ?l
    then obtain ns' k' i u where r: "hkey ns k b t = hkey ns' k' (blk_Number block) (word_of_nat i)" "i < length (blk_Data block)"
      "committed E f i (blk_Data block ! i) = Some u" "(ns', k') \<in> tx_writes u"
      by (auto simp: block_recs_def)
    have "\<forall>(n, w) \<in> tx_writes u. no_zero n \<and> no_zero w" using assms(6) r(2,3) by blast
    with r(4) have "no_zero ns'" "no_zero k'" by auto
    from hkey_inj[OF assms(4,5) this, of b t "henc (blk_Number block, word_of_nat i)"] r show ?r
      by (auto simp: hkey_henc[of _ _ "(_, _)", simplified])
  qed (auto simp: block_recs_def)
  with kv_store.hist_Commit_view[OF assms(1-3)] ne show ?thesis
    by (auto simp: hist_heights_def dom_def split: if_splits)
qed

lemma hist_inv_commit:
  assumes "kv_store K kview" "hist_inv kview s" "hist_Commit E K s block = ((s', block'), None)"
    and "f = blk_Metadata block' ! BlockMetadataIndex_TRANSACTIONS_FILTER"
    and "\<forall>i < length (blk_Data block). \<forall>t. committed E f i (blk_Data block ! i) = Some t \<longrightarrow>
           (\<forall>(n, w) \<in> tx_writes t. no_zero n \<and> no_zero w)"
  shows "hist_inv kview s'"
  unfolding hist_inv_def
proof
  fix x assume "x \<in> dom (kview s')"
  with kv_store.hist_Commit_view[OF assms(1,3,4), of x]
  have "x = [0] \<or> x \<in> dom (kview s) \<or> x \<in> block_recs E (blk_Number block) f 0 (blk_Data block)"
    unfolding domIff by presburger
  moreover have "\<exists>ns k b t. no_zero ns \<and> no_zero k \<and> x = hkey ns k b t"
    if "x \<in> block_recs E (blk_Number block) f 0 (blk_Data block)"
    using that assms(5) by (fastforce simp: block_recs_def)
  ultimately show "x = [0] \<or> (\<exists>ns k b t. no_zero ns \<and> no_zero k \<and> x = hkey ns k b t)"
    using assms(2) unfolding hist_inv_def by blast
qed

text \<open>C14. The history of a key is exact and in order. Let a block be committed to a history database, let no
  namespace and no key in the database, in the valid transactions of the block or in the query have a
  zero byte, and let the block store return the transactions at the recorded heights, each a
  transaction that writes the key and has every namespace once. Then the heights recorded for the key
  are those recorded before together with those of the valid transactions of the block that write it, and
  calling \<^verbatim>\<open>Next\<close> on the scanner of the query until it ends gives, without an error, one
  modification per height, from the lowest height to the highest: the value and the delete flag of the
  write to the key, with the identifier and the timestamp of the transaction.\<close>

theorem history_exact:
  assumes "kv_store K kview" "hist_inv kview s" "no_zero ns" "no_zero k"
    and "hist_Commit E K s block = ((s', block'), None)"
    and "f = blk_Metadata block' ! BlockMetadataIndex_TRANSACTIONS_FILTER"
    and "\<forall>i < length (blk_Data block). \<forall>t. committed E f i (blk_Data block ! i) = Some t \<longrightarrow>
           (\<forall>(n, w) \<in> tx_writes t. no_zero n \<and> no_zero w)"
    and "H = hist_heights kview s ns k \<union> {(blk_Number block, word_of_nat i) |i t. i < length (blk_Data block)
           \<and> committed E f i (blk_Data block ! i) = Some t \<and> (ns, k) \<in> tx_writes t}"
    and "\<forall>(b, i) \<in> H. \<exists>env t. R b i = Inr env \<and> GetEnvelopeFromBlock (ve_tx E) (tx b i) = Inr env
           \<and> endorser_rwset E (tx b i) = Some t \<and> (ns, k) \<in> tx_writes t \<and> distinct (map NameSpace (NsRwSets t))"
  shows "hist_inv kview s' \<and> hist_heights kview s' ns k = H
    \<and> (\<exists>scanner ms. GetHistoryForKey True K s' ns k = Inr scanner \<and> history_read E R scanner = Inr ms
        \<and> list_all2 (\<lambda>(b, i) m. modifies E (tx b i) ns k m) (sorted_list_of_set H) ms)"
proof -
  have inv: "hist_inv kview s'" by (rule hist_inv_commit[OF assms(1,2,5-7)])
  have H: "hist_heights kview s' ns k = H"
    unfolding assms(8) by (rule hist_heights_commit[OF assms(1,5,6,3,4,7)])
  show ?thesis using inv H history_read_exact[OF assms(1) inv assms(3,4), unfolded H, OF assms(9)] by blast
qed

text \<open>The history database of the example after the commit of its block.\<close>

definition ex_hist :: memdb_state where
  "ex_hist = fst (fst (hist_Commit ex_env (DBHandle memdb ''mychannel'') [] (ex_block\<lparr>blk_Metadata := [[], [], [0, 11], []]\<rparr>)))"

text \<open>The block store of the example has the two transactions of block 1.\<close>

definition ex_retrieve :: "uint64 \<Rightarrow> uint64 \<Rightarrow> Envelope res" where
  "ex_retrieve b i = (if b = 1 \<and> i < 2 then GetEnvelopeFromBlock (ve_tx ex_env) (blk_Data ex_block ! unat i) else Inl (GoErr ''not found''))"

theorem history_exact_witness:
  "\<exists>scanner m. GetHistoryForKey True (DBHandle memdb ''mychannel'') ex_hist ''cc'' ''k'' = Inr scanner
    \<and> history_read ex_env ex_retrieve scanner = Inr [m] \<and> modifies ex_env [1] ''cc'' ''k'' m"
proof -
  let ?b = "ex_block\<lparr>blk_Metadata := [[], [], [0, 11], []]\<rparr>" and ?K = "DBHandle memdb ''mychannel''"
  have c: "hist_Commit ex_env ?K [] ?b = ((ex_hist, ?b), None)" by code_simp
  have inv: "hist_inv chan_kview []" by (simp add: hist_inv_def handle_view_def)
  have z: "no_zero ''cc''" "no_zero ''k''" by (simp_all add: no_zero_def)
  have w: "tx_writes ex_rw = {(''cc'', ''k'')}" by (auto simp: tx_writes_def ex_rw_def ex_kvrw_def)
  have f: "committed ex_env [0, 11] i (blk_Data ?b ! i) = Some t \<longleftrightarrow> i = 0 \<and> t = ex_rw" if "i < 2" for i t
    using that by (auto simp: committed_def ex_rwset less_2_cases_iff)
  have "{(blk_Number ?b, word_of_nat i) |i t. i < length (blk_Data ?b)
      \<and> committed ex_env [0, 11] i (blk_Data ?b ! i) = Some t \<and> (''cc'', ''k'') \<in> tx_writes t} = {(1, 0 :: uint64)}"
    using f[of 0 ex_rw] f w by (auto simp: ex_block_def intro!: exI[of _ "0 :: nat"])
  moreover have "hist_heights chan_kview ([] :: memdb_state) ''cc'' ''k'' = {}"
    by (simp add: hist_heights_def handle_view_def)
  ultimately have H: "{(1, 0)} = hist_heights chan_kview ([] :: memdb_state) ''cc'' ''k'' \<union> {(blk_Number ?b, word_of_nat i) |i t.
      i < length (blk_Data ?b) \<and> committed ex_env [0, 11] i (blk_Data ?b ! i) = Some t \<and> (''cc'', ''k'') \<in> tx_writes t}"
    by simp
  have nz: "\<forall>i < length (blk_Data ?b). \<forall>t. committed ex_env [0, 11] i (blk_Data ?b ! i) = Some t \<longrightarrow>
           (\<forall>(n, w) \<in> tx_writes t. no_zero n \<and> no_zero w)"
    using f w z by (auto simp: ex_block_def)
  have r: "\<forall>(b, i) \<in> {(1, 0)}. \<exists>env t. ex_retrieve b i = Inr env \<and> GetEnvelopeFromBlock (ve_tx ex_env) [1] = Inr env
      \<and> endorser_rwset ex_env [1] = Some t \<and> (''cc'', ''k'') \<in> tx_writes t \<and> distinct (map NameSpace (NsRwSets t))"
  proof -
    have e: "ex_retrieve 1 0 = GetEnvelopeFromBlock (ve_tx ex_env) [1]" "isl (GetEnvelopeFromBlock (ve_tx ex_env) [1]) = False" by code_simp+
    obtain env where "GetEnvelopeFromBlock (ve_tx ex_env) [1] = Inr env" using e(2) by (cases "GetEnvelopeFromBlock (ve_tx ex_env) [1]") auto
    then show ?thesis using w e(1) by (simp add: ex_rwset) (simp add: ex_rw_def)
  qed
  have "[0, 11] = blk_Metadata ?b ! BlockMetadataIndex_TRANSACTIONS_FILTER" by (simp add: BlockMetadataIndex_TRANSACTIONS_FILTER_def)
  from history_exact[OF mem_ch.kv_store_axioms inv z c this nz H r] show ?thesis by (auto simp: list_all2_Cons1)
qed

end
