(* ===== verification/KV_Ledger.thy ===== *)
theory KV_Ledger
  imports Block_Store_API Lock_TxMgr History_DB
begin

text \<open>
  The ledger of a channel, \<^verbatim>\<open>core/ledger/kvledger/kv_ledger.go\<close> and \<^verbatim>\<open>recovery.go\<close>: a block store, a
  transaction manager on the state database and a history database. \<^verbatim>\<open>Commit\<close> writes to the three
  one after the other; \<^verbatim>\<open>recoverDBs\<close> brings the two databases up to the block store
  when the ledger is opened. The results: whenever the process stops, the next start succeeds, and the
  state and the history are then those of the whole chain in the block store.
\<close>

section \<open>The ledger\<close>

record ('b, 's, 'h) ledger_env =
  le_val :: val_env
  le_BS :: "'b BlockStore"
  le_DB :: "'s VersionedDB"
  le_HK :: "'h kvs"
  le_IsHistoryDBEnabled :: bool

record ('b, 's, 'h) kvLedger =
  kl_ledgerID :: string
  kl_blockStore :: 'b
  kl_txtmgmt :: "'s LockBasedTxMgr"
  kl_historyDB :: 'h

section \<open>Recovery\<close>

text \<open>The two implementations of the interface \<^verbatim>\<open>recoverable\<close>.\<close>

datatype recoverable = Rec_txtmgmt | Rec_historyDB

record recoverer =
  rr_firstBlockNum :: uint64
  rr_recoverable :: recoverable

definition rec_ShouldRecover :: "('b, 's, 'h) ledger_env \<Rightarrow> ('b, 's, 'h) kvLedger \<Rightarrow> recoverable \<Rightarrow> uint64 \<Rightarrow> (bool \<times> uint64) res" where
  "rec_ShouldRecover E l r lastAvailableBlock =
     (case r of
        Rec_txtmgmt \<Rightarrow> tm_ShouldRecover (le_DB E) (kl_txtmgmt l) lastAvailableBlock
      | Rec_historyDB \<Rightarrow> hist_ShouldRecover (le_IsHistoryDBEnabled E) (le_HK E) (kl_historyDB l) lastAvailableBlock)"

text \<open>\<^const>\<open>None\<close> is a call that does not return. The flags of the block may be changed in place.\<close>

definition rec_CommitLostBlock :: "('b, 's, 'h) ledger_env \<Rightarrow> ('b, 's, 'h) kvLedger \<Rightarrow> recoverable \<Rightarrow> Block
    \<Rightarrow> ((('b, 's, 'h) kvLedger \<times> Block) \<times> unit res) option" where
  "rec_CommitLostBlock E l r block =
     (case r of
        Rec_txtmgmt \<Rightarrow>
          map_option (\<lambda>((tm, block'), res). ((l\<lparr>kl_txtmgmt := tm\<rparr>, block'), res))
            (tm_CommitLostBlock (le_val E) (le_DB E) (kl_txtmgmt l) block)
      | Rec_historyDB \<Rightarrow>
          (case hist_CommitLostBlock (le_val E) (le_HK E) (kl_historyDB l) block of
             ((h, block'), err) \<Rightarrow>
               Some ((l\<lparr>kl_historyDB := h\<rparr>, block'), case err of None \<Rightarrow> Inr () | Some e \<Rightarrow> Inl e)))"

definition kl_GetBlockByNumber :: "('b, 's, 'h) ledger_env \<Rightarrow> ('b, 's, 'h) kvLedger \<Rightarrow> uint64 \<Rightarrow> Block res" where
  "kl_GetBlockByNumber E l blockNumber = bst_RetrieveBlockByNumber (le_BS E) (kl_blockStore l) blockNumber"

fun recommit_block :: "('b, 's, 'h) ledger_env \<Rightarrow> recoverable list \<Rightarrow> Block \<Rightarrow> ('b, 's, 'h) kvLedger
    \<Rightarrow> (('b, 's, 'h) kvLedger \<times> unit res) option" where
  "recommit_block E [] block l = Some (l, Inr ())"
| "recommit_block E (r # rs) block l =
     (case rec_CommitLostBlock E l r block of
        None \<Rightarrow> None
      | Some ((l', _), Inl e) \<Rightarrow> Some (l', Inl e)
      | Some ((l', block'), Inr _) \<Rightarrow> recommit_block E rs block' l')"

text \<open>The loop over the block numbers does not end when the last number is the largest one.\<close>

partial_function (option) recommitLostBlocks :: "('b, 's, 'h) ledger_env \<Rightarrow> uint64 \<Rightarrow> recoverable list
    \<Rightarrow> uint64 \<Rightarrow> ('b, 's, 'h) kvLedger \<Rightarrow> (('b, 's, 'h) kvLedger \<times> unit res) option" where
  "recommitLostBlocks E lastBlockNum recoverables blockNumber l =
     (if blockNumber \<le> lastBlockNum then
        (case kl_GetBlockByNumber E l blockNumber of
           Inl e \<Rightarrow> Some (l, Inl e)
         | Inr block \<Rightarrow>
             Option.bind (recommit_block E recoverables block l) (\<lambda>(l', r).
               case r of
                 Inl e \<Rightarrow> Some (l', Inl e)
               | Inr _ \<Rightarrow> recommitLostBlocks E lastBlockNum recoverables (blockNumber + 1) l'))
      else Some (l, Inr ()))"

fun find_recoverers :: "('b, 's, 'h) ledger_env \<Rightarrow> ('b, 's, 'h) kvLedger \<Rightarrow> uint64 \<Rightarrow> recoverable list \<Rightarrow> recoverer list res" where
  "find_recoverers E l lastAvailableBlockNum [] = Inr []"
| "find_recoverers E l lastAvailableBlockNum (r # rs) =
     res_bind (rec_ShouldRecover E l r lastAvailableBlockNum) (\<lambda>(recoverFlag, firstBlockNum).
     res_bind (find_recoverers E l lastAvailableBlockNum rs) (\<lambda>recoverers.
       Inr (if recoverFlag then \<lparr>rr_firstBlockNum = firstBlockNum, rr_recoverable = r\<rparr> # recoverers else recoverers)))"

definition recoverDBs :: "('b, 's, 'h) ledger_env \<Rightarrow> ('b, 's, 'h) kvLedger \<Rightarrow> (('b, 's, 'h) kvLedger \<times> unit res) option" where
  "recoverDBs E l =
     (case bst_GetBlockchainInfo (le_BS E) (kl_blockStore l) of
        Inl _ \<Rightarrow> Some (l, Inl (GoPanic ''nil pointer dereference''))
      | Inr info \<Rightarrow>
          if bci_Height info = 0 then Some (l, Inr ())
          else
            let lastAvailableBlockNum = bci_Height info - 1 in
            (case find_recoverers E l lastAvailableBlockNum [Rec_txtmgmt, Rec_historyDB] of
               Inl e \<Rightarrow> Some (l, Inl e)
             | Inr [] \<Rightarrow> Some (l, Inr ())
             | Inr [r] \<Rightarrow> recommitLostBlocks E lastAvailableBlockNum [rr_recoverable r] (rr_firstBlockNum r) l
             | Inr (ra # rb # _) \<Rightarrow>
                 let (r0, r1) = (if rr_firstBlockNum ra > rr_firstBlockNum rb then (rb, ra) else (ra, rb)) in
                 Option.bind
                   (if rr_firstBlockNum r0 \<noteq> rr_firstBlockNum r1
                    then recommitLostBlocks E (rr_firstBlockNum r1 - 1) [rr_recoverable r0] (rr_firstBlockNum r0) l
                    else Some (l, Inr ())) (\<lambda>(l', res).
                   case res of
                     Inl e \<Rightarrow> Some (l', Inl e)
                   | Inr _ \<Rightarrow> recommitLostBlocks E lastAvailableBlockNum [rr_recoverable r0, rr_recoverable r1] (rr_firstBlockNum r1) l')))"

definition newKVLedger :: "('b, 's, 'h) ledger_env \<Rightarrow> string \<Rightarrow> 'b \<Rightarrow> 's \<Rightarrow> 'h \<Rightarrow> ('b, 's, 'h) kvLedger res option" where
  "newKVLedger E ledgerID blockStore versionedDB historyDB =
     map_option (\<lambda>(l, res). case res of
         Inl _ \<Rightarrow> Inl (GoPanic ''Error during state DB recovery'')
       | Inr _ \<Rightarrow> Inr l)
       (recoverDBs E \<lparr>kl_ledgerID = ledgerID, kl_blockStore = blockStore, kl_txtmgmt = NewLockBasedTxMgr versionedDB,
                      kl_historyDB = historyDB\<rparr>)"

section \<open>Queries and commit\<close>

record ProcessedTransaction =
  pt_TransactionEnvelope :: Envelope
  pt_ValidationCode :: int

definition kl_GetTransactionByID :: "('b, 's, 'h) ledger_env \<Rightarrow> ('b, 's, 'h) kvLedger \<Rightarrow> string \<Rightarrow> ProcessedTransaction res" where
  "kl_GetTransactionByID E l txID =
     res_bind (bst_RetrieveTxByID (le_BS E) (kl_blockStore l) txID) (\<lambda>tranEnv.
     res_bind (bst_RetrieveTxValidationCodeByTxID (le_BS E) (kl_blockStore l) txID) (\<lambda>txVResult.
       Inr \<lparr>pt_TransactionEnvelope = tranEnv, pt_ValidationCode = txVResult\<rparr>))"

definition kl_GetBlockchainInfo :: "('b, 's, 'h) ledger_env \<Rightarrow> ('b, 's, 'h) kvLedger \<Rightarrow> BlockchainInfo res" where
  "kl_GetBlockchainInfo E l = bst_GetBlockchainInfo (le_BS E) (kl_blockStore l)"

definition kl_GetBlocksIterator :: "('b, 's, 'h) ledger_env \<Rightarrow> ('b, 's, 'h) kvLedger \<Rightarrow> uint64 \<Rightarrow> blocksItr res" where
  "kl_GetBlocksIterator E l startBlockNumber = bst_RetrieveBlocks (le_BS E) (kl_blockStore l) startBlockNumber"

definition kl_GetBlockByHash :: "('b, 's, 'h) ledger_env \<Rightarrow> ('b, 's, 'h) kvLedger \<Rightarrow> bytes \<Rightarrow> Block res" where
  "kl_GetBlockByHash E l blockHash = bst_RetrieveBlockByHash (le_BS E) (kl_blockStore l) blockHash"

definition kl_GetBlockByTxID :: "('b, 's, 'h) ledger_env \<Rightarrow> ('b, 's, 'h) kvLedger \<Rightarrow> string \<Rightarrow> Block res" where
  "kl_GetBlockByTxID E l txID = bst_RetrieveBlockByTxID (le_BS E) (kl_blockStore l) txID"

definition kl_GetTxValidationCodeByTxID :: "('b, 's, 'h) ledger_env \<Rightarrow> ('b, 's, 'h) kvLedger \<Rightarrow> string \<Rightarrow> TxValidationCode res" where
  "kl_GetTxValidationCodeByTxID E l txID = bst_RetrieveTxValidationCodeByTxID (le_BS E) (kl_blockStore l) txID"

definition kl_Prune :: "unit res" where
  "kl_Prune = Inl (GoErr ''Not yet implemented'')"

definition kl_NewTxSimulator :: "('b, 's, 'h) kvLedger \<Rightarrow> queryHelper \<times> ('b, 's, 'h) kvLedger" where
  "kl_NewTxSimulator l = (case tm_NewTxSimulator (kl_txtmgmt l) of (h, tm) \<Rightarrow> (h, l\<lparr>kl_txtmgmt := tm\<rparr>))"

definition kl_NewQueryExecutor :: "('b, 's, 'h) kvLedger \<Rightarrow> queryHelper \<times> ('b, 's, 'h) kvLedger" where
  "kl_NewQueryExecutor l = (case tm_NewQueryExecutor (kl_txtmgmt l) of (h, tm) \<Rightarrow> (h, l\<lparr>kl_txtmgmt := tm\<rparr>))"

text \<open>A query of the history executor: the scanner and the function that looks up the transactions.\<close>

definition kl_GetHistoryForKey :: "('b, 's, 'h) ledger_env \<Rightarrow> ('b, 's, 'h) kvLedger \<Rightarrow> string \<Rightarrow> string \<Rightarrow> historyScanner res" where
  "kl_GetHistoryForKey E l = GetHistoryForKey (le_IsHistoryDBEnabled E) (le_HK E) (kl_historyDB l)"

definition kl_historyScanner_Next :: "('b, 's, 'h) ledger_env \<Rightarrow> ('b, 's, 'h) kvLedger \<Rightarrow> historyScanner
    \<Rightarrow> historyScanner \<times> KeyModification option res" where
  "kl_historyScanner_Next E l = historyScanner_Next (le_val E) (bst_RetrieveTxByBlockNumTranNum (le_BS E) (kl_blockStore l))"

text \<open>A commit that has to wait for open simulators has no result; what is stored while it waits is not a state of
  its own.\<close>

definition kl_Commit :: "('b, 's, 'h) ledger_env \<Rightarrow> ('b, 's, 'h) kvLedger \<Rightarrow> Block
    \<Rightarrow> ((('b, 's, 'h) kvLedger \<times> Block) \<times> unit res) option" where
  "kl_Commit E l block =
     (case tm_ValidateAndPrepare (le_val E) (le_DB E) (kl_txtmgmt l) block True of
        ((tm1, block1), Inl e) \<Rightarrow> Some ((l\<lparr>kl_txtmgmt := tm1\<rparr>, block1), Inl e)
      | ((tm1, block1), Inr _) \<Rightarrow>
        (case bst_AddBlock (le_BS E) (kl_blockStore l) block1 of
           (bs, Some e) \<Rightarrow> Some ((l\<lparr>kl_blockStore := bs, kl_txtmgmt := tm1\<rparr>, block1), Inl e)
         | (bs, None) \<Rightarrow>
             Option.bind (tm_Commit (le_DB E) tm1) (\<lambda>(tm2, r).
               let l2 = l\<lparr>kl_blockStore := bs, kl_txtmgmt := tm2\<rparr> in
               case r of
                 Inl e \<Rightarrow> Some ((l2, block1), Inl (GoPanic ''Error during commit to txmgr''))
               | Inr _ \<Rightarrow>
                   if \<not> le_IsHistoryDBEnabled E then Some ((l2, block1), Inr ())
                   else
                     (case hist_Commit (le_val E) (le_HK E) (kl_historyDB l2) block1 of
                        ((h, block2), None) \<Rightarrow> Some ((l2\<lparr>kl_historyDB := h\<rparr>, block2), Inr ())
                      | ((h, block2), Some e) \<Rightarrow>
                          Some ((l2\<lparr>kl_historyDB := h\<rparr>, block2), Inl (GoPanic ''Error during commit to history db''))))))"


section \<open>Blocks that were committed before\<close>

text \<open>A block with the flags of its validation, and the writes of its valid transactions: validating
  it again without the MVCC checks gives these writes, whatever the state is.\<close>

definition settled :: "val_env \<Rightarrow> 's VersionedDB \<Rightarrow> (string \<Rightarrow> bool) \<Rightarrow> Block \<Rightarrow> UpdateBatch \<Rightarrow> bool" where
  "settled E D valid b u \<longleftrightarrow> (\<forall>s. ValidateAndPrepareBatch E D s b False = (b, Inr u))
     \<and> (\<forall>env \<in> set (blk_Data b). \<forall>t. endorser_rwset E env = Some t \<longrightarrow> tx_ns_ok valid t)"

lemma settled_validated:
  assumes "ValidateAndPrepareBatch E D s block mvcc = (block', Inr u)"
    and "\<forall>env \<in> set (blk_Data block). \<forall>t. endorser_rwset E env = Some t \<longrightarrow> tx_ns_ok valid t"
  shows "settled E D valid block' u"
  using ValidateAndPrepareBatch_again[OF assms(1), of D] ValidateAndPrepareBatch_batch(4)[OF assms] assms(2)
  by (simp add: settled_def)

lemma settled_loop:
  assumes "settled E D valid b u"
  shows "BlockMetadataIndex_TRANSACTIONS_FILTER < length (blk_Metadata b)"
    "blk_flags b = [] \<Longrightarrow> NewTxValidationFlags (length (blk_Data b)) = []"
    "validate_loop E D s False (blk_Number b) 0 (blk_Data b) (blk_flags b) NewUpdateBatch = (blk_flags b, Inr u)"
proof -
  let ?ix = BlockMetadataIndex_TRANSACTIONS_FILTER
  let ?f = "if length (blk_flags b) = 0 then NewTxValidationFlags (length (blk_Data b)) else blk_flags b"
  have v: "ValidateAndPrepareBatch E D s b False = (b, Inr u)" for s using assms by (simp add: settled_def)
  show ix: "?ix < length (blk_Metadata b)"
    using v[of s] by (auto simp: ValidateAndPrepareBatch_def Let_def split: if_splits)
  obtain f' where f': "validate_loop E D s False (blk_Number b) 0 (blk_Data b) ?f NewUpdateBatch = (f', Inr u)"
    "b = b\<lparr>blk_Metadata := (blk_Metadata b)[?ix := f']\<rparr>"
    using v[of s, unfolded ValidateAndPrepareBatch_def Let_def, folded blk_flags_def] ix by (auto split: prod.splits)
  have "blk_Metadata b = (blk_Metadata b)[?ix := f']" by (subst f'(2)) simp
  then have fl: "f' = blk_flags b" using ix unfolding blk_flags_def by (metis nth_list_update_eq)
  have "length f' = length ?f" using validate_loop_flags[OF f'(1)] by simp
  then show e: "NewTxValidationFlags (length (blk_Data b)) = []" if "blk_flags b = []" using that by (simp add: fl)
  then have "?f = blk_flags b" by auto
  then show "validate_loop E D s False (blk_Number b) 0 (blk_Data b) (blk_flags b) NewUpdateBatch = (blk_flags b, Inr u)"
    using f'(1) unfolding fl by simp
qed

lemma validate_loop_replay:
  assumes "validate_loop E D s mvcc num i envs f u = (f', Inr u')"
  shows "overlay m u' = replay E num i envs f' (overlay m u)"
  using assms
proof (induction envs arbitrary: i f u)
  case (Cons env envs)
  from Cons.prems show ?case
  proof (cases rule: validate_loop_cases)
    case skip
    with validate_loop_flags[OF skip(4)] Cons.IH[OF skip(4)] show ?thesis by (simp add: committed_def)
  next
    case (invalid c)
    with validate_loop_flags[OF invalid(4)] Cons.IH[OF invalid(4)] show ?thesis by (simp add: committed_def)
  next
    case (valid t u1)
    with validate_loop_flags[OF valid(6)] Cons.IH[OF valid(6)] addWriteSetToBatch_overlay(1)[OF valid(5), of m]
    show ?thesis by (simp add: committed_def)
  qed
qed simp

lemma validate_loop_hist:
  assumes "validate_loop E D s mvcc num i envs f u = (f', Inr u')"
  shows "\<exists>r. hist_loop E num f' i envs b = Inr r"
  using assms
proof (induction envs arbitrary: i f u b)
  case (Cons env envs)
  from Cons.prems show ?case
  proof (cases rule: validate_loop_cases)
    case skip
    with validate_loop_flags[OF skip(4)] Cons.IH[OF skip(4), of b] show ?thesis
      by (cases "f ! i = 0") (auto simp: IsInvalid_eq)
  next
    case (invalid c)
    with validate_loop_flags[OF invalid(4)] Cons.IH[OF invalid(4), of b] show ?thesis by (auto simp: IsInvalid_eq)
  next
    case (valid t u1)
    have fl: "i < length f'" "f' ! i = 0" using validate_loop_flags[OF valid(6)] valid(1,2) by auto
    obtain b1 where b1: "hist_ns_writes num (word_of_nat i) (NsRwSets t) b = Inr b1"
      using hist_ns_writes_recorded[of num "word_of_nat i" "NsRwSets t" b] by blast
    have "\<exists>a. GetActionFromEnvelope (ve_tx E) env = Inr a \<and> FromProtoBytes (ve_proto E) (ca_Results a) = Inr t"
      using valid(3) by (auto simp: endorser_rwset_def split: if_splits sum.splits)
    with fl b1 valid(7) Cons.IH[OF valid(6), of b1] show ?thesis by (auto simp: IsInvalid_eq)
  qed
qed simp

text \<open>What a committed block changes in the contents of the state and of the history.\<close>

definition state_step :: "val_env \<Rightarrow> Block \<Rightarrow> contents \<Rightarrow> contents" where
  "state_step E b = replay E (blk_Number b) 0 (blk_Data b) (blk_flags b)"

definition hist_step :: "val_env \<Rightarrow> Block \<Rightarrow> (bytes \<rightharpoonup> bytes) \<Rightarrow> (bytes \<rightharpoonup> bytes)" where
  "hist_step E b v x = (if x = [0] then Some (opv (blk_Number b) @ opv (word_of_nat (length (blk_Data b))))
     else if x \<in> block_recs E (blk_Number b) (blk_flags b) 0 (blk_Data b) then Some [] else v x)"

text \<open>The contents after a chain.\<close>

definition chain_state :: "val_env \<Rightarrow> Block list \<Rightarrow> contents \<Rightarrow> contents" where
  "chain_state E bl v = foldl (\<lambda>v b. state_step E b v) v bl"

definition chain_history :: "val_env \<Rightarrow> Block list \<Rightarrow> (bytes \<rightharpoonup> bytes) \<Rightarrow> (bytes \<rightharpoonup> bytes)" where
  "chain_history E bl v = foldl (\<lambda>v b. hist_step E b v) v bl"

lemma settled_overlay: "settled E D valid b u \<Longrightarrow> overlay m u = state_step E b m"
  using validate_loop_replay[OF settled_loop(3)] by (simp add: state_step_def)

lemma settled_hist_Commit:
  assumes "settled E D valid b u" "kv_store_ok K kview"
  obtains h' where "hist_Commit E K h b = ((h', b), None)" "kview h' = hist_step E b (kview h)"
proof -
  let ?ix = BlockMetadataIndex_TRANSACTIONS_FILTER
  note sl = settled_loop[OF assms(1)]
  obtain n c where l: "hist_loop E (blk_Number b) (blk_flags b) 0 (blk_Data b) NewLevelBatch = Inr (n, c)"
    using validate_loop_hist[OF sl(3)] by (metis surj_pair)
  let ?c = "map_put [0] (Some (opv (blk_Number b) @ opv (word_of_nat n))) c"
  obtain h' where h': "kvs_WriteBatch K h ?c True = (h', None)"
    using kv_store_ok.kvs_WriteBatch_total[OF assms(2), of h ?c True] by (metis prod.collapse)
  have m: "(blk_Metadata b)[?ix := blk_flags b] = blk_Metadata b" unfolding blk_flags_def by simp
  have "(if length (blk_flags b) = 0 then NewTxValidationFlags (length (blk_Data b)) else blk_flags b) = blk_flags b"
    using sl(2) by auto
  then have "hist_Commit E K h b = ((h', b), None)"
    unfolding hist_Commit_def Let_def blk_flags_def[symmetric]
    using sl(1) l h' m by (simp add: level_batch_Put_def hist_savePointKey_def NewHeight_def del: length_0_conv)
  moreover from kv_store.hist_Commit_view[OF kv_store_ok.axioms(1)[OF assms(2)] this refl]
  have "kview h' = hist_step E b (kview h)" by (intro ext) (simp add: hist_step_def blk_flags_def)
  ultimately show ?thesis by (rule that)
qed


lemma write_all_cong: "v ns = v' ns \<Longrightarrow> foldl (write_one n h) v ws ns = foldl (write_one n h) v' ws ns"
proof (induction ws arbitrary: v v')
  case (Cons w ws)
  have "write_one n h v w ns = write_one n h v' w ns" using Cons.prems by (auto simp: write_one_def)
  then show ?case unfolding foldl.simps by (rule Cons.IH)
qed simp

lemma apply_tx_cong:
  assumes "v ns = v' ns"
  shows "apply_tx t h v ns = apply_tx t h v' ns"
proof -
  have "foldl (\<lambda>m n. foldl (write_one (NameSpace n) h) m (Writes (KvRwSet n))) v l ns
      = foldl (\<lambda>m n. foldl (write_one (NameSpace n) h) m (Writes (KvRwSet n))) v' l ns" for l
    using assms
  proof (induction l arbitrary: v v')
    case (Cons n l)
    show ?case unfolding foldl.simps by (rule Cons.IH, rule write_all_cong, rule Cons.prems)
  qed simp
  then show ?thesis by (simp add: apply_tx_def)
qed

lemma state_step_cong:
  assumes "v ns = v' ns"
  shows "state_step E b v ns = state_step E b v' ns"
proof -
  have "replay E num i envs f v ns = replay E num i envs f v' ns" for num i envs f
    using assms
  proof (induction envs arbitrary: i v v')
    case (Cons env envs)
    have "(case committed E f i env of None \<Rightarrow> v | Some t \<Rightarrow> apply_tx t (NewHeight num (word_of_nat i)) v) ns
        = (case committed E f i env of None \<Rightarrow> v' | Some t \<Rightarrow> apply_tx t (NewHeight num (word_of_nat i)) v') ns"
      using Cons.prems apply_tx_cong[of v ns v'] by (cases "committed E f i env") simp_all
    then show ?case unfolding replay.simps by (rule Cons.IH)
  qed simp
  then show ?thesis by (simp add: state_step_def)
qed

lemma chain_steps:
  assumes "n < length bl"
  shows "chain_state E (take (Suc n) bl) v = state_step E (bl ! n) (chain_state E (take n bl) v)"
    "chain_history E (take (Suc n) bl) w = hist_step E (bl ! n) (chain_history E (take n bl) w)"
  using assms by (simp_all add: chain_state_def chain_history_def take_Suc_conv_app_nth)

section \<open>How far a database is\<close>

text \<open>The state database and the history database have the first \<open>n\<close> blocks of the chain.\<close>

definition state_at :: "('b, 's, 'h) ledger_env \<Rightarrow> ('s \<Rightarrow> bool) \<Rightarrow> ('s \<Rightarrow> contents) \<Rightarrow> (string \<Rightarrow> bool) \<Rightarrow> Block list \<Rightarrow> nat \<Rightarrow> 's \<Rightarrow> bool" where
  "state_at E ok view valid bl n s \<longleftrightarrow> ok s
     \<and> (\<forall>ns. valid ns \<longrightarrow> view s ns = chain_state (le_val E) (take n bl) (\<lambda>_. Map.empty) ns)
     \<and> (\<exists>sp. vdb_GetLatestSavePoint (le_DB E) s = Inr sp
          \<and> map_option BlockNum sp = (if n = 0 then None else Some (word_of_nat (n - 1))))"

definition hist_at :: "('b, 's, 'h) ledger_env \<Rightarrow> ('h \<Rightarrow> bytes \<rightharpoonup> bytes) \<Rightarrow> Block list \<Rightarrow> nat \<Rightarrow> 'h \<Rightarrow> bool" where
  "hist_at E hview bl n h \<longleftrightarrow> hview h = chain_history (le_val E) (take n bl) Map.empty"

definition rec_at :: "('b, 's, 'h) ledger_env \<Rightarrow> ('s \<Rightarrow> bool) \<Rightarrow> ('s \<Rightarrow> contents) \<Rightarrow> (string \<Rightarrow> bool) \<Rightarrow> ('h \<Rightarrow> bytes \<rightharpoonup> bytes)
    \<Rightarrow> Block list \<Rightarrow> nat \<Rightarrow> recoverable \<Rightarrow> ('b, 's, 'h) kvLedger \<Rightarrow> bool" where
  "rec_at E ok view valid hview bl n r l \<longleftrightarrow>
     (case r of
        Rec_txtmgmt \<Rightarrow> state_at E ok view valid bl n (tm_db (kl_txtmgmt l)) \<and> tm_readers (kl_txtmgmt l) = 0
      | Rec_historyDB \<Rightarrow> hist_at E hview bl n (kl_historyDB l))"

definition all_settled :: "('b, 's, 'h) ledger_env \<Rightarrow> (string \<Rightarrow> bool) \<Rightarrow> Block list \<Rightarrow> bool" where
  "all_settled E valid bl \<longleftrightarrow> (\<forall>b \<in> set bl. \<exists>u. settled (le_val E) (le_DB E) valid b u)"

locale kv_ledger =
  bs: block_store "le_BS E" holds takes reopen left stopped +
  vdb: versioned_db_ok "le_DB E" ok view valid_ns +
  hs: kv_store_ok "le_HK E" hview
  for E :: "('b, 's, 'h) ledger_env" and holds takes reopen left stopped ok view valid_ns hview
begin

abbreviation at :: "Block list \<Rightarrow> nat \<Rightarrow> recoverable \<Rightarrow> ('b, 's, 'h) kvLedger \<Rightarrow> bool" where
  "at \<equiv> rec_at E ok view valid_ns hview"

lemma apply_settled:
  assumes u: "settled (le_val E) (le_DB E) valid_ns (bl ! n) u" and s: "state_at E ok view valid_ns bl n s"
    and n: "n < length bl" "blk_Number (bl ! n) = word_of_nat n"
  obtains s' where "vdb_ApplyUpdates (le_DB E) s u (NewHeight (blk_Number (bl ! n)) t) = (s', None)"
    "state_at E ok view valid_ns bl (Suc n) s'"
proof -
  let ?h = "NewHeight (blk_Number (bl ! n)) t"
  have ok: "ok s" and v: "\<And>ns. valid_ns ns \<Longrightarrow> view s ns = chain_state (le_val E) (take n bl) (\<lambda>_. Map.empty) ns"
    using s by (auto simp: state_at_def)
  have "ValidateAndPrepareBatch (le_val E) (le_DB E) s (bl ! n) False = (bl ! n, Inr u)"
    "\<forall>env \<in> set (blk_Data (bl ! n)). \<forall>t. endorser_rwset (le_val E) env = Some t \<longrightarrow> tx_ns_ok valid_ns t"
    using u by (auto simp: settled_def)
  note b = ValidateAndPrepareBatch_batch(1,2)[OF this]
  obtain s' where s': "vdb_ApplyUpdates (le_DB E) s u ?h = (s', None)"
    using vdb.ApplyUpdates_total[OF ok b, of ?h] by (metis prod.collapse)
  have "view s' ns = chain_state (le_val E) (take (Suc n) bl) (\<lambda>_. Map.empty) ns" if "valid_ns ns" for ns
    unfolding chain_steps(1)[OF n(1)] vdb.ApplyUpdates_view[OF ok b s' that] settled_overlay[OF u]
    by (rule state_step_cong, rule v[OF that])
  moreover obtain sp where sp: "vdb_GetLatestSavePoint (le_DB E) s' = Inr sp" using vdb.savepoint_total[OF ok b s'] by blast
  moreover have "sp = Some ?h" by (rule vdb.ApplyUpdates_savepoint[OF ok b s' sp])
  ultimately show ?thesis using that s' vdb.ApplyUpdates_inv[OF ok b s'] n(2) by (simp add: state_at_def NewHeight_def)
qed

lemma rec_step:
  assumes st: "all_settled E valid_ns bl" and l: "at bl n r l" and n: "n < length bl" "blk_Number (bl ! n) = word_of_nat n"
  obtains l' where "rec_CommitLostBlock E l r (bl ! n) = Some ((l', bl ! n), Inr ())" "at bl (Suc n) r l'"
    "kl_blockStore l' = kl_blockStore l" "\<forall>r' n'. r' \<noteq> r \<longrightarrow> at bl n' r' l \<longrightarrow> at bl n' r' l'"
proof -
  have "bl ! n \<in> set bl" using n(1) by simp
  then obtain u where u: "settled (le_val E) (le_DB E) valid_ns (bl ! n) u" using st unfolding all_settled_def by blast
  show ?thesis
  proof (cases r)
    case Rec_txtmgmt
    then have s: "state_at E ok view valid_ns bl n (tm_db (kl_txtmgmt l))" "tm_readers (kl_txtmgmt l) = 0" using l by (auto simp: rec_at_def)
    have v: "ValidateAndPrepareBatch (le_val E) (le_DB E) (tm_db (kl_txtmgmt l)) (bl ! n) False = (bl ! n, Inr u)"
      using u by (simp add: settled_def)
    obtain s' where s': "vdb_ApplyUpdates (le_DB E) (tm_db (kl_txtmgmt l)) u
        (NewHeight (blk_Number (bl ! n)) (word_of_int (int (length (blk_Data (bl ! n))) - 1))) = (s', None)"
      "state_at E ok view valid_ns bl (Suc n) s'" by (rule apply_settled[OF u s(1) n])
    let ?tm = "(kl_txtmgmt l)\<lparr>tm_currentBlock := Some (bl ! n), tm_batch := None, tm_db := s'\<rparr>"
    have "tm_CommitLostBlock (le_val E) (le_DB E) (kl_txtmgmt l) (bl ! n) = Some ((?tm, bl ! n), Inr ())"
      using v s' s(2) by (simp add: tm_CommitLostBlock_def tm_ValidateAndPrepare_def tm_Commit_def)
    then have "rec_CommitLostBlock E l r (bl ! n) = Some ((l\<lparr>kl_txtmgmt := ?tm\<rparr>, bl ! n), Inr ())"
      using Rec_txtmgmt by (simp add: rec_CommitLostBlock_def)
    then show ?thesis by (rule that) (use Rec_txtmgmt s'(2) s(2) in \<open>auto simp: rec_at_def split: recoverable.splits\<close>)
  next
    case Rec_historyDB
    obtain h' where h': "hist_Commit (le_val E) (le_HK E) (kl_historyDB l) (bl ! n) = ((h', bl ! n), None)"
      "hview h' = hist_step (le_val E) (bl ! n) (hview (kl_historyDB l))"
      by (rule settled_hist_Commit[OF u hs.kv_store_ok_axioms])
    then have h: "hist_at E hview bl (Suc n) h'" using l Rec_historyDB chain_steps(2)[OF n(1)] by (simp add: rec_at_def hist_at_def)
    have "rec_CommitLostBlock E l r (bl ! n) = Some ((l\<lparr>kl_historyDB := h'\<rparr>, bl ! n), Inr ())"
      using Rec_historyDB h'(1) by (simp add: rec_CommitLostBlock_def hist_CommitLostBlock_def)
    then show ?thesis by (rule that) (use Rec_historyDB h in \<open>auto simp: rec_at_def split: recoverable.splits\<close>)
  qed
qed

end


lemma unat_nat64: "n < 2 ^ 64 \<Longrightarrow> unat (word_of_nat n :: uint64) = n"
  by (simp add: unat_of_nat)

context kv_ledger
begin

lemma recommit_block_ok:
  assumes "all_settled E valid_ns bl" "n < length bl" "blk_Number (bl ! n) = word_of_nat n" "distinct rs" "\<And>r. r \<in> set rs \<Longrightarrow> at bl n r l"
  shows "\<exists>l'. recommit_block E rs (bl ! n) l = Some (l', Inr ()) \<and> kl_blockStore l' = kl_blockStore l
    \<and> (\<forall>r \<in> set rs. at bl (Suc n) r l') \<and> (\<forall>r n'. r \<notin> set rs \<longrightarrow> at bl n' r l \<longrightarrow> at bl n' r l')"
  using assms(4,5)
proof (induction rs arbitrary: l)
  case (Cons r rs)
  have r: "at bl n r l" using Cons.prems(2) by simp
  obtain l1 where l1: "rec_CommitLostBlock E l r (bl ! n) = Some ((l1, bl ! n), Inr ())" "at bl (Suc n) r l1"
    "kl_blockStore l1 = kl_blockStore l" "\<forall>r' n'. r' \<noteq> r \<longrightarrow> at bl n' r' l \<longrightarrow> at bl n' r' l1" by (rule rec_step[OF assms(1) r assms(2,3)])
  have "\<And>r'. r' \<in> set rs \<Longrightarrow> at bl n r' l1" using l1(4) Cons.prems by (metis distinct.simps(2) list.set_intros(2))
  from Cons.IH[OF _ this] Cons.prems(1) obtain l' where l': "recommit_block E rs (bl ! n) l1 = Some (l', Inr ())"
    "kl_blockStore l' = kl_blockStore l1" "\<forall>r \<in> set rs. at bl (Suc n) r l'" "\<forall>r n'. r \<notin> set rs \<longrightarrow> at bl n' r l1 \<longrightarrow> at bl n' r l'"
    by auto
  have "r \<notin> set rs" using Cons.prems(1) by simp
  with l' l1(2) have "\<forall>r' \<in> set (r # rs). at bl (Suc n) r' l'" by simp
  moreover have "\<forall>r' n'. r' \<notin> set (r # rs) \<longrightarrow> at bl n' r' l \<longrightarrow> at bl n' r' l'" using l'(4) l1(4) by simp
  ultimately show ?case using l'(1,2) l1(1,3) by simp
qed simp

lemma recommit_ok:
  assumes st: "all_settled E valid_ns bl" and h: "holds (kl_blockStore l) bl" and m: "n \<le> M" "0 < M" "M \<le> length bl"
    and rs: "distinct rs" "\<And>r. r \<in> set rs \<Longrightarrow> at bl n r l"
  shows "\<exists>l'. recommitLostBlocks E (word_of_nat (M - 1)) rs (word_of_nat n) l = Some (l', Inr ()) \<and> kl_blockStore l' = kl_blockStore l
    \<and> (\<forall>r \<in> set rs. at bl M r l') \<and> (\<forall>r n'. r \<notin> set rs \<longrightarrow> at bl n' r l \<longrightarrow> at bl n' r l')"
  using h m(1) rs(2)
proof (induction "M - n" arbitrary: n l)
  case (0 n l)
  have len: "length bl < 2 ^ 64" by (rule bs.holds_small[OF h])
  have u: "unat (word_of_nat M :: uint64) = M" "unat (word_of_nat (M - 1) :: uint64) = M - 1"
    by (rule unat_nat64, use m len in linarith)+
  have "n = M" using 0 by simp
  moreover have "\<not> word_of_nat M \<le> (word_of_nat (M - 1) :: uint64)" unfolding word_le_nat_alt u using m(2) by simp
  ultimately show ?case using 0 by (simp add: recommitLostBlocks.simps[of E])
next
  case (Suc k n l)
  have len: "length bl < 2 ^ 64" by (rule bs.holds_small[OF h])
  have n: "n < M" "n < length bl" using Suc.hyps(2) m by simp_all
  have u: "unat (word_of_nat n :: uint64) = n" "unat (word_of_nat (M - 1) :: uint64) = M - 1"
    by (rule unat_nat64, use m n len in linarith)+
  have le: "word_of_nat n \<le> (word_of_nat (M - 1) :: uint64)" unfolding word_le_nat_alt u using n(1) by simp
  have g: "kl_GetBlockByNumber E l (word_of_nat n) = Inr (bl ! n)"
    using bs.by_num[OF Suc.prems(1), of "word_of_nat n"] n(2) by (simp add: u(1) kl_GetBlockByNumber_def)
  obtain l1 where l1: "recommit_block E rs (bl ! n) l = Some (l1, Inr ())" "kl_blockStore l1 = kl_blockStore l"
    "\<forall>r \<in> set rs. at bl (Suc n) r l1" "\<forall>r n'. r \<notin> set rs \<longrightarrow> at bl n' r l \<longrightarrow> at bl n' r l1"
    using recommit_block_ok[OF st n(2) bs.holds_num[OF h n(2)] rs(1) Suc.prems(3)] by blast
  have k: "k = M - Suc n" "Suc n \<le> M" "holds (kl_blockStore l1) bl" using Suc.hyps(2) Suc.prems(1) l1(2) by simp_all
  from Suc.hyps(1)[OF k(1,3,2) bspec[OF l1(3)]] obtain l' where
    "recommitLostBlocks E (word_of_nat (M - 1)) rs (word_of_nat (Suc n)) l1 = Some (l', Inr ())"
    "kl_blockStore l' = kl_blockStore l1" "\<forall>r \<in> set rs. at bl M r l'" "\<forall>r n'. r \<notin> set rs \<longrightarrow> at bl n' r l1 \<longrightarrow> at bl n' r l'"
    by auto
  moreover have "word_of_nat n + 1 = (word_of_nat (Suc n) :: uint64)" by simp
  ultimately show ?case using l1 le g by (subst recommitLostBlocks.simps) (simp del: of_nat_Suc)
qed

lemma should_recover:
  assumes "at bl n r l" "n \<le> length bl" "0 < length bl" "length bl < 2 ^ 64" "\<And>k. k < length bl \<Longrightarrow> blk_Number (bl ! k) = word_of_nat k"
    "r = Rec_historyDB \<Longrightarrow> le_IsHistoryDBEnabled E"
  shows "rec_ShouldRecover E l r (word_of_nat (length bl - 1)) = Inr (n \<noteq> length bl, word_of_nat n)"
proof -
  obtain N where N: "length bl = Suc N" using assms(3) by (cases "length bl") auto
  have neq: "word_of_nat k \<noteq> (word_of_nat N :: uint64) \<longleftrightarrow> Suc k \<noteq> length bl" if "n = Suc k" for k
  proof -
    have u: "unat (word_of_nat k :: uint64) = k" "unat (word_of_nat N :: uint64) = N"
      by (rule unat_nat64, use assms(2,4) N that in linarith)+
    show ?thesis unfolding word_unat_eq_iff u using N by simp
  qed
  show ?thesis
  proof (cases r)
    case Rec_txtmgmt
    then obtain sp where sp: "vdb_GetLatestSavePoint (le_DB E) (tm_db (kl_txtmgmt l)) = Inr sp"
      "map_option BlockNum sp = (if n = 0 then None else Some (word_of_nat (n - 1)))"
      using assms(1) by (auto simp: rec_at_def state_at_def)
    show ?thesis
    proof (cases n)
      case 0
      with sp Rec_txtmgmt N show ?thesis by (simp add: rec_ShouldRecover_def tm_ShouldRecover_def tm_GetLastSavepoint_def)
    next
      case (Suc k)
      with sp neq[OF Suc] Rec_txtmgmt N show ?thesis
        by (auto simp: rec_ShouldRecover_def tm_ShouldRecover_def tm_GetLastSavepoint_def)
    qed
  next
    case Rec_historyDB
    obtain v where v: "kvs_Get (le_HK E) (kl_historyDB l) [0] = Inr v" using hs.kvs_Get_total by blast
    then have v': "v = chain_history (le_val E) (take n bl) Map.empty [0]"
      using hs.kvs_Get[OF v] assms(1) Rec_historyDB by (simp add: rec_at_def hist_at_def)
    note defs = rec_ShouldRecover_def hist_ShouldRecover_def hist_GetLastSavepoint_def hist_savePointKey_def
    show ?thesis
    proof (cases n)
      case 0
      with v v' Rec_historyDB assms(6) N show ?thesis by (simp add: defs chain_history_def)
    next
      case (Suc k)
      then have k: "k < length bl" using assms(2) by simp
      have "v = Some (opv (word_of_nat k) @ opv (word_of_nat (length (blk_Data (bl ! k)))))"
        unfolding v' Suc chain_steps(2)[OF k] using assms(5)[OF k] by (simp add: hist_step_def)
      with v neq[OF Suc] Rec_historyDB assms(6) N Suc
        NewHeightFromBytes_opv[of "NewHeight (word_of_nat k) (word_of_nat (length (blk_Data (bl ! k))))" "[]"]
      show ?thesis by (simp add: defs NewHeight_def)
    qed
  qed
qed

end


context kv_ledger
begin

lemma recommit_both:
  assumes st: "all_settled E valid_ns bl" and h: "holds (kl_blockStore l) bl" and n: "n \<le> m" "m < length bl"
    and r: "r \<noteq> r'" "at bl n r l" "at bl m r' l"
  shows "\<exists>l'. Option.bind
      (if (word_of_nat n :: uint64) \<noteq> word_of_nat m then recommitLostBlocks E (word_of_nat m - 1) [r] (word_of_nat n) l
       else Some (l, Inr ())) (\<lambda>(l', res). case res of Inl e \<Rightarrow> Some (l', Inl e)
         | Inr _ \<Rightarrow> recommitLostBlocks E (word_of_nat (length bl - 1)) [r, r'] (word_of_nat m) l') = Some (l', Inr ())
    \<and> kl_blockStore l' = kl_blockStore l \<and> at bl (length bl) r l' \<and> at bl (length bl) r' l'"
proof -
  have len: "length bl < 2 ^ 64" by (rule bs.holds_small[OF h])
  have u: "unat (word_of_nat n :: uint64) = n" "unat (word_of_nat m :: uint64) = m"
    by (rule unat_nat64, use n len in linarith)+
  have "\<exists>l1. (if (word_of_nat n :: uint64) \<noteq> word_of_nat m then recommitLostBlocks E (word_of_nat m - 1) [r] (word_of_nat n) l
       else Some (l, Inr ())) = Some (l1, Inr ()) \<and> kl_blockStore l1 = kl_blockStore l \<and> at bl m r l1 \<and> at bl m r' l1"
  proof (cases "n = m")
    case False
    then obtain k where k: "m = Suc k" using n(1) by (cases m) auto
    have "(word_of_nat n :: uint64) \<noteq> word_of_nat m" unfolding word_unat_eq_iff u using False .
    moreover have "word_of_nat m - 1 = (word_of_nat (m - 1) :: uint64)" by (simp add: k)
    ultimately show ?thesis using recommit_ok[OF st h n(1), of "[r]"] n(2) k r by (auto simp del: of_nat_Suc)
  qed (use r in auto)
  then obtain l1 where l1: "(if (word_of_nat n :: uint64) \<noteq> word_of_nat m
      then recommitLostBlocks E (word_of_nat m - 1) [r] (word_of_nat n) l else Some (l, Inr ())) = Some (l1, Inr ())"
    "kl_blockStore l1 = kl_blockStore l" "at bl m r l1" "at bl m r' l1" by blast
  have "\<exists>l'. recommitLostBlocks E (word_of_nat (length bl - 1)) [r, r'] (word_of_nat m) l1 = Some (l', Inr ())
      \<and> kl_blockStore l' = kl_blockStore l1 \<and> (\<forall>x \<in> set [r, r']. at bl (length bl) x l')"
  proof -
    have "holds (kl_blockStore l1) bl" "0 < length bl" "distinct [r, r']" "\<And>x. x \<in> set [r, r'] \<Longrightarrow> at bl m x l1"
      using l1 h n(2) r(1) by auto
    from recommit_ok[OF st this(1) less_imp_le[OF n(2)] this(2) order_refl this(3,4)] show ?thesis by blast
  qed
  then show ?thesis unfolding l1(1) l1(2)[symmetric] by auto
qed

lemma recover_ok:
  assumes st: "all_settled E valid_ns bl" and h: "holds (kl_blockStore l) bl" and n: "n1 \<le> length bl" "n2 \<le> length bl"
    and r: "at bl n1 Rec_txtmgmt l" "le_IsHistoryDBEnabled E \<Longrightarrow> at bl n2 Rec_historyDB l"
  shows "\<exists>l'. recoverDBs E l = Some (l', Inr ()) \<and> kl_blockStore l' = kl_blockStore l
    \<and> at bl (length bl) Rec_txtmgmt l' \<and> (le_IsHistoryDBEnabled E \<longrightarrow> at bl (length bl) Rec_historyDB l')"
proof (cases "bl = []")
  case True
  then show ?thesis using bs.info[OF h] r n by (auto simp: recoverDBs_def)
next
  case False
  then have N: "0 < length bl" by simp
  note len = bs.holds_small[OF h]
  obtain i where i: "bst_GetBlockchainInfo (le_BS E) (kl_blockStore l) = Inr i" "bci_Height i = word_of_nat (length bl)"
    using bs.info[OF h] by blast
  obtain k where k: "length bl = Suc k" using N by (cases "length bl") auto
  have "unat (bci_Height i) \<noteq> 0" using unat_nat64[OF len] i(2) N by simp
  then have ht: "bci_Height i \<noteq> 0" "bci_Height i - 1 = word_of_nat (length bl - 1)" unfolding i(2) k by auto
  define w where "w = (word_of_nat (length bl - 1) :: uint64)"
  note sr = should_recover[OF _ _ N len bs.holds_num[OF h], folded w_def]
  have s1: "rec_ShouldRecover E l Rec_txtmgmt w = Inr (n1 \<noteq> length bl, word_of_nat n1)"
    by (rule sr[OF r(1) n(1)]) simp_all
  have less: "(word_of_nat n2 :: uint64) < word_of_nat n1 \<longleftrightarrow> n2 < n1"
  proof -
    have u: "unat (word_of_nat n1 :: uint64) = n1" "unat (word_of_nat n2 :: uint64) = n2"
      by (rule unat_nat64, use n len in linarith)+
    show ?thesis unfolding word_less_nat_alt u ..
  qed
  have one: "\<exists>l'. recommitLostBlocks E w [x] (word_of_nat k) l = Some (l', Inr ())
      \<and> kl_blockStore l' = kl_blockStore l \<and> at bl (length bl) x l' \<and> (\<forall>y n'. y \<noteq> x \<longrightarrow> at bl n' y l \<longrightarrow> at bl n' y l')"
    if "k \<le> length bl" "at bl k x l" for k x
    using recommit_ok[OF st h that(1) N order_refl, of "[x]", folded w_def] that(2) by simp
  note defs = recoverDBs_def i(1) ht(1) ht(2)[folded w_def] Let_def s1
  show ?thesis
  proof (cases "le_IsHistoryDBEnabled E")
    case False
    then have "rec_ShouldRecover E l Rec_historyDB w = Inr (False, 0)"
      by (simp add: rec_ShouldRecover_def hist_ShouldRecover_def)
    then show ?thesis using False one[OF n(1) r(1)] r(1) by (cases "n1 = length bl") (auto simp: defs)
  next
    case True
    then have s2: "rec_ShouldRecover E l Rec_historyDB w = Inr (n2 \<noteq> length bl, word_of_nat n2)"
      by (intro sr[OF r(2) n(2)]) simp_all
    note r2 = r(2)[OF True]
    consider "n1 = length bl" "n2 = length bl" | "n1 = length bl" "n2 < length bl" | "n1 < length bl" "n2 = length bl"
      | "n1 \<le> n2" "n1 < length bl" "n2 < length bl" | "n2 < n1" "n1 < length bl" "n2 < length bl" using n by linarith
    then show ?thesis
    proof cases
      case 1
      then show ?thesis using r True by (simp add: defs s2)
    next
      case 2
      then show ?thesis using one[OF n(2) r2] r(1) by (auto simp: defs s2)
    next
      case 3
      then show ?thesis using one[OF n(1) r(1)] r2 by (auto simp: defs s2)
    next
      case 4
      then have "\<not> (word_of_nat n2 :: uint64) < word_of_nat n1" using less by simp
      with 4 show ?thesis using recommit_both[OF st h 4(1,3) _ r(1) r2, folded w_def] by (auto simp: defs s2 split: if_splits)
    next
      case 5
      then have "(word_of_nat n2 :: uint64) < word_of_nat n1" using less by simp
      with 5 show ?thesis using recommit_both[OF st h less_imp_le[OF 5(1)] 5(2) _ r2 r(1), folded w_def] by (auto simp: defs s2 split: if_splits)
    qed
  qed
qed

end


section \<open>Runs of a ledger\<close>

text \<open>What is on the disk when the process stops during the commit of a block: before anything is
  written, in the middle of the addition to the block store, and between the writes to the block
  store, to the state database and to the history database. The databases are then at most one block
  behind the block store; a stop during the recovery, which can leave them further behind, is not a step of
  a run and is covered by a theorem of its own.\<close>

inductive kl_crash :: "('b, 's, 'h) ledger_env \<Rightarrow> ('b \<Rightarrow> Block \<Rightarrow> 'd \<Rightarrow> bool) \<Rightarrow> ('b \<Rightarrow> 'd) \<Rightarrow> ('b, 's, 'h) kvLedger \<Rightarrow> Block
    \<Rightarrow> 'd \<Rightarrow> 's \<Rightarrow> 'h \<Rightarrow> bool" for E left stopped l block where
  crash_idle: "kl_crash E left stopped l block (stopped (kl_blockStore l)) (tm_db (kl_txtmgmt l)) (kl_historyDB l)"
| crash_adding: "tm_ValidateAndPrepare (le_val E) (le_DB E) (kl_txtmgmt l) block True = ((tm1, block1), Inr ()) \<Longrightarrow>
    bst_GetBlockchainInfo (le_BS E) (kl_blockStore l) = Inr i \<Longrightarrow> blk_Number block1 = bci_Height i \<Longrightarrow>
    left (kl_blockStore l) block1 d \<Longrightarrow> kl_crash E left stopped l block d (tm_db (kl_txtmgmt l)) (kl_historyDB l)"
| crash_committing: "tm_ValidateAndPrepare (le_val E) (le_DB E) (kl_txtmgmt l) block True = ((tm1, block1), Inr ()) \<Longrightarrow>
    bst_AddBlock (le_BS E) (kl_blockStore l) block1 = (bs, None) \<Longrightarrow>
    kl_crash E left stopped l block (stopped bs) (tm_db (kl_txtmgmt l)) (kl_historyDB l)"
| crash_recording: "tm_ValidateAndPrepare (le_val E) (le_DB E) (kl_txtmgmt l) block True = ((tm1, block1), Inr ()) \<Longrightarrow>
    bst_AddBlock (le_BS E) (kl_blockStore l) block1 = (bs, None) \<Longrightarrow> tm_Commit (le_DB E) tm1 = Some (tm2, Inr ()) \<Longrightarrow>
    kl_crash E left stopped l block (stopped bs) (tm_db tm2) (kl_historyDB l)"

text \<open>A block that may be handed to the ledger: its transactions write to namespaces the state
  database has, and the validated block is one that the block store can take, unless its number is wrong.\<close>

definition kl_admits :: "('b, 's, 'h) ledger_env \<Rightarrow> ('b \<Rightarrow> Block \<Rightarrow> bool) \<Rightarrow> (string \<Rightarrow> bool) \<Rightarrow> ('b, 's, 'h) kvLedger \<Rightarrow> Block \<Rightarrow> bool" where
  "kl_admits E takes valid l block \<longleftrightarrow>
     (\<forall>env \<in> set (blk_Data block). \<forall>t. endorser_rwset (le_val E) env = Some t \<longrightarrow> tx_ns_ok valid t)
     \<and> (\<forall>tm1 block1 i. tm_ValidateAndPrepare (le_val E) (le_DB E) (kl_txtmgmt l) block True = ((tm1, block1), Inr ()) \<longrightarrow>
          bst_GetBlockchainInfo (le_BS E) (kl_blockStore l) = Inr i \<longrightarrow> blk_Number block1 = bci_Height i \<longrightarrow>
          takes (kl_blockStore l) block1)"

text \<open>The ledger holds the chain, and its databases are those of the whole chain.\<close>

definition ledger_inv :: "('b, 's, 'h) ledger_env \<Rightarrow> ('b \<Rightarrow> Block list \<Rightarrow> bool) \<Rightarrow> ('s \<Rightarrow> bool) \<Rightarrow> ('s \<Rightarrow> contents) \<Rightarrow> (string \<Rightarrow> bool)
    \<Rightarrow> ('h \<Rightarrow> bytes \<rightharpoonup> bytes) \<Rightarrow> Block list \<Rightarrow> ('b, 's, 'h) kvLedger \<Rightarrow> bool" where
  "ledger_inv E holds ok view valid hview bl l \<longleftrightarrow> holds (kl_blockStore l) bl \<and> all_settled E valid bl
     \<and> state_at E ok view valid bl (length bl) (tm_db (kl_txtmgmt l))
     \<and> (le_IsHistoryDBEnabled E \<longrightarrow> hist_at E hview bl (length bl) (kl_historyDB l))"

lemma at_append:
  "n \<le> length bl \<Longrightarrow> state_at E ok view valid (bl @ bl') n s \<longleftrightarrow> state_at E ok view valid bl n s"
  "n \<le> length bl \<Longrightarrow> hist_at E hview (bl @ bl') n h \<longleftrightarrow> hist_at E hview bl n h"
  by (simp_all add: state_at_def hist_at_def)

lemma prepared:
  assumes "tm_ValidateAndPrepare E D tm block mvcc = ((tm1, block1), Inr ())"
    "\<forall>env \<in> set (blk_Data block). \<forall>t. endorser_rwset E env = Some t \<longrightarrow> tx_ns_ok valid t"
  obtains u where "settled E D valid block1 u" "tm1 = tm\<lparr>tm_currentBlock := Some block1, tm_batch := Some u\<rparr>"
    "blk_Number block1 = blk_Number block"
proof -
  from assms(1) obtain u where u: "ValidateAndPrepareBatch E D (tm_db tm) block mvcc = (block1, Inr u)"
    "tm1 = tm\<lparr>tm_currentBlock := Some block1, tm_batch := Some u\<rparr>"
    by (auto simp: tm_ValidateAndPrepare_def split: prod.splits sum.splits)
  show ?thesis by (rule that[OF settled_validated[OF u(1) assms(2)] u(2)]) (rule ValidateAndPrepareBatch_batch(3)[OF u(1) assms(2)])
qed

context kv_ledger
begin

abbreviation linv :: "Block list \<Rightarrow> ('b, 's, 'h) kvLedger \<Rightarrow> bool" where
  "linv \<equiv> ledger_inv E holds ok view valid_ns hview"

lemma add_outcome:
  assumes l: "linv bl l" and a: "kl_admits E takes valid_ns l block"
    and p: "tm_ValidateAndPrepare (le_val E) (le_DB E) (kl_txtmgmt l) block True = ((tm1, block1), Inr ())"
    and b: "bst_AddBlock (le_BS E) (kl_blockStore l) block1 = (bst, e)"
  shows "holds bst (if e = None then bl @ [block1] else bl)"
    and "e = None \<Longrightarrow> takes (kl_blockStore l) block1 \<and> blk_Number block1 = word_of_nat (length bl)"
proof -
  have h: "holds (kl_blockStore l) bl" using l by (simp add: ledger_inv_def)
  obtain i where i: "bst_GetBlockchainInfo (le_BS E) (kl_blockStore l) = Inr i" "bci_Height i = word_of_nat (length bl)"
    using bs.info[OF h] by blast
  have t: "takes (kl_blockStore l) block1" if "blk_Number block1 = word_of_nat (length bl)"
    using a p i that by (auto simp: kl_admits_def)
  show "holds bst (if e = None then bl @ [block1] else bl)"
  proof (cases "blk_Number block1 = word_of_nat (length bl)")
    case True
    from bs.added[OF h t[OF True] b] show ?thesis .
  next
    case False
    with bs.refused[OF h False] b h show ?thesis by auto
  qed
  show "takes (kl_blockStore l) block1 \<and> blk_Number block1 = word_of_nat (length bl)" if "e = None"
    using that t bs.refused[OF h, of block1] b by (cases "blk_Number block1 = word_of_nat (length bl)") auto
qed

lemma commit_state:
  assumes l: "linv bl l" and a: "kl_admits E takes valid_ns l block"
    and p: "tm_ValidateAndPrepare (le_val E) (le_DB E) (kl_txtmgmt l) block True = ((tm1, block1), Inr ())"
    and b: "bst_AddBlock (le_BS E) (kl_blockStore l) block1 = (bst, None)"
  shows "all_settled E valid_ns (bl @ [block1])" "state_at E ok view valid_ns (bl @ [block1]) (length bl) (tm_db (kl_txtmgmt l))"
    "le_IsHistoryDBEnabled E \<Longrightarrow> hist_at E hview (bl @ [block1]) (length bl) (kl_historyDB l)"
    "tm_Commit (le_DB E) tm1 = Some (tm2, r) \<Longrightarrow> r = Inr () \<and> state_at E ok view valid_ns (bl @ [block1]) (Suc (length bl)) (tm_db tm2)"
proof -
  have ns: "\<forall>env \<in> set (blk_Data block). \<forall>t. endorser_rwset (le_val E) env = Some t \<longrightarrow> tx_ns_ok valid_ns t"
    using a by (simp add: kl_admits_def)
  obtain u where u: "settled (le_val E) (le_DB E) valid_ns block1 u"
    "tm1 = (kl_txtmgmt l)\<lparr>tm_currentBlock := Some block1, tm_batch := Some u\<rparr>" by (rule prepared[OF p ns])
  show "all_settled E valid_ns (bl @ [block1])" using l u(1) by (auto simp: ledger_inv_def all_settled_def)
  show s: "state_at E ok view valid_ns (bl @ [block1]) (length bl) (tm_db (kl_txtmgmt l))"
    and "le_IsHistoryDBEnabled E \<Longrightarrow> hist_at E hview (bl @ [block1]) (length bl) (kl_historyDB l)"
    using l by (simp_all add: ledger_inv_def at_append)
  assume c: "tm_Commit (le_DB E) tm1 = Some (tm2, r)"
  obtain s' where s': "vdb_ApplyUpdates (le_DB E) (tm_db (kl_txtmgmt l)) u
      (NewHeight (blk_Number ((bl @ [block1]) ! length bl)) (word_of_int (int (length (blk_Data block1)) - 1))) = (s', None)"
    "state_at E ok view valid_ns (bl @ [block1]) (Suc (length bl)) s'"
    by (rule apply_settled[of "bl @ [block1]" "length bl" u]) (use u(1) s add_outcome(2)[OF l a p b] in auto)
  with c u(2) show "r = Inr () \<and> state_at E ok view valid_ns (bl @ [block1]) (Suc (length bl)) (tm_db tm2)"
    by (auto simp: tm_Commit_def split: if_splits)
qed

lemma commit_ok:
  assumes l: "linv bl l" and a: "kl_admits E takes valid_ns l block" and c: "kl_Commit E l block = Some ((l', block'), r)"
  shows "linv (if r = Inr () then bl @ [block'] else bl) l'"
proof -
  obtain tm1 block1 v where p: "tm_ValidateAndPrepare (le_val E) (le_DB E) (kl_txtmgmt l) block True = ((tm1, block1), v)"
    by (metis surj_pair)
  have tm1: "tm_db tm1 = tm_db (kl_txtmgmt l)"
    using p by (auto simp: tm_ValidateAndPrepare_def split: prod.splits sum.splits)
  show ?thesis
  proof (cases v)
    case (Inl e)
    then show ?thesis using c p l tm1 by (auto simp: kl_Commit_def ledger_inv_def)
  next
    case (Inr x)
    have p: "tm_ValidateAndPrepare (le_val E) (le_DB E) (kl_txtmgmt l) block True = ((tm1, block1), Inr ())"
      using p Inr by simp
    obtain bst e where b: "bst_AddBlock (le_BS E) (kl_blockStore l) block1 = (bst, e)" by (metis surj_pair)
    note h = add_outcome(1)[OF l a p b]
    show ?thesis
    proof (cases e)
      case (Some e')
      then show ?thesis using c p b h l tm1 by (auto simp: kl_Commit_def ledger_inv_def)
    next
      case None
      note b = b[unfolded None]
      note cs = commit_state[OF l a p b]
      obtain tm2 r2 where t: "tm_Commit (le_DB E) tm1 = Some (tm2, r2)"
        using c p b by (auto simp: kl_Commit_def split: bind_splits)
      note s2 = cs(4)[OF t]
      show ?thesis
      proof (cases "le_IsHistoryDBEnabled E")
        case False
        then show ?thesis using c p b t s2 h None cs(1) by (auto simp: kl_Commit_def ledger_inv_def)
      next
        case True
        obtain u where u: "settled (le_val E) (le_DB E) valid_ns block1 u" using cs(1) by (auto simp: all_settled_def)
        obtain h' where h': "hist_Commit (le_val E) (le_HK E) (kl_historyDB l) block1 = ((h', block1), None)"
          "hview h' = hist_step (le_val E) block1 (hview (kl_historyDB l))"
          by (rule settled_hist_Commit[OF u hs.kv_store_ok_axioms])
        have "hist_at E hview (bl @ [block1]) (Suc (length bl)) h'"
          using cs(3)[OF True] h'(2) chain_steps(2)[of "length bl" "bl @ [block1]"] by (simp add: hist_at_def)
        then show ?thesis using c p b t s2 h None cs(1) h'(1) True by (auto simp: kl_Commit_def ledger_inv_def)
      qed
    qed
  qed
qed

lemma open_ok:
  assumes h: "holds bst bl" and st: "all_settled E valid_ns bl" and s: "state_at E ok view valid_ns bl n1 s" "n1 \<le> length bl"
    and w: "le_IsHistoryDBEnabled E \<Longrightarrow> hist_at E hview bl n2 hdb" "n2 \<le> length bl"
  shows "\<exists>l. newKVLedger E ident bst s hdb = Some (Inr l) \<and> linv bl l"
proof -
  let ?l = "\<lparr>kl_ledgerID = ident, kl_blockStore = bst, kl_txtmgmt = NewLockBasedTxMgr s, kl_historyDB = hdb\<rparr>"
  have "at bl n1 Rec_txtmgmt ?l" "le_IsHistoryDBEnabled E \<Longrightarrow> at bl n2 Rec_historyDB ?l" "holds (kl_blockStore ?l) bl"
    using s w h by (simp_all add: rec_at_def NewLockBasedTxMgr_def)
  from recover_ok[OF st this(3) s(2) w(2) this(1,2)] obtain l where "recoverDBs E ?l = Some (l, Inr ())"
    "kl_blockStore l = bst" "at bl (length bl) Rec_txtmgmt l" "le_IsHistoryDBEnabled E \<longrightarrow> at bl (length bl) Rec_historyDB l" by auto
  then show ?thesis using h st by (auto simp: newKVLedger_def ledger_inv_def rec_at_def)
qed

lemma crash_ok:
  assumes l: "linv bl l" and a: "kl_admits E takes valid_ns l block" and c: "kl_crash E left stopped l block d s hdb"
  shows "\<exists>bst l' bl'. reopen d = Inr bst \<and> newKVLedger E ident bst s hdb = Some (Inr l') \<and> linv bl' l'
    \<and> (bl' = bl \<or> (\<exists>tm1 block1. tm_ValidateAndPrepare (le_val E) (le_DB E) (kl_txtmgmt l) block True = ((tm1, block1), Inr ())
         \<and> bl' = bl @ [block1]))"
proof -
  have h: "holds (kl_blockStore l) bl" and st: "all_settled E valid_ns bl"
    and s: "state_at E ok view valid_ns bl (length bl) (tm_db (kl_txtmgmt l))"
    and w: "le_IsHistoryDBEnabled E \<Longrightarrow> hist_at E hview bl (length bl) (kl_historyDB l)"
    using l by (simp_all add: ledger_inv_def)
  note same = open_ok[OF _ st s order_refl w order_refl]
  from c show ?thesis
  proof cases
    case crash_idle
    from bs.restarted[OF h] obtain s' where "reopen (stopped (kl_blockStore l)) = Inr s'" "holds s' bl" by blast
    with same[OF this(2)] crash_idle show ?thesis by blast
  next
    case (crash_adding tm1 block1 i)
    have t: "takes (kl_blockStore l) block1" using a crash_adding(3-5) by (auto simp: kl_admits_def)
    have ns: "\<forall>env \<in> set (blk_Data block). \<forall>t. endorser_rwset (le_val E) env = Some t \<longrightarrow> tx_ns_ok valid_ns t"
      using a by (simp add: kl_admits_def)
    obtain u where u: "settled (le_val E) (le_DB E) valid_ns block1 u" by (rule prepared[OF crash_adding(3) ns])
    from bs.reopened[OF h t crash_adding(6)] obtain s' bl' where o: "reopen d = Inr s'" "holds s' bl'" "bl' = bl \<or> bl' = bl @ [block1]" by blast
    then have b: "all_settled E valid_ns bl'" "length bl \<le> length bl'" "state_at E ok view valid_ns bl' (length bl) (tm_db (kl_txtmgmt l))"
      "le_IsHistoryDBEnabled E \<Longrightarrow> hist_at E hview bl' (length bl) (kl_historyDB l)"
      using st s w u by (auto simp: all_settled_def at_append)
    from open_ok[OF o(2) b(1,3,2,4,2)] o(1,3) crash_adding show ?thesis by blast
  next
    case (crash_committing tm1 block1 bst)
    note cs = commit_state(1-3)[OF l a crash_committing(4,5)]
    have "holds bst (bl @ [block1])" using add_outcome(1)[OF l a crash_committing(4,5)] by simp
    from bs.restarted[OF this] obtain s' where s': "reopen (stopped bst) = Inr s'" "holds s' (bl @ [block1])" by blast
    from open_ok[OF s'(2) cs(1,2) _ cs(3)] s'(1) crash_committing show ?thesis by fastforce
  next
    case (crash_recording tm1 block1 bst tm2)
    note cs = commit_state[OF l a crash_recording(4,5)]
    have "holds bst (bl @ [block1])" using add_outcome(1)[OF l a crash_recording(4,5)] by simp
    from bs.restarted[OF this] obtain s' where s': "reopen (stopped bst) = Inr s'" "holds s' (bl @ [block1])" by blast
    from open_ok[OF s'(2) cs(1) conjunct2[OF cs(4)[OF crash_recording(6)]] _ cs(3)] s'(1) crash_recording show ?thesis by fastforce
  qed
qed

end


text \<open>A run: the ledger is created on fresh databases, blocks are committed, simulators and query
  executors are taken and returned, and a stop of the process during a commit is followed by a
  restart on what it has left. Each step may meet its own faults. The list has the blocks whose commit has
  returned without an error.\<close>

inductive kl_run :: "('f \<Rightarrow> ('b, 's, 'h) ledger_env) \<Rightarrow> ('b \<Rightarrow> Block \<Rightarrow> bool) \<Rightarrow> ('d \<Rightarrow> 'b res) \<Rightarrow> ('b \<Rightarrow> Block \<Rightarrow> 'd \<Rightarrow> bool)
    \<Rightarrow> ('b \<Rightarrow> 'd) \<Rightarrow> (string \<Rightarrow> bool) \<Rightarrow> string \<Rightarrow> 'd \<Rightarrow> 's \<Rightarrow> 'h \<Rightarrow> ('b, 's, 'h) kvLedger \<Rightarrow> Block list \<Rightarrow> bool"
  for Es takes reopen left stopped valid ident d0 s0 h0 where
  run_open: "reopen d0 = Inr bst \<Longrightarrow> newKVLedger (Es f) ident bst s0 h0 = Some (Inr l) \<Longrightarrow>
    kl_run Es takes reopen left stopped valid ident d0 s0 h0 l []"
| run_commit: "kl_run Es takes reopen left stopped valid ident d0 s0 h0 l acked \<Longrightarrow> kl_admits (Es f) takes valid l block \<Longrightarrow>
    kl_Commit (Es f) l block = Some ((l', block'), r) \<Longrightarrow>
    kl_run Es takes reopen left stopped valid ident d0 s0 h0 l' (if r = Inr () then acked @ [block'] else acked)"
| run_simulator: "kl_run Es takes reopen left stopped valid ident d0 s0 h0 l acked \<Longrightarrow> kl_NewTxSimulator l = (q, l') \<Longrightarrow>
    kl_run Es takes reopen left stopped valid ident d0 s0 h0 l' acked"
| run_executor: "kl_run Es takes reopen left stopped valid ident d0 s0 h0 l acked \<Longrightarrow> kl_NewQueryExecutor l = (q, l') \<Longrightarrow>
    kl_run Es takes reopen left stopped valid ident d0 s0 h0 l' acked"
| run_done: "kl_run Es takes reopen left stopped valid ident d0 s0 h0 l acked \<Longrightarrow> tm_Done cfg (kl_txtmgmt l) q = Inr (tm, q') \<Longrightarrow>
    kl_run Es takes reopen left stopped valid ident d0 s0 h0 (l\<lparr>kl_txtmgmt := tm\<rparr>) acked"
| run_restart: "kl_run Es takes reopen left stopped valid ident d0 s0 h0 l acked \<Longrightarrow> kl_admits (Es f) takes valid l block \<Longrightarrow>
    kl_crash (Es f) left stopped l block d s h \<Longrightarrow> reopen d = Inr bst \<Longrightarrow> newKVLedger (Es f) ident bst s h = Some (Inr l') \<Longrightarrow>
    kl_run Es takes reopen left stopped valid ident d0 s0 h0 l' acked"

section \<open>The ledger of the peer\<close>

text \<open>The file based block store, the state in a LevelDB and the history in another one. The argument of
  the family is the pair of faults of a write to the block files.\<close>

definition fs_ledger_env :: "val_env \<Rightarrow> 'i blk_env \<Rightarrow> 's kvs \<Rightarrow> 'h kvs \<Rightarrow> bool \<Rightarrow> write_fault \<times> write_fault
    \<Rightarrow> ('i fsBlockStore, 's, 'h) ledger_env" where
  "fs_ledger_env V F KS KH hist f = \<lparr>le_val = V, le_BS = fsBlockStore_of F (fst f) (snd f), le_DB = stateleveldb KS,
     le_HK = KH, le_IsHistoryDBEnabled = hist\<rparr>"

abbreviation fs_takes :: "'i blk_env \<Rightarrow> 'i fsBlockStore \<Rightarrow> Block \<Rightarrow> bool" where
  "fs_takes F \<equiv> \<lambda>store. can_add F (fs_fileMgr store)"

abbreviation fs_run :: "val_env \<Rightarrow> 'i blk_env \<Rightarrow> 's kvs \<Rightarrow> 'h kvs \<Rightarrow> bool \<Rightarrow> string \<Rightarrow> 'i \<Rightarrow> 's \<Rightarrow> 'h
    \<Rightarrow> ('i fsBlockStore, 's, 'h) kvLedger \<Rightarrow> Block list \<Rightarrow> bool" where
  "fs_run V F KS KH hist ident db0 s0 h0 \<equiv> kl_run (fs_ledger_env V F KS KH hist) (fs_takes F) (fs_reopen F ident) (fs_left F) fs_stopped
     sldb_valid_ns ident ([], db0) s0 h0"

abbreviation fs_linv :: "val_env \<Rightarrow> 'i blk_env \<Rightarrow> 's kvs \<Rightarrow> 'h kvs \<Rightarrow> bool \<Rightarrow> ('i \<Rightarrow> bytes \<rightharpoonup> bytes) \<Rightarrow> ('s \<Rightarrow> bytes \<rightharpoonup> bytes) \<Rightarrow> ('h \<Rightarrow> bytes \<rightharpoonup> bytes)
    \<Rightarrow> write_fault \<times> write_fault \<Rightarrow> Block list \<Rightarrow> ('i fsBlockStore, 's, 'h) kvLedger \<Rightarrow> bool" where
  "fs_linv V F KS KH hist kvi kvs kvh f \<equiv> ledger_inv (fs_ledger_env V F KS KH hist f) (fs_holds F kvi) (sldb_inv kvs) (sldb_view kvs) sldb_valid_ns kvh"

context fs_block_store
begin

lemma fs_contract: "block_store (fsBlockStore_of E f1 f2) (fs_holds E kview) (\<lambda>store. can_add E (fs_fileMgr store))
    (fs_reopen E ident) (fs_left E) fs_stopped"
  by (rule block_store_axioms)

end

context kv_store_ok
begin

lemma sldb_contract: "versioned_db_ok (stateleveldb K) (sldb_inv kview) (sldb_view kview) sldb_valid_ns"
  by (rule versioned_db_ok_axioms)

end

lemma fs_kv_ledger:
  assumes "kv_store_ok (be_K F) kvi" "kv_store_ok KS kvs" "kv_store_ok KH kvh" "IndexableAttrBlockNum \<in> set (be_items F)"
  shows "kv_ledger (fs_ledger_env V F KS KH hist f) (fs_holds F kvi) (fs_takes F) (fs_reopen F ident) (fs_left F) fs_stopped
    (sldb_inv kvs) (sldb_view kvs) sldb_valid_ns kvh"
proof -
  have "fs_block_store (be_K F) kvi F" using assms(1,4) by (simp add: fs_block_store_def fs_block_store_axioms_def)
  from fs_block_store.fs_contract[OF this] kv_store_ok.sldb_contract[OF assms(2)] assms(3)
  show ?thesis by (simp add: kv_ledger_def fs_ledger_env_def)
qed

lemma fs_linv_faults: "fs_linv V F KS KH hist kvi kvs kvh f bl l = fs_linv V F KS KH hist kvi kvs kvh f' bl l"
  by (simp add: ledger_inv_def all_settled_def state_at_def hist_at_def fs_ledger_env_def)

lemma linv_frame:
  "tm_db tm = tm_db (kl_txtmgmt l) \<Longrightarrow> ledger_inv E holds ok view valid hview bl (l\<lparr>kl_txtmgmt := tm\<rparr>) = ledger_inv E holds ok view valid hview bl l"
  by (simp add: ledger_inv_def)

lemma fs_fresh:
  assumes "kv_store_ok (be_K F) kvi" "kv_store_ok KS kvs" "kv_store_ok KH kvh" "IndexableAttrBlockNum \<in> set (be_items F)"
    and "kvi db0 = Map.empty" "kvs s0 = Map.empty" "kvh h0 = Map.empty"
  shows "\<exists>bst l. fs_reopen F ident ([], db0) = Inr bst \<and> newKVLedger (fs_ledger_env V F KS KH hist f) ident bst s0 h0 = Some (Inr l)
    \<and> fs_linv V F KS KH hist kvi kvs kvh f [] l"
proof -
  let ?E = "fs_ledger_env V F KS KH hist f"
  obtain m where m: "newBlockfileMgr F [] db0 = Inr m" "store_inv F kvi [[]] m"
    using kv_store_ok.newBlockfileMgr_fresh[OF assms(1) refl assms(5)] by blast
  let ?b = "\<lparr>fs_id = ident, fs_fileMgr = m\<rparr>"
  have o: "fs_reopen F ident ([], db0) = Inr ?b" using m(1) by (simp add: fs_reopen_def newFsBlockStore_def)
  have h: "fs_holds F kvi ?b []" using m(2) unfolding fs_holds_def by (intro exI[of _ "[[]]"]) simp
  have "kvs_Get KS s0 savePointKey = Inr None"
    using kv_store_ok.kvs_Get_total[OF assms(2), of s0 savePointKey] kv_store.kvs_Get[OF kv_store_ok.axioms(1)[OF assms(2)], of s0 savePointKey]
      assms(6) by auto
  then have s: "state_at ?E (sldb_inv kvs) (sldb_view kvs) sldb_valid_ns [] 0 s0"
    using assms(6) by (simp add: state_at_def fs_ledger_env_def stateleveldb_def sldb_GetLatestSavePoint_def sldb_inv_def sldb_view_def
        chain_state_def fun_eq_iff)
  have "hist_at ?E kvh [] 0 h0" using assms(7) by (simp add: hist_at_def chain_history_def)
  from kv_ledger.open_ok[OF fs_kv_ledger[OF assms(1-4)] h _ s _ this] o show ?thesis by (auto simp: all_settled_def)
qed

lemma fs_run_inv:
  assumes k: "kv_store_ok (be_K F) kvi" "kv_store_ok KS kvs" "kv_store_ok KH kvh" "IndexableAttrBlockNum \<in> set (be_items F)"
    and z: "kvi db0 = Map.empty" "kvs s0 = Map.empty" "kvh h0 = Map.empty"
    and r: "fs_run V F KS KH hist ident db0 s0 h0 l acked"
  shows "\<exists>bl. (\<forall>f. fs_linv V F KS KH hist kvi kvs kvh f bl l) \<and> set acked \<subseteq> set bl"
  using r
proof induction
  case (run_open bst f l)
  then have "fs_linv V F KS KH hist kvi kvs kvh f [] l" using fs_fresh[OF k z, of ident V hist f] by auto
  then have "\<forall>f. fs_linv V F KS KH hist kvi kvs kvh f [] l" using fs_linv_faults by blast
  then show ?case by auto
next
  case (run_commit l acked f block l' block' r)
  then obtain bl where bl: "fs_linv V F KS KH hist kvi kvs kvh f bl l" "set acked \<subseteq> set bl" by blast
  let ?bl = "if r = Inr () then bl @ [block'] else bl"
  have "\<forall>f. fs_linv V F KS KH hist kvi kvs kvh f ?bl l'"
    using kv_ledger.commit_ok[OF fs_kv_ledger[OF k] bl(1) run_commit.hyps(2,3)] fs_linv_faults by blast
  moreover have "set (if r = Inr () then acked @ [block'] else acked) \<subseteq> set ?bl" using bl(2) by auto
  ultimately show ?case by blast
next
  case (run_simulator l acked q l')
  then have "l' = l\<lparr>kl_txtmgmt := (kl_txtmgmt l)\<lparr>tm_readers := tm_readers (kl_txtmgmt l) + 1\<rparr>\<rparr>"
    by (simp add: kl_NewTxSimulator_def tm_NewTxSimulator_def)
  with run_simulator.IH show ?case by (simp add: linv_frame)
next
  case (run_executor l acked q l')
  then have "l' = l\<lparr>kl_txtmgmt := (kl_txtmgmt l)\<lparr>tm_readers := tm_readers (kl_txtmgmt l) + 1\<rparr>\<rparr>"
    by (simp add: kl_NewQueryExecutor_def tm_NewQueryExecutor_def)
  with run_executor.IH show ?case by (simp add: linv_frame)
next
  case (run_done l acked cfg q tm q')
  then have "tm_db tm = tm_db (kl_txtmgmt l)" by (auto simp: tm_Done_def res_bind_eq_Inr split: if_splits)
  with run_done.IH show ?case by (simp add: linv_frame)
next
  case (run_restart l acked f block d s h bst l')
  then obtain bl where bl: "fs_linv V F KS KH hist kvi kvs kvh f bl l" "set acked \<subseteq> set bl" by blast
  from kv_ledger.crash_ok[OF fs_kv_ledger[OF k, where ident = ident] bl(1) run_restart.hyps(2,3), where ident = ident] run_restart.hyps(4,5) obtain bl' where
    bl': "fs_linv V F KS KH hist kvi kvs kvh f bl' l'" "bl' = bl \<or> (\<exists>block1. bl' = bl @ [block1])" by auto
  from bl'(2) have sub: "set bl \<subseteq> set bl'" by auto
  have "\<forall>f. fs_linv V F KS KH hist kvi kvs kvh f bl' l'" using bl'(1) fs_linv_faults by blast
  then show ?case using bl(2) sub by blast
qed

lemma fs_linv_serves:
  assumes "kv_store_ok (be_K F) kvi" "IndexableAttrBlockNum \<in> set (be_items F)" "fs_linv V F KS KH hist kvi kvs kvh f bl l"
  shows "serves F (fs_fileMgr (kl_blockStore l)) bl"
  using assms(3) kv_store_ok.store_serves[OF assms(1) refl assms(2)] by (auto simp: ledger_inv_def fs_holds_def)

context kv_ledger
begin

lemma catch_up:
  assumes l: "linv bl l" and s: "state_at E ok view valid_ns bl n1 s" "n1 \<le> length bl"
    and w: "le_IsHistoryDBEnabled E \<Longrightarrow> hist_at E hview bl n2 hdb" "n2 \<le> length bl"
  shows "\<exists>bst l'. reopen (stopped (kl_blockStore l)) = Inr bst \<and> newKVLedger E ident bst s hdb = Some (Inr l') \<and> linv bl l'"
proof -
  have h: "holds (kl_blockStore l) bl" and st: "all_settled E valid_ns bl" using l by (simp_all add: ledger_inv_def)
  obtain bst where "reopen (stopped (kl_blockStore l)) = Inr bst" "holds bst bl" using bs.restarted[OF h] by blast
  then show ?thesis using open_ok[OF _ st s w] by blast
qed

end

section \<open>Queries of the history\<close>

text \<open>The results of a history query of the ledger, by \<^const>\<open>kl_historyScanner_Next\<close> until it ends.\<close>

definition kl_history_read :: "('b, 's, 'h) ledger_env \<Rightarrow> ('b, 's, 'h) kvLedger \<Rightarrow> historyScanner \<Rightarrow> KeyModification list res" where
  "kl_history_read E l = history_read (le_val E) (bst_RetrieveTxByBlockNumTranNum (le_BS E) (kl_blockStore l))"

text \<open>The heights of the valid transactions of a chain that write a key.\<close>

definition chain_writes :: "val_env \<Rightarrow> Block list \<Rightarrow> string \<Rightarrow> string \<Rightarrow> (uint64 \<times> uint64) set" where
  "chain_writes V bl ns k = {(word_of_nat b, word_of_nat i) |b i t. b < length bl \<and> i < length (blk_Data (bl ! b))
     \<and> committed V (blk_flags (bl ! b)) i (blk_Data (bl ! b) ! i) = Some t \<and> (ns, k) \<in> tx_writes t}"

text \<open>The valid transactions of a chain write to namespaces and keys without a zero byte, and have each namespace once.\<close>

definition plain_writes :: "val_env \<Rightarrow> Block list \<Rightarrow> bool" where
  "plain_writes V bl \<longleftrightarrow> (\<forall>b \<in> set bl. \<forall>i < length (blk_Data b). \<forall>t. committed V (blk_flags b) i (blk_Data b ! i) = Some t \<longrightarrow>
     (\<forall>(n, w) \<in> tx_writes t. no_zero n \<and> no_zero w) \<and> distinct (map NameSpace (NsRwSets t)))"

lemma chain_history_dom:
  "x \<noteq> [0] \<Longrightarrow> x \<in> dom (chain_history E bl v) \<longleftrightarrow>
     x \<in> dom v \<or> (\<exists>b \<in> set bl. x \<in> block_recs E (blk_Number b) (blk_flags b) 0 (blk_Data b))"
  by (induction bl arbitrary: v) (auto simp: chain_history_def hist_step_def dom_def)

lemma chain_block_recs:
  assumes "\<And>b. b < length bl \<Longrightarrow> blk_Number (bl ! b) = word_of_nat b"
  shows "(\<exists>b \<in> set bl. x \<in> block_recs E (blk_Number b) (blk_flags b) 0 (blk_Data b))
    \<longleftrightarrow> (\<exists>b i t n w. x = hkey n w (word_of_nat b) (word_of_nat i) \<and> b < length bl \<and> i < length (blk_Data (bl ! b))
         \<and> committed E (blk_flags (bl ! b)) i (blk_Data (bl ! b) ! i) = Some t \<and> (n, w) \<in> tx_writes t)"
  unfolding block_recs_def Bex_def in_set_conv_nth using assms by (auto; metis)

lemma hkey_not_0: "hkey ns k b t \<noteq> [0]"
  by (cases "string_bytes ns") (auto simp: hkey_def)

lemma chain_heights:
  assumes num: "\<And>b. b < length bl \<Longrightarrow> blk_Number (bl ! b) = word_of_nat b" and p: "plain_writes V bl"
    and h: "kvh h = chain_history V bl Map.empty"
  shows "hist_inv kvh h" "no_zero ns \<Longrightarrow> no_zero k \<Longrightarrow> hist_heights kvh h ns k = chain_writes V bl ns k"
proof -
  have w: "no_zero n \<and> no_zero w" if "b < length bl" "i < length (blk_Data (bl ! b))"
      "committed V (blk_flags (bl ! b)) i (blk_Data (bl ! b) ! i) = Some t" "(n, w) \<in> tx_writes t" for b i t n w
    using p that nth_mem[OF that(1)] unfolding plain_writes_def by blast
  have d: "x \<in> dom (kvh h) \<longleftrightarrow> (\<exists>b i t n w. x = hkey n w (word_of_nat b) (word_of_nat i) \<and> b < length bl \<and> i < length (blk_Data (bl ! b))
      \<and> committed V (blk_flags (bl ! b)) i (blk_Data (bl ! b) ! i) = Some t \<and> (n, w) \<in> tx_writes t)" if "x \<noteq> [0]" for x
    using chain_history_dom[OF that, of V bl Map.empty] chain_block_recs[of bl x V] num by (simp add: h)
  show "hist_inv kvh h" unfolding hist_inv_def using d w by blast
  assume z: "no_zero ns" "no_zero k"
  have eq: "hkey ns k b t = hkey n v b' t' \<longleftrightarrow> ns = n \<and> k = v \<and> b = b' \<and> t = t'" if "no_zero n" "no_zero v" for n v b b' t t'
    using hkey_inj[OF z that, of b t "henc (b', t')"] hkey_henc[of n v "(b', t')"] by auto
  have "(b, t) \<in> hist_heights kvh h ns k \<longleftrightarrow> (b, t) \<in> chain_writes V bl ns k" for b t
  proof
    assume "(b, t) \<in> hist_heights kvh h ns k"
    then obtain b' i u n v where x: "hkey ns k b t = hkey n v (word_of_nat b') (word_of_nat i)" "b' < length bl" "i < length (blk_Data (bl ! b'))"
      "committed V (blk_flags (bl ! b')) i (blk_Data (bl ! b') ! i) = Some u" "(n, v) \<in> tx_writes u"
      using d[OF hkey_not_0] unfolding hist_heights_def by blast
    then show "(b, t) \<in> chain_writes V bl ns k" using eq w[OF x(2-5)] unfolding chain_writes_def by blast
  next
    assume "(b, t) \<in> chain_writes V bl ns k"
    then show "(b, t) \<in> hist_heights kvh h ns k" using d[OF hkey_not_0] unfolding hist_heights_def chain_writes_def by blast
  qed
  then show "hist_heights kvh h ns k = chain_writes V bl ns k" by auto
qed

lemma chain_retrieves:
  assumes "serves F (fs_fileMgr store) bl" "chain_ok (be_C F) bl" "plain_writes V bl"
    and "IndexableAttrBlockNumTranNum \<in> set (be_items F)" "be_C F = ve_tx V" "(x, y) \<in> chain_writes V bl ns k"
  shows "\<exists>env t. fs_RetrieveTxByBlockNumTranNum F store x y = Inr env
    \<and> GetEnvelopeFromBlock (ve_tx V) (blk_Data (bl ! unat x) ! unat y) = Inr env \<and> endorser_rwset V (blk_Data (bl ! unat x) ! unat y) = Some t
    \<and> (ns, k) \<in> tx_writes t \<and> distinct (map NameSpace (NsRwSets t))"
proof -
  obtain b i t where x: "x = word_of_nat b" "y = word_of_nat i" "b < length bl" "i < length (blk_Data (bl ! b))"
    "committed V (blk_flags (bl ! b)) i (blk_Data (bl ! b) ! i) = Some t" "(ns, k) \<in> tx_writes t"
    using assms(6) unfolding chain_writes_def by blast
  have "blk_ok (be_C F) (bl ! b)" "length bl < 2 ^ 64" using assms(2) x(3) by (simp_all add: chain_ok_def)
  then have u: "unat x = b" "unat y = i" using x(1-4) blk_okD(2)[of "be_C F" "bl ! b"] by (simp_all add: block_small_def unat_of_nat)
  have t: "endorser_rwset V (blk_Data (bl ! b) ! i) = Some t" using x(5) by (simp add: committed_def split: if_splits)
  then obtain env where env: "GetEnvelopeFromBlock (ve_tx V) (blk_Data (bl ! b) ! i) = Inr env"
    by (auto simp: endorser_rwset_def env_type_def res_bind_eq_Inr split: if_splits)
  have "fs_RetrieveTxByBlockNumTranNum F store x y = Inr env"
    using assms(1,4,5) x(3,4) env unfolding serves_def x(1,2) fs_RetrieveTxByBlockNumTranNum_def by simp
  moreover have "distinct (map NameSpace (NsRwSets t))" using assms(3) nth_mem[OF x(3)] x(4,5) unfolding plain_writes_def by blast
  ultimately show ?thesis unfolding u using env t x(6) by blast
qed

section \<open>Properties\<close>

text \<open>C1. The databases of the ledger follow its chain. Whatever commits of blocks the ledger may be handed, faults of
  the appends to the block files, simulations, stops of the process in the middle of a commit and
  restarts have happened, over databases that do not fail, the block store serves a chain that has
  every block whose commit was acknowledged; the state database is the result of executing the valid
  transactions of that chain one after the other on the empty state, and the history database, when
  it is enabled, has exactly the records of the chain.\<close>

theorem kv_ledger_consistent:
  assumes "kv_store_ok (be_K F) kvi" "kv_store_ok KS kvs" "kv_store_ok KH kvh" "IndexableAttrBlockNum \<in> set (be_items F)"
    and "kvi db0 = Map.empty" "kvs s0 = Map.empty" "kvh h0 = Map.empty"
    and "fs_run V F KS KH hist ident db0 s0 h0 l acked"
  shows "\<exists>bl. serves F (fs_fileMgr (kl_blockStore l)) bl \<and> set acked \<subseteq> set bl
    \<and> (\<forall>ns. sldb_valid_ns ns \<longrightarrow> sldb_view kvs (tm_db (kl_txtmgmt l)) ns = chain_state V bl (\<lambda>_. Map.empty) ns)
    \<and> (hist \<longrightarrow> kvh (kl_historyDB l) = chain_history V bl Map.empty)"
proof -
  obtain bl where bl: "fs_linv V F KS KH hist kvi kvs kvh (None, None) bl l" "set acked \<subseteq> set bl"
    using fs_run_inv[OF assms] by blast
  then have "serves F (fs_fileMgr (kl_blockStore l)) bl" using fs_linv_serves[OF assms(1,4)] by blast
  with bl show ?thesis by (auto simp: ledger_inv_def state_at_def hist_at_def fs_ledger_env_def)
qed

text \<open>C5. The ledger starts again after a stop in the middle of a commit. In every reachable state, for a block
  the ledger may be handed, one whose transactions write to namespaces of the state database and that
  the block store can take once it is validated, and for every point of its commit, during the addition to
  the block store or between the writes to the block store, to the state database and to the history
  database: the restart opens the block store and returns a ledger, so the recovery of the databases,
  which are at most one block behind, ends without an error. The block store then has the chain it had
  before, or that chain with the block as the validator has left it, flags included. The databases
  underneath are assumed not to fail.\<close>

theorem kv_ledger_restarts:
  assumes "kv_store_ok (be_K F) kvi" "kv_store_ok KS kvs" "kv_store_ok KH kvh" "IndexableAttrBlockNum \<in> set (be_items F)"
    and "kvi db0 = Map.empty" "kvs s0 = Map.empty" "kvh h0 = Map.empty"
    and "fs_run V F KS KH hist ident db0 s0 h0 l acked" "kl_admits (fs_ledger_env V F KS KH hist f) (fs_takes F) sldb_valid_ns l block"
    and "kl_crash (fs_ledger_env V F KS KH hist f) (fs_left F) fs_stopped l block d s h"
  shows "\<exists>bst l' bl bl'. fs_reopen F ident d = Inr bst \<and> newKVLedger (fs_ledger_env V F KS KH hist f) ident bst s h = Some (Inr l')
    \<and> fs_run V F KS KH hist ident db0 s0 h0 l' acked
    \<and> serves F (fs_fileMgr (kl_blockStore l)) bl \<and> serves F (fs_fileMgr (kl_blockStore l')) bl'
    \<and> (bl' = bl \<or> (\<exists>tm1 block1. tm_ValidateAndPrepare V (stateleveldb KS) (kl_txtmgmt l) block True = ((tm1, block1), Inr ())
         \<and> blk_Number block1 = blk_Number block \<and> blk_Data block1 = blk_Data block \<and> bl' = bl @ [block1]))"
proof -
  obtain bl where bl: "fs_linv V F KS KH hist kvi kvs kvh f bl l" using fs_run_inv[OF assms(1-8)] by blast
  have sel: "le_val (fs_ledger_env V F KS KH hist f) = V" "le_DB (fs_ledger_env V F KS KH hist f) = stateleveldb KS"
    by (simp_all add: fs_ledger_env_def)
  note c = kv_ledger.crash_ok[OF fs_kv_ledger[OF assms(1-4), where ident = ident] bl assms(9,10), where ident = ident, unfolded sel]
  let ?vap = "tm_ValidateAndPrepare V (stateleveldb KS) (kl_txtmgmt l) block True"
  from c obtain bst l' bl' where o: "fs_reopen F ident d = Inr bst"
    "newKVLedger (fs_ledger_env V F KS KH hist f) ident bst s h = Some (Inr l')" "fs_linv V F KS KH hist kvi kvs kvh f bl' l'"
    "bl' = bl \<or> (\<exists>tm1 block1. ?vap = ((tm1, block1), Inr ()) \<and> bl' = bl @ [block1])" by blast
  have "\<forall>env \<in> set (blk_Data block). \<forall>t. endorser_rwset V env = Some t \<longrightarrow> tx_ns_ok sldb_valid_ns t"
    using assms(9) by (simp add: kl_admits_def fs_ledger_env_def)
  then have "blk_Number block1 = blk_Number block \<and> blk_Data block1 = blk_Data block" if "?vap = ((tm1, block1), Inr ())" for tm1 block1
    using that ValidateAndPrepareBatch_batch(3,4)[of V "stateleveldb KS" _ block True block1]
    by (auto simp: tm_ValidateAndPrepare_def split: prod.splits sum.splits)
  then have "bl' = bl \<or> (\<exists>tm1 block1. ?vap = ((tm1, block1), Inr ()) \<and> blk_Number block1 = blk_Number block
      \<and> blk_Data block1 = blk_Data block \<and> bl' = bl @ [block1])" using o(4) by blast
  then show ?thesis
    using o(1,2) run_restart[OF assms(8-10) o(1,2)] fs_linv_serves[OF assms(1,4) bl] fs_linv_serves[OF assms(1,4) o(3)]
    by (intro exI[of _ bst] exI[of _ l'] exI[of _ bl] exI[of _ bl'] conjI)
qed

text \<open>C6. The recovery catches up from any distance. In every reachable state the block store serves a chain with
  the acknowledged blocks such that, if the process stops there and the ledger is opened on this block
  store with a state database that has the state after any number of blocks of the chain and a history
  database that has the records of any number of them, each with its savepoint, then opening ends without an
  error: the ledger serves the same chain, and both databases are those of the whole chain. This covers
  databases that were dropped, restored from an earlier copy, or left by a stop during the recovery itself.\<close>

theorem kv_ledger_catches_up:
  assumes "kv_store_ok (be_K F) kvi" "kv_store_ok KS kvs" "kv_store_ok KH kvh" "IndexableAttrBlockNum \<in> set (be_items F)"
    and "kvi db0 = Map.empty" "kvs s0 = Map.empty" "kvh h0 = Map.empty"
    and "fs_run V F KS KH hist ident db0 s0 h0 l acked" "E = fs_ledger_env V F KS KH hist f"
  shows "\<exists>bl. serves F (fs_fileMgr (kl_blockStore l)) bl \<and> set acked \<subseteq> set bl
    \<and> (\<forall>n1 n2 s h. n1 \<le> length bl \<longrightarrow> n2 \<le> length bl \<longrightarrow> state_at E (sldb_inv kvs) (sldb_view kvs) sldb_valid_ns bl n1 s \<longrightarrow>
         hist_at E kvh bl n2 h \<longrightarrow> (\<exists>bst l'. fs_reopen F ident (fs_stopped (kl_blockStore l)) = Inr bst
           \<and> newKVLedger E ident bst s h = Some (Inr l') \<and> serves F (fs_fileMgr (kl_blockStore l')) bl
           \<and> (\<forall>ns. sldb_valid_ns ns \<longrightarrow> sldb_view kvs (tm_db (kl_txtmgmt l')) ns = chain_state V bl (\<lambda>_. Map.empty) ns)
           \<and> (hist \<longrightarrow> kvh (kl_historyDB l') = chain_history V bl Map.empty)))"
proof -
  obtain bl where bl: "fs_linv V F KS KH hist kvi kvs kvh f bl l" "set acked \<subseteq> set bl" using fs_run_inv[OF assms(1-8)] by blast
  show ?thesis
  proof (intro exI[of _ bl] conjI allI impI bl(2) fs_linv_serves[OF assms(1,4) bl(1)])
    fix n1 n2 s h
    assume n: "n1 \<le> length bl" "n2 \<le> length bl" and s: "state_at E (sldb_inv kvs) (sldb_view kvs) sldb_valid_ns bl n1 s" and h: "hist_at E kvh bl n2 h"
    obtain bst l' where o: "fs_reopen F ident (fs_stopped (kl_blockStore l)) = Inr bst" "newKVLedger E ident bst s h = Some (Inr l')"
      "fs_linv V F KS KH hist kvi kvs kvh f bl l'"
      using kv_ledger.catch_up[OF fs_kv_ledger[OF assms(1-4), where ident = ident] bl(1) s[unfolded assms(9)] n(1) h[unfolded assms(9)] n(2), where ident = ident]
      unfolding assms(9) by blast
    have "(\<forall>ns. sldb_valid_ns ns \<longrightarrow> sldb_view kvs (tm_db (kl_txtmgmt l')) ns = chain_state V bl (\<lambda>_. Map.empty) ns)
        \<and> (hist \<longrightarrow> kvh (kl_historyDB l') = chain_history V bl Map.empty)"
      using o(3) by (simp add: ledger_inv_def state_at_def hist_at_def fs_ledger_env_def)
    then show "\<exists>bst l'. fs_reopen F ident (fs_stopped (kl_blockStore l)) = Inr bst
           \<and> newKVLedger E ident bst s h = Some (Inr l') \<and> serves F (fs_fileMgr (kl_blockStore l')) bl
           \<and> (\<forall>ns. sldb_valid_ns ns \<longrightarrow> sldb_view kvs (tm_db (kl_txtmgmt l')) ns = chain_state V bl (\<lambda>_. Map.empty) ns)
           \<and> (hist \<longrightarrow> kvh (kl_historyDB l') = chain_history V bl Map.empty)"
      using o(1,2) fs_linv_serves[OF assms(1,4) o(3)] by blast
  qed
qed

text \<open>C15. The history the ledger reports is the history of its chain. In every reachable state of a ledger
  whose history database is enabled and whose block store has the index of transactions by their place, the
  block store serves a chain such that, if the valid transactions of the chain write only to namespaces and
  keys without a zero byte and have each namespace once, the query for a key without a zero byte gives
  one modification for every valid transaction of the chain that writes the key, in the order of the chain,
  each with the value, the delete flag, the identifier and the timestamp of that transaction.\<close>

theorem ledger_history:
  assumes "kv_store_ok (be_K F) kvi" "kv_store_ok KS kvs" "kv_store_ok KH kvh" "IndexableAttrBlockNum \<in> set (be_items F)"
    and "kvi db0 = Map.empty" "kvs s0 = Map.empty" "kvh h0 = Map.empty"
    and "fs_run V F KS KH True ident db0 s0 h0 l acked" "IndexableAttrBlockNumTranNum \<in> set (be_items F)" "be_C F = ve_tx V"
    and "E = fs_ledger_env V F KS KH True f"
  shows "\<exists>bl. serves F (fs_fileMgr (kl_blockStore l)) bl \<and> (plain_writes V bl \<longrightarrow> (\<forall>ns k. no_zero ns \<longrightarrow> no_zero k \<longrightarrow>
    (\<exists>scanner ms. kl_GetHistoryForKey E l ns k = Inr scanner \<and> kl_history_read E l scanner = Inr ms
       \<and> list_all2 (\<lambda>(b, i). modifies V (blk_Data (bl ! unat b) ! unat i) ns k) (sorted_list_of_set (chain_writes V bl ns k)) ms)))"
proof -
  obtain bl where bl: "fs_linv V F KS KH True kvi kvs kvh f bl l" using fs_run_inv[OF assms(1-8)] by blast
  have sv: "serves F (fs_fileMgr (kl_blockStore l)) bl" by (rule fs_linv_serves[OF assms(1,4) bl])
  have ch: "chain_ok (be_C F) bl" "kvh (kl_historyDB l) = chain_history V bl Map.empty"
    using bl by (auto simp: ledger_inv_def fs_holds_def store_inv_def hist_at_def fs_ledger_env_def)
  have num: "blk_Number (bl ! b) = word_of_nat b" if "b < length bl" for b using ch(1) that by (simp add: chain_ok_def)
  show ?thesis
  proof (intro exI[of _ bl] conjI sv impI allI)
    fix ns k assume p: "plain_writes V bl" and z: "no_zero ns" "no_zero k"
    have inv: "hist_inv kvh (kl_historyDB l)" by (rule chain_heights(1)) (use num p ch(2) in auto)
    have H: "hist_heights kvh (kl_historyDB l) ns k = chain_writes V bl ns k" by (rule chain_heights(2)) (use num p ch(2) z in auto)
    have r: "\<forall>(b, i) \<in> hist_heights kvh (kl_historyDB l) ns k. \<exists>env t. fs_RetrieveTxByBlockNumTranNum F (kl_blockStore l) b i = Inr env
        \<and> GetEnvelopeFromBlock (ve_tx V) (blk_Data (bl ! unat b) ! unat i) = Inr env \<and> endorser_rwset V (blk_Data (bl ! unat b) ! unat i) = Some t
        \<and> (ns, k) \<in> tx_writes t \<and> distinct (map NameSpace (NsRwSets t))"
      unfolding H using chain_retrieves[OF sv ch(1) p assms(9,10)] by blast
    from history_read_exact[OF kv_store_ok.axioms(1)[OF assms(3)] inv z r]
    show "\<exists>scanner ms. kl_GetHistoryForKey E l ns k = Inr scanner \<and> kl_history_read E l scanner = Inr ms
       \<and> list_all2 (\<lambda>(b, i). modifies V (blk_Data (bl ! unat b) ! unat i) ns k) (sorted_list_of_set (chain_writes V bl ns k)) ms"
      unfolding H by (simp add: kl_GetHistoryForKey_def kl_history_read_def assms(11) fs_ledger_env_def fsBlockStore_of_def)
  qed
qed

section \<open>A concrete ledger\<close>

abbreviation ex_K :: "memdb_state kvs" where
  "ex_K \<equiv> DBHandle memdb ''mychannel''"

definition ex_lenv :: "write_fault \<times> write_fault \<Rightarrow> (memdb_state fsBlockStore, memdb_state, memdb_state) ledger_env" where
  "ex_lenv = fs_ledger_env ex_env ex_benv ex_K ex_K True"

text \<open>The ledger on fresh databases, and the first block before its validation.\<close>

definition ex_l0 :: "(memdb_state fsBlockStore, memdb_state, memdb_state) kvLedger" where
  "ex_l0 = \<lparr>kl_ledgerID = ''mychannel'', kl_blockStore = \<lparr>fs_id = ''mychannel'', fs_fileMgr = ex_m0\<rparr>,
     kl_txtmgmt = NewLockBasedTxMgr [], kl_historyDB = []\<rparr>"

definition ex_in :: Block where
  "ex_in = ex_b0\<lparr>blk_Metadata := [[], [], [], []]\<rparr>"

lemma ex_K_ok: "kv_store_ok (be_K ex_benv) chan_kview" "kv_store_ok ex_K chan_kview" "chan_kview ([] :: memdb_state) = Map.empty"
  using mem_ch.handle_kv_store by (simp_all add: ex_benv_def handle_view_def fun_eq_iff)

interpretation ex_ledger: kv_ledger "fs_ledger_env ex_env ex_benv ex_K ex_K True (None, None)" "fs_holds ex_benv chan_kview"
  "fs_takes ex_benv" "fs_reopen ex_benv ''mychannel''" "fs_left ex_benv" fs_stopped "sldb_inv chan_kview" "sldb_view chan_kview"
  sldb_valid_ns chan_kview
  by (rule fs_kv_ledger[OF ex_K_ok(1,2,2) ex_items(1)])

lemma ex_open: "fs_run ex_env ex_benv ex_K ex_K True ''mychannel'' [] [] [] ex_l0 []"
proof (rule run_open)
  show "fs_reopen ex_benv ''mychannel'' ([], []) = Inr (kl_blockStore ex_l0)"
    by (simp add: fs_reopen_def newFsBlockStore_def ex_new ex_l0_def)
  have "bci_Height (mgr_bcInfo ex_m0) = 0" by code_simp
  then show "newKVLedger (fs_ledger_env ex_env ex_benv ex_K ex_K True (None, None)) ''mychannel'' (kl_blockStore ex_l0) [] [] = Some (Inr ex_l0)"
    by (simp add: newKVLedger_def recoverDBs_def fs_ledger_env_def fsBlockStore_of_def fs_GetBlockchainInfo_def ex_l0_def)
qed

lemma ex_vap: "tm_ValidateAndPrepare ex_env chan_db (kl_txtmgmt ex_l0) ex_in True
    = ((fst (fst (tm_ValidateAndPrepare ex_env chan_db (kl_txtmgmt ex_l0) ex_in True)), ex_b0), Inr ())"
proof -
  have "snd (fst (tm_ValidateAndPrepare ex_env chan_db (kl_txtmgmt ex_l0) ex_in True)) = ex_b0"
    "snd (tm_ValidateAndPrepare ex_env chan_db (kl_txtmgmt ex_l0) ex_in True) = Inr ()" by code_simp+
  then show ?thesis by (metis prod.collapse)
qed

lemma ex_admits: "kl_admits (ex_lenv f) (fs_takes ex_benv) sldb_valid_ns ex_l0 ex_in"
  using ex_rw_ns ex_vap ex_can_add
  by (auto simp: kl_admits_def ex_lenv_def fs_ledger_env_def ex_l0_def)

lemma ex_ledger_commit:
  "\<exists>l. kl_Commit (fs_ledger_env ex_env ex_benv ex_K ex_K True (None, None)) ex_l0 ex_in = Some ((l, ex_b0), Inr ())"
proof -
  have "map_option (\<lambda>((l, b), r). (b, r)) (kl_Commit (fs_ledger_env ex_env ex_benv ex_K ex_K True (None, None)) ex_l0 ex_in)
      = Some (ex_b0, Inr ())" by code_simp
  then show ?thesis by (auto split: prod.splits)
qed

theorem kv_ledger_consistent_witness:
  "\<exists>l bl. fs_run ex_env ex_benv ex_K ex_K True ''mychannel'' [] [] [] l [ex_b0]
     \<and> serves ex_benv (fs_fileMgr (kl_blockStore l)) bl \<and> ex_b0 \<in> set bl
     \<and> sldb_view chan_kview (tm_db (kl_txtmgmt l)) ''cc'' = chain_state ex_env bl (\<lambda>_. Map.empty) ''cc''
     \<and> chan_kview (kl_historyDB l) = chain_history ex_env bl Map.empty"
proof -
  obtain l where l: "kl_Commit (fs_ledger_env ex_env ex_benv ex_K ex_K True (None, None)) ex_l0 ex_in = Some ((l, ex_b0), Inr ())"
    using ex_ledger_commit by blast
  have r: "fs_run ex_env ex_benv ex_K ex_K True ''mychannel'' [] [] [] l [ex_b0]"
    using run_commit[OF ex_open, of "(None, None)", OF ex_admits[unfolded ex_lenv_def] l] by simp
  have v: "sldb_valid_ns ''cc''" by (simp add: sldb_valid_ns_def no_zero_def)
  obtain bl where bl: "serves ex_benv (fs_fileMgr (kl_blockStore l)) bl" "set [ex_b0] \<subseteq> set bl"
    "\<forall>ns. sldb_valid_ns ns \<longrightarrow> sldb_view chan_kview (tm_db (kl_txtmgmt l)) ns = chain_state ex_env bl (\<lambda>_. Map.empty) ns"
    "chan_kview (kl_historyDB l) = chain_history ex_env bl Map.empty"
    using kv_ledger_consistent[OF ex_K_ok(1,2,2) ex_items(1) ex_K_ok(3,3,3) r] by blast
  have "ex_b0 \<in> set bl" using bl(2) by simp
  with r bl(1,4) bl(3)[rule_format, OF v] show ?thesis by blast
qed

text \<open>The process stops when the block is in the block store and not yet in the databases.\<close>

theorem kv_ledger_restarts_witness:
  "\<exists>bst0 bst l. bst_AddBlock (fsBlockStore_of ex_benv None None) (kl_blockStore ex_l0) ex_b0 = (bst0, None)
     \<and> fs_reopen ex_benv ''mychannel'' (fs_stopped bst0) = Inr bst
     \<and> newKVLedger (fs_ledger_env ex_env ex_benv ex_K ex_K True (None, None)) ''mychannel'' bst [] [] = Some (Inr l)
     \<and> fs_run ex_env ex_benv ex_K ex_K True ''mychannel'' [] [] [] l []"
proof -
  let ?E = "fs_ledger_env ex_env ex_benv ex_K ex_K True (None, None)"
  have "snd (bst_AddBlock (fsBlockStore_of ex_benv None None) (kl_blockStore ex_l0) ex_b0) = None" by code_simp
  then obtain bst0 where b: "bst_AddBlock (fsBlockStore_of ex_benv None None) (kl_blockStore ex_l0) ex_b0 = (bst0, None)"
    by (metis prod.collapse)
  have "kl_crash ?E (fs_left ex_benv) fs_stopped ex_l0 ex_in (fs_stopped bst0) (tm_db (kl_txtmgmt ex_l0)) (kl_historyDB ex_l0)"
    by (rule crash_committing[of _ _ _ "fst (fst (tm_ValidateAndPrepare ex_env chan_db (kl_txtmgmt ex_l0) ex_in True))" ex_b0])
      (use ex_vap b in \<open>simp_all add: fs_ledger_env_def\<close>)
  from kv_ledger_restarts[OF ex_K_ok(1,2,2) ex_items(1) ex_K_ok(3,3,3) ex_open ex_admits[unfolded ex_lenv_def] this]
  obtain bst l where "fs_reopen ex_benv ''mychannel'' (fs_stopped bst0) = Inr bst"
    "newKVLedger ?E ''mychannel'' bst (tm_db (kl_txtmgmt ex_l0)) (kl_historyDB ex_l0) = Some (Inr l)"
    "fs_run ex_env ex_benv ex_K ex_K True ''mychannel'' [] [] [] l []" by blast
  moreover have "tm_db (kl_txtmgmt ex_l0) = []" "kl_historyDB ex_l0 = []" by (simp_all add: ex_l0_def NewLockBasedTxMgr_def)
  ultimately show ?thesis using b by auto
qed

lemma ex_run: "\<exists>l. fs_run ex_env ex_benv ex_K ex_K True ''mychannel'' [] [] [] l [ex_b0]"
proof -
  obtain l where l: "kl_Commit (fs_ledger_env ex_env ex_benv ex_K ex_K True (None, None)) ex_l0 ex_in = Some ((l, ex_b0), Inr ())"
    using ex_ledger_commit by blast
  show ?thesis using run_commit[OF ex_open, of "(None, None)", OF ex_admits[unfolded ex_lenv_def] l] by auto
qed

text \<open>The ledger has one block, and is opened with both databases empty.\<close>

theorem kv_ledger_catches_up_witness:
  "\<exists>l bl bst l'. fs_run ex_env ex_benv ex_K ex_K True ''mychannel'' [] [] [] l [ex_b0] \<and> ex_b0 \<in> set bl
     \<and> fs_reopen ex_benv ''mychannel'' (fs_stopped (kl_blockStore l)) = Inr bst
     \<and> newKVLedger (fs_ledger_env ex_env ex_benv ex_K ex_K True (None, None)) ''mychannel'' bst [] [] = Some (Inr l')
     \<and> serves ex_benv (fs_fileMgr (kl_blockStore l')) bl \<and> chan_kview (kl_historyDB l') = chain_history ex_env bl Map.empty"
proof -
  let ?E = "fs_ledger_env ex_env ex_benv ex_K ex_K True (None, None)"
  obtain l where r: "fs_run ex_env ex_benv ex_K ex_K True ''mychannel'' [] [] [] l [ex_b0]" using ex_run by blast
  have "kvs_Get ex_K [] savePointKey = Inr None" by code_simp
  then have s: "state_at ?E (sldb_inv chan_kview) (sldb_view chan_kview) sldb_valid_ns bl 0 []" for bl
    using sldb_inv_empty by (simp add: state_at_def fs_ledger_env_def stateleveldb_def sldb_GetLatestSavePoint_def sldb_view_def chain_state_def
        fun_eq_iff handle_view_def)
  have h: "hist_at ?E chan_kview bl 0 []" for bl using ex_K_ok(3) by (simp add: hist_at_def chain_history_def)
  obtain bl where bl: "set [ex_b0] \<subseteq> set bl"
    "\<forall>n1 n2 s h. n1 \<le> length bl \<longrightarrow> n2 \<le> length bl \<longrightarrow> state_at ?E (sldb_inv chan_kview) (sldb_view chan_kview) sldb_valid_ns bl n1 s \<longrightarrow>
       hist_at ?E chan_kview bl n2 h \<longrightarrow> (\<exists>bst l'. fs_reopen ex_benv ''mychannel'' (fs_stopped (kl_blockStore l)) = Inr bst
         \<and> newKVLedger ?E ''mychannel'' bst s h = Some (Inr l') \<and> serves ex_benv (fs_fileMgr (kl_blockStore l')) bl
         \<and> (\<forall>ns. sldb_valid_ns ns \<longrightarrow> sldb_view chan_kview (tm_db (kl_txtmgmt l')) ns = chain_state ex_env bl (\<lambda>_. Map.empty) ns)
         \<and> (True \<longrightarrow> chan_kview (kl_historyDB l') = chain_history ex_env bl Map.empty))"
    using kv_ledger_catches_up[OF ex_K_ok(1,2,2) ex_items(1) ex_K_ok(3,3,3) r refl, of "(None, None)"] by (elim exE conjE)
  from bl(2)[rule_format, OF _ _ s h] bl(1) r show ?thesis by auto
qed

theorem ledger_history_witness:
  "\<exists>l bl scanner ms. fs_run ex_env ex_benv ex_K ex_K True ''mychannel'' [] [] [] l [ex_b0] \<and> serves ex_benv (fs_fileMgr (kl_blockStore l)) bl
     \<and> kl_GetHistoryForKey (ex_lenv (None, None)) l ''cc'' ''k'' = Inr scanner \<and> kl_history_read (ex_lenv (None, None)) l scanner = Inr ms
     \<and> list_all2 (\<lambda>(b, i). modifies ex_env (blk_Data (bl ! unat b) ! unat i) ''cc'' ''k'')
          (sorted_list_of_set (chain_writes ex_env bl ''cc'' ''k'')) ms"
proof -
  obtain l where r: "fs_run ex_env ex_benv ex_K ex_K True ''mychannel'' [] [] [] l [ex_b0]" using ex_run by blast
  have z: "no_zero ''cc''" "no_zero ''k''" by (simp_all add: no_zero_def)
  have "tx_writes ex_rw = {(''cc'', ''k'')}" "distinct (map NameSpace (NsRwSets ex_rw))" by (auto simp: tx_writes_def ex_rw_def ex_kvrw_def)
  then have p: "plain_writes ex_env bl" for bl using z by (auto simp: plain_writes_def committed_def ex_rwset)
  have "be_C ex_benv = ve_tx ex_env" "IndexableAttrBlockNumTranNum \<in> set (be_items ex_benv)" by (simp_all add: ex_benv_def ex_env_def)
  from ledger_history[OF ex_K_ok(1,2,2) ex_items(1) ex_K_ok(3,3,3) r this(2,1) refl, of "(None, None)"] p z r
  show ?thesis unfolding ex_lenv_def by blast
qed

end
