(* ===== verification/Spec2Isabelle.thy ===== *)
theory Spec2Isabelle
  imports Ledger_Examples CAuth_DSL KV_Ledger
begin

text \<open>
  A verification development of the ledger of Hyperledger Fabric 1.0 (the Go sources under
  \<^verbatim>\<open>src/\<close>). A peer keeps, for each channel, a chain of blocks in files with an index, a state
  database with the current value and version of every key, and a history database. A
  transaction is simulated against the state, its reads and writes are collected, and when a
  block with it arrives the peer validates the reads, marks the transaction valid or not in
  the metadata of the block, appends the block to the files and applies the writes.
  Signature policies decide which signatures on a transaction are enough.

  \<^bold>\<open>Conventions\<close> (\<open>Fabric_Prelude\<close>). A Go string is a list of characters, a byte slice a list of
  \<open>8 word\<close>, wrapped in \<open>option\<close> where the code tells nil from empty; integers that can
  wrap are words; a Go map is an association list. A function that can fail returns
  \<open>'a res\<close>, with an error, a panic or divergence on the left. Code outside the repository (goleveldb,
  protobuf messages, hash functions, the MSP) is a parameter; locales state what is
  documented of it, and every locale is interpreted on the definitions of the model or, for
  the parameters, on a concrete instance.

  \<^bold>\<open>Encodings.\<close> \<open>Order_Varint\<close>: protobuf varints and the order-preserving encoding of
  \<^verbatim>\<open>common/ledger/util\<close>, with round trips and the order. \<open>Tx_Version\<close>: heights
  (\<^verbatim>\<open>version.go\<close>).

  \<^bold>\<open>Databases.\<close> \<open>Level_DB\<close>: the handles of \<^verbatim>\<open>leveldbhelper\<close> over goleveldb; a handle is a key-value store
  (\<open>kv_store\<close>), isolated from the other handles. \<open>State_Batch\<close> and \<open>Versioned_DB\<close>: update
  batches and the contract of a state database (\<^verbatim>\<open>statedb.go\<close>). \<open>State_LevelDB\<close>: \<^verbatim>\<open>stateleveldb.go\<close>
  implements the contract.

  \<^bold>\<open>Transactions.\<close> \<open>RW_Set\<close>, \<open>Merkle_Results\<close>: read-write sets and the Merkle summary of range queries
  (\<^verbatim>\<open>rwsetutil\<close>). \<open>Combined_Iterator\<close>, \<open>Range_Validator\<close>, \<open>MVCC_Validator\<close>: the
  validator (\<^verbatim>\<open>statebasedval\<close>); the transactions of a block left valid are serializable in
  block order. \<open>Tx_Envelope\<close>: the messages around a read-write set. \<open>Tx_Simulator\<close>,
  \<open>Lock_TxMgr\<close>: simulation and the manager (\<^verbatim>\<open>lockbasedtxmgr\<close>) as a step relation with its
  invariant. \<open>History_DB\<close>: commit and query of the history. \<open>Ledger_Examples\<close>: the concrete
  parameters of the witnesses.

  \<^bold>\<open>Block store\<close> (\<^verbatim>\<open>common/ledger/blkstorage/fsblkstorage\<close>). \<open>Block_Serialization\<close>, \<open>Block_Index\<close>,
  \<open>Block_File\<close>, \<open>Block_Store\<close>: blocks as bytes, the index, the files and streams, and the manager with
  its start. \<open>Block_Recovery\<close>: the invariant of the store, preserved by additions and restored by a
  start after a crash; \<open>Block_Retrieval\<close>: what the clients read, and the runs of the store. The loops over
  files end because a stream only moves forward; the termination proofs say so.

  \<^bold>\<open>Policies.\<close> \<open>CAuth_DSL\<close>: compilation and evaluation of signature policies, the builders and the
  second pass of the parser (\<^verbatim>\<open>common/cauthdsl\<close>).

  \<^bold>\<open>This theory\<close> has the properties that span the validator, the manager and the databases.

  \<^bold>\<open>Not modelled.\<close> CouchDB (HTTP and JSON; the contract of a state database stands for it), the MSP and
  the cryptography (parameters), gossip, the chaincode runtime and the gRPC services (goroutines,
  Docker, network), the command line, configuration files and logging. Files are maps from
  numbers to contents, and locks are not modelled where the code holds them for a whole
  operation.
\<close>

section \<open>Properties\<close>

text \<open>C2. The transactions of a block that the validator leaves flagged as valid are
  serializable in block order: each endorser transaction flagged valid has read, for every
  key and every range query of its read set, exactly what the database holds after the
  valid transactions before it in the block have been executed, and the batch the validator
  returns is the effect of executing all the valid transactions one after the other.\<close>

theorem mvcc_serializable:
  assumes "versioned_db_ok D ok view valid_ns" "ok s"
    and "\<forall>env \<in> set (blk_Data block). \<forall>t. endorser_rwset E env = Some t \<longrightarrow> tx_ns_ok valid_ns t"
    and "ValidateAndPrepareBatch E D s block True = (block', Inr batch)"
    and "f = blk_Metadata block' ! BlockMetadataIndex_TRANSACTIONS_FILTER"
  shows "overlay (view s) batch = replay E (blk_Number block) 0 (blk_Data block) f (view s)
    \<and> (\<forall>i < length (blk_Data block). \<forall>t. committed E f i (blk_Data block ! i) = Some t \<longrightarrow>
        reads_current E (replay E (blk_Number block) 0 (take i (blk_Data block)) f (view s)) t)"
  using versioned_db_ok.validate_block_serial[OF assms(1,4,2,3,5)] serial_nth[where i = 0] by auto

theorem mvcc_serializable_witness:
  "ValidateAndPrepareBatch ex_env chan_db [] ex_block True
     = (ex_block\<lparr>blk_Metadata := [[], [], [0, 11], []]\<rparr>, Inr ex_updates)
   \<and> overlay (sldb_view chan_kview []) ex_updates = replay ex_env 1 0 [[1], [2]] [0, 11] (sldb_view chan_kview [])
   \<and> reads_current ex_env (sldb_view chan_kview []) ex_rw"
proof -
  note w = mvcc_serializable[OF chan_versioned_db sldb_inv_empty ex_rw_ns ex_validate refl]
  have "committed ex_env [0, 11] 0 [1] = Some ex_rw" by (simp add: committed_def ex_rwset)
  with conjunct2[OF w] conjunct1[OF w] ex_validate show ?thesis
    by (auto simp: ex_block_def BlockMetadataIndex_TRANSACTIONS_FILTER_def simp del: replay.simps(2)
        dest!: spec[of _ "0::nat"])
qed

text \<open>C8. A simulation validates: in every interleaving of the operations of the transaction manager with those
  of the simulators and query executors it has handed out (reads, writes, range scans and rich
  queries), the read-write set an open simulator would return is valid against the state database as it is
  at that moment, however many blocks have been committed before and however many simulators are open.
  It is provided that every range iterator the simulator has opened was read to its end or delivered a last
  key that is not empty, that the hash and the serialization of query results do not fail and are the
  same for the simulator and the validator, and that no namespace has more than about \<open>2 ^ 32\<close> keys.\<close>

theorem simulation_validates:
  assumes "versioned_db_ok D ok view valid_ns" "ok s0" "tm_reach E cfg D valid_ns s0 sys"
    and "total_fn (sc_hash cfg)" "total_fn (sc_serialize cfg)" "ve_hash E = sc_hash cfg" "ve_serialize E = sc_serialize cfg"
    and "h \<in> set (ts_sims sys)" "qh_rwsetBuilder h \<noteq> None" "\<not> qh_doneInvoked h" "\<forall>itr \<in> set (qh_itrs h). itr_used itr"
    and "\<forall>ns. valid_ns ns \<longrightarrow> card (dom (view (tm_db (ts_mgr sys)) ns)) + 5 < 2 ^ 32"
    and "sim_results cfg h = Inr (t, h')"
  shows "validateTx E D (tm_db (ts_mgr sys)) t NewUpdateBatch = Inr TxValidationCode_VALID"
proof -
  from versioned_db_ok.sys_ok_reach[OF assms(1,3,2)] have
    "ok (tm_db (ts_mgr sys))" "sim_inv E cfg (view (tm_db (ts_mgr sys))) valid_ns h"
    using assms(8-10) by (auto simp: sys_ok_def)
  from versioned_db_ok.sim_results_current[OF assms(1) this assms(4-7,11,10,13)]
    versioned_db_ok.validateTx_complete[OF assms(1) this(1)] assms(12)
  show ?thesis by blast
qed

definition ex_cfg :: sim_config where
  "ex_cfg = \<lparr>IsQueryReadsHashingEnabled = True, MaxDegreeQueryReadsHashing = 2,
     sc_hash = ve_hash ex_env, sc_serialize = ve_serialize ex_env\<rparr>"

text \<open>The manager after the commit of the block, and a simulator that scans the namespace there.\<close>

definition ex_tm :: "memdb_state LockBasedTxMgr" where
  "ex_tm = fst (the (tm_Commit chan_db (fst (fst (tm_ValidateAndPrepare ex_env chan_db (NewLockBasedTxMgr []) ex_block True)))))"

abbreviation ex_ops :: "sim_op list" where
  "ex_ops \<equiv> [OpRangeScan ''cc'' [] [], OpNext 0]"

definition ex_sim :: "sim_op list \<Rightarrow> queryHelper" where
  "ex_sim ops = foldl (\<lambda>h op. projr (sim_step ex_cfg chan_db (tm_db ex_tm) h op)) newLockBasedTxSimulator ops"

lemma ex_prepare:
  "tm_ValidateAndPrepare ex_env chan_db (NewLockBasedTxMgr []) ex_block True
     = ((\<lparr>tm_db = [], tm_batch = Some ex_updates, tm_currentBlock = Some (ex_block\<lparr>blk_Metadata := [[], [], [0, 11], []]\<rparr>),
          tm_readers = 0\<rparr>, ex_block\<lparr>blk_Metadata := [[], [], [0, 11], []]\<rparr>), Inr ())"
  by (simp add: tm_ValidateAndPrepare_def NewLockBasedTxMgr_def ex_validate)

lemma ex_commit: "tm_Commit chan_db (fst (fst (tm_ValidateAndPrepare ex_env chan_db (NewLockBasedTxMgr []) ex_block True)))
    = Some (ex_tm, Inr ())"
  by code_simp

lemma ex_sim_steps:
  "sim_step ex_cfg chan_db (tm_db ex_tm) newLockBasedTxSimulator (OpRangeScan ''cc'' [] []) = Inr (ex_sim [OpRangeScan ''cc'' [] []])"
  "sim_step ex_cfg chan_db (tm_db ex_tm) (ex_sim [OpRangeScan ''cc'' [] []]) (OpNext 0) = Inr (ex_sim ex_ops)"
  by code_simp+

lemma ex_reach:
  "tm_reach ex_env ex_cfg chan_db sldb_valid_ns []
     \<lparr>ts_mgr = ex_tm\<lparr>tm_readers := 1\<rparr>, ts_sims = [ex_sim ex_ops]\<rparr>"
proof -
  let ?R = "tm_reach ex_env ex_cfg chan_db sldb_valid_ns []" and ?scan = "OpRangeScan ''cc'' [] []"
  let ?tm1 = "fst (fst (tm_ValidateAndPrepare ex_env chan_db (NewLockBasedTxMgr []) ex_block True))"
  have tm: "tm_readers ex_tm = 0" by code_simp
  have "?R \<lparr>ts_mgr = ?tm1, ts_sims = []\<rparr>"
    using tm_reach.step[OF tm_reach.start tm_step.prepare[OF ex_rw_ns ex_prepare]] by (simp add: ex_prepare)
  then have "?R \<lparr>ts_mgr = ex_tm, ts_sims = []\<rparr>" using tm_step.commit[OF ex_commit] by (rule tm_reach.step)
  then have "?R \<lparr>ts_mgr = ex_tm\<lparr>tm_readers := 1\<rparr>, ts_sims = [] @ [newLockBasedTxSimulator]\<rparr>"
    by (rule tm_reach.step) (rule tm_step.new_simulator, simp add: tm_NewTxSimulator_def tm)
  then have "?R \<lparr>ts_mgr = ex_tm\<lparr>tm_readers := 1\<rparr>, ts_sims = [newLockBasedTxSimulator][0 := ex_sim [?scan]]\<rparr>"
    using ex_sim_steps by (intro tm_reach.step[OF _ tm_step.simulate[where op = ?scan]])
      (auto simp: sldb_valid_ns_def no_zero_def)
  then have "?R \<lparr>ts_mgr = ex_tm\<lparr>tm_readers := 1\<rparr>, ts_sims = [ex_sim [?scan]][0 := ex_sim ex_ops]\<rparr>"
    using ex_sim_steps by (intro tm_reach.step[OF _ tm_step.simulate[where op = "OpNext 0"]]) auto
  then show ?thesis by simp
qed

theorem simulation_validates_witness:
  "validateTx ex_env chan_db (tm_db ex_tm) (fst (projr (sim_results ex_cfg (ex_sim ex_ops)))) NewUpdateBatch
     = Inr TxValidationCode_VALID"
proof -
  let ?h = "ex_sim ex_ops"
  have res: "sim_results ex_cfg ?h = Inr (fst (projr (sim_results ex_cfg ?h)), snd (projr (sim_results ex_cfg ?h)))"
    by code_simp
  have h: "qh_rwsetBuilder ?h \<noteq> None" "\<not> qh_doneInvoked ?h" "\<forall>itr \<in> set (qh_itrs ?h). itr_used itr" by code_simp+
  have "length (tm_db ex_tm) = 2" by code_simp
  then have "\<forall>ns. sldb_valid_ns ns \<longrightarrow> card (dom (sldb_view chan_kview (tm_db ex_tm) ns)) + 5 < 2 ^ 32"
    using card_chan_view[of "tm_db ex_tm"] by (auto intro: le_less_trans[where y = 2])
  then show ?thesis
    using simulation_validates[OF chan_versioned_db sldb_inv_empty ex_reach _ _ _ _ _ h _ res]
    by (simp add: ex_cfg_def ex_env_def total_fn_def)
qed

text \<open>C4. The state database is the serial history of the chain and survives a crash: committing a
  block to the transaction manager leaves in every namespace what executing the transactions
  the validator flagged valid, one after the other, on the previous contents gives, and it
  moves the savepoint to the last transaction of the block; if the process dies between the
  storing of the block and the commit, recommitting the stored block by \<^verbatim>\<open>CommitLostBlock\<close>
  from the previous state leads to the very same database.\<close>

theorem commit_and_recover:
  assumes "versioned_db_ok D ok view valid_ns" "ok (tm_db tm)"
    and "\<forall>env \<in> set (blk_Data block). \<forall>t. endorser_rwset E env = Some t \<longrightarrow> tx_ns_ok valid_ns t"
    and "tm_ValidateAndPrepare E D tm block True = ((tm1, block'), Inr ())" "tm_Commit D tm1 = Some (tm2, Inr ())"
    and "f = blk_Metadata block' ! BlockMetadataIndex_TRANSACTIONS_FILTER" "valid_ns ns"
    and "vdb_GetLatestSavePoint D (tm_db tm2) = Inr sp"
  shows "view (tm_db tm2) ns = replay E (blk_Number block) 0 (blk_Data block) f (view (tm_db tm)) ns
    \<and> sp = Some (NewHeight (blk_Number block) (word_of_int (int (length (blk_Data block)) - 1)))
    \<and> (\<exists>tm3. tm_CommitLostBlock E D (NewLockBasedTxMgr (tm_db tm)) block' = Some ((tm3, block'), Inr ())
         \<and> tm_db tm3 = tm_db tm2)"
  using versioned_db_ok.commit_block[OF assms(1-7)] assms(8)
    CommitLostBlock_again[OF assms(4,5), of "NewLockBasedTxMgr (tm_db tm)"]
  by (simp add: NewLockBasedTxMgr_def)

theorem commit_and_recover_witness:
  "sldb_view chan_kview (tm_db ex_tm) ''cc''
     = replay ex_env 1 0 [[1], [2]] [0, 11] (sldb_view chan_kview []) ''cc''
   \<and> (\<exists>tm3. tm_CommitLostBlock ex_env chan_db (NewLockBasedTxMgr []) (ex_block\<lparr>blk_Metadata := [[], [], [0, 11], []]\<rparr>)
        = Some ((tm3, ex_block\<lparr>blk_Metadata := [[], [], [0, 11], []]\<rparr>), Inr ()) \<and> tm_db tm3 = tm_db ex_tm)"
proof -
  have sp: "vdb_GetLatestSavePoint chan_db (tm_db ex_tm) = Inr (Some (NewHeight 1 1))" by code_simp
  have ns: "sldb_valid_ns ''cc''" by (simp add: sldb_valid_ns_def no_zero_def)
  have inv: "sldb_inv chan_kview (tm_db (NewLockBasedTxMgr []))" using sldb_inv_empty by (simp add: NewLockBasedTxMgr_def)
  note c = ex_commit[unfolded ex_prepare fst_conv]
  from commit_and_recover[OF chan_versioned_db inv ex_rw_ns ex_prepare c refl ns sp]
  show ?thesis by (simp add: ex_prepare ex_block_def BlockMetadataIndex_TRANSACTIONS_FILTER_def NewLockBasedTxMgr_def
      del: replay.simps)
qed

lemma helper_Done_empty:
  assumes "NewRangeQueryResultsHelper hashing degree = Inr h"
  shows "helper_Done H S h = Some (h, Inr ([], None))"
  using assms by (auto simp: NewRangeQueryResultsHelper_def helper_Done_def newMerkleTree_def mt_isEmpty_def level_def res_bind_eq_Inr Let_def split: if_splits)

text \<open>The read-write set of a simulation that opens a range query and does nothing else.\<close>

lemma unread_results:
  assumes "sim_step cfg D s newLockBasedTxSimulator (OpRangeScan ns startKey endKey) = Inr h" "sim_results cfg h = Inr (t, h')"
  shows "NsRwSets t = [\<lparr>NameSpace = ns, KvRwSet = \<lparr>Reads = [], RangeQueriesInfo = [\<lparr>rq_StartKey = startKey, rq_EndKey = '''',
    rq_ItrExhausted = False, rq_ReadsInfo = None\<rparr>], Writes = []\<rparr>\<rparr>]"
proof -
  obtain itr helper where h: "h = newLockBasedTxSimulator\<lparr>qh_itrs := [itr]\<rparr>" "ri_ns itr = ns" "ri_resultsHelper itr = Some helper"
    "ri_rangeQueryInfo itr = Some \<lparr>rq_StartKey = startKey, rq_EndKey = '''', rq_ItrExhausted = False, rq_ReadsInfo = None\<rparr>"
    "NewRangeQueryResultsHelper (IsQueryReadsHashingEnabled cfg) (MaxDegreeQueryReadsHashing cfg) = Inr helper"
    using assms(1) by (auto simp: qh_getStateRangeScanIterator_def newResultsItr_def newLockBasedTxSimulator_def res_bind_eq_Inr Let_def)
  show ?thesis using assms(2) h(1-4) helper_Done_empty[OF h(5)]
    by (auto simp: sim_results_def qh_done_def newLockBasedTxSimulator_def done_info_def AddToRangeQuerySet_def getOrCreateNsRW_def NewRWSetBuilder_def
        newNsRWs_def GetTxReadWriteSet_def nsRWs_to_set_def GetSortedKeys_def Let_def)
qed

lemma scan_view_unbounded:
  assumes fin: "finite (dom m)"
  shows "scan_view ns a [] m = [] \<longleftrightarrow> (\<forall>k. a \<le> k \<longrightarrow> m k = None)"
proof
  assume e: "scan_view ns a [] m = []"
  have "mkVersionedKV ns k v \<in> set (scan_view ns a [] m)" if "a \<le> k" "m k = Some v" for k v
    unfolding mem_scan_view[OF fin] using that by (simp add: mkVersionedKV_def key_in_range_def)
  then show "\<forall>k. a \<le> k \<longrightarrow> m k = None" unfolding e by fastforce
next
  assume "\<forall>k. a \<le> k \<longrightarrow> m k = None"
  then have "kv \<notin> set (scan_view ns a [] m)" for kv unfolding mem_scan_view[OF fin] by (auto simp: key_in_range_def)
  then show "scan_view ns a [] m = []" by (metis list.set_intros(1) neq_Nil_conv)
qed

text \<open>C18. A range query that is opened and never read. The simulation that opens a range query in a namespace, does
  not call \<^verbatim>\<open>Next\<close> and asks for its results has a read-write set that validates, against the very state it was
  simulated on, exactly when the namespace has no key at or after the start of the range and no empty
  key; otherwise it is refused with a phantom conflict although nothing has changed. The recorded query
  claims that there is no key up to an empty end key, which stands for an unbounded range, whatever the end of
  the query was.\<close>

theorem unread_range_query:
  assumes "versioned_db_ok D ok view valid_ns" "ok s" "valid_ns ns"
    and "sim_step cfg D s newLockBasedTxSimulator (OpRangeScan ns startKey endKey) = Inr h" "sim_results cfg h = Inr (t, h')"
  shows "validateTx E D s t NewUpdateBatch = Inr (if \<exists>k. view s ns k \<noteq> None \<and> (startKey \<le> k \<or> k = '''')
    then TxValidationCode_PHANTOM_READ_CONFLICT else TxValidationCode_VALID)"
proof -
  let ?q = "\<lparr>rq_StartKey = startKey, rq_EndKey = '''', rq_ItrExhausted = False, rq_ReadsInfo = None\<rparr>"
  have q: "GetReadsMerkleHashes ?q = None" "GetRawReads ?q = []" by (simp_all add: GetReadsMerkleHashes_def GetRawReads_def)
  obtain itr where itr: "newCombinedIterator D s NewUpdateBatch ns startKey '''' True = Inr itr"
    "delivers (combined_Next D) itr (range_spec (view s) ns startKey '''' True)"
    using versioned_db_ok.combinedIterator_delivers[OF assms(1-3), of NewUpdateBatch startKey "''''" True] by auto
  obtain b where b: "rangeQueryResultsValidator_validate D ?q itr = Inr b" using raw_validate_total[OF itr(2), of ?q] q by auto
  have fin: "finite (dom (view s ns))" using versioned_db.finite_view[OF versioned_db_ok.axioms(1)[OF assms(1)] assms(2,3)] .
  have "b \<longleftrightarrow> range_spec (view s) ns startKey '''' True = []" using raw_validate_result[OF itr(2) b] q by simp
  also have "\<dots> \<longleftrightarrow> scan_view ns startKey [] (view s ns) = [] \<and> view s ns '''' = None"
    by (simp add: range_spec_def split: option.split)
  also have "\<dots> \<longleftrightarrow> \<not> (\<exists>k. view s ns k \<noteq> None \<and> (startKey \<le> k \<or> k = ''''))"
    using scan_view_unbounded[OF fin, of ns startKey] by auto
  finally show ?thesis
    using b itr(1) q by (simp add: validateTx_def unread_results[OF assms(4,5)] validateRangeQuery_def)
qed

text \<open>The range below the key of the example is empty, and the simulation is refused.\<close>

theorem unread_range_query_witness:
  "validateTx ex_env chan_db (tm_db ex_tm) (fst (projr (sim_results ex_cfg (ex_sim [OpRangeScan ''cc'' ''a'' ''b''])))) NewUpdateBatch
    = Inr TxValidationCode_PHANTOM_READ_CONFLICT"
proof -
  let ?h = "ex_sim [OpRangeScan ''cc'' ''a'' ''b'']"
  have ns: "sldb_valid_ns ''cc''" by (simp add: sldb_valid_ns_def no_zero_def)
  have h: "sim_step ex_cfg chan_db (tm_db ex_tm) newLockBasedTxSimulator (OpRangeScan ''cc'' ''a'' ''b'') = Inr ?h"
    "sim_results ex_cfg ?h = Inr (fst (projr (sim_results ex_cfg ?h)), snd (projr (sim_results ex_cfg ?h)))" by code_simp+
  have ok: "sldb_inv chan_kview (tm_db ex_tm)"
    using versioned_db_ok.sys_ok_reach[OF chan_versioned_db ex_reach sldb_inv_empty] by (simp add: sys_ok_def)
  have "\<not> Option.is_none (sldb_view chan_kview (tm_db ex_tm) ''cc'' ''k'')" by code_simp
  then have "sldb_view chan_kview (tm_db ex_tm) ''cc'' ''k'' \<noteq> None" by (simp only: Option.is_none_def not_False_eq_True)
  moreover have "''a'' \<le> ''k''" by (simp add: less_eq_char_def)
  ultimately have "\<exists>k. sldb_view chan_kview (tm_db ex_tm) ''cc'' k \<noteq> None \<and> (''a'' \<le> k \<or> k = [])" by blast
  from unread_range_query[OF chan_versioned_db ok ns h, of ex_env, unfolded if_P[OF this]] show ?thesis .
qed

end
